(* ===== verification/Prelude.thy ===== *)
theory Prelude
  imports Complex_Main "HOL-Library.Sublist"
begin

section \<open>Prelude: the vocabulary the components share\<close>

text \<open>
  The parts of Python every component uses, and the automation the component theories
  rest on:
  \<^item> exceptions as values (\<open>py_error\<close>) and computations that may raise and that change a
    state (\<open>pym\<close>): a Python method is a function from the object's state to a result and
    the state it leaves behind. A raised exception keeps the assignments made before it,
    which is what the callers that catch it (\<open>notify_callback\<close>, \<open>run_logger\<close>) observe;
  \<^item> indexing, slicing and searching of sequences with Python's conventions;
  \<^item> \<open>preserves P m\<close>: the computation \<open>m\<close> keeps \<open>P\<close>, whether it returns or raises; and
    \<open>never_raises P m\<close>: under \<open>P\<close> it returns and keeps \<open>P\<close>. Both are proved by following
    the shape of a method's body with the rules in the collection \<open>pres\<close>.
\<close>

named_theorems pym_simps \<open>unfolding of the computations\<close>
named_theorems pres \<open>preservation of invariants, by the shape of the computation\<close>

subsection \<open>Bytes\<close>

text \<open>
  Python's \<open>bytes\<close> and \<open>bytearray\<close> are sequences of integers between 0 and 255.
\<close>

type_synonym bytes = "int list"
type_synonym uuid = string

definition is_byte :: "int \<Rightarrow> bool" where
  "is_byte b \<longleftrightarrow> 0 \<le> b \<and> b < 256"

definition is_bytes :: "bytes \<Rightarrow> bool" where
  "is_bytes bs \<longleftrightarrow> list_all is_byte bs"

lemma is_bytes_simps [simp]:
  "is_bytes []"
  "is_bytes (b # bs) \<longleftrightarrow> is_byte b \<and> is_bytes bs"
  "is_bytes (bs @ cs) \<longleftrightarrow> is_bytes bs \<and> is_bytes cs"
  by (simp_all add: is_bytes_def)

lemma is_bytes_take [intro]: "is_bytes bs \<Longrightarrow> is_bytes (take n bs)"
  by (auto simp: is_bytes_def list_all_iff dest: in_set_takeD)

lemma is_bytes_drop [intro]: "is_bytes bs \<Longrightarrow> is_bytes (drop n bs)"
  by (auto simp: is_bytes_def list_all_iff dest: in_set_dropD)

lemma sum_list_int_update:
  "i < length xs \<Longrightarrow> sum_list (xs[i := b]) = sum_list xs + b - xs ! i" for b :: int
  by (induction xs arbitrary: i) (auto split: nat.splits)

subsection \<open>Exceptions, and computations with a state\<close>

datatype py_error =
    AttributeError | KeyError | IndexError | TypeError | ValueError
  | ZeroDivisionError | QueueFull | OSError | NameError

type_synonym ('s, 'a) pym = "'s \<Rightarrow> (py_error + 'a) \<times> 's"

definition ret :: "'a \<Rightarrow> ('s, 'a) pym" where
  "ret x = (\<lambda>s. (Inr x, s))"

definition throw :: "py_error \<Rightarrow> ('s, 'a) pym" where
  "throw e = (\<lambda>s. (Inl e, s))"

definition bind :: "('s, 'a) pym \<Rightarrow> ('a \<Rightarrow> ('s, 'b) pym) \<Rightarrow> ('s, 'b) pym" where
  "bind m f = (\<lambda>s. case m s of (Inl e, s') \<Rightarrow> (Inl e, s') | (Inr x, s') \<Rightarrow> f x s')"

definition gets :: "('s \<Rightarrow> 'a) \<Rightarrow> ('s, 'a) pym" where
  "gets f = (\<lambda>s. (Inr (f s), s))"

definition modify :: "('s \<Rightarrow> 's) \<Rightarrow> ('s, unit) pym" where
  "modify f = (\<lambda>s. (Inr (), f s))"

text \<open>A sequence of statements; the first exception ends it.\<close>

fun block :: "('s, unit) pym list \<Rightarrow> ('s, unit) pym" where
  "block [] = ret ()"
| "block (m # ms) = bind m (\<lambda>_. block ms)"

text \<open>\<open>try: m except: h\<close>, with the state as the failed body left it.\<close>

definition try_except :: "('s, 'a) pym \<Rightarrow> (py_error \<Rightarrow> ('s, 'a) pym) \<Rightarrow> ('s, 'a) pym" where
  "try_except m h = (\<lambda>s. case m s of (Inl e, s') \<Rightarrow> h e s' | (Inr x, s') \<Rightarrow> (Inr x, s'))"

definition whenp :: "bool \<Rightarrow> ('s, unit) pym \<Rightarrow> ('s, unit) pym" where
  "whenp b m = (if b then m else ret ())"

text \<open>A value that is itself an error or a result, as a computation.\<close>

definition lift :: "py_error + 'a \<Rightarrow> ('s, 'a) pym" where
  "lift r = (\<lambda>s. (r, s))"

lemmas pym_defs = ret_def throw_def bind_def gets_def modify_def try_except_def whenp_def lift_def

lemma bind_simps [simp]:
  "bind (ret x) f = f x"
  "bind (throw e) f = throw e"
  by (simp_all add: bind_def ret_def throw_def)

lemma bind_assoc: "bind (bind m f) g = bind m (\<lambda>x. bind (f x) g)"
  by (auto simp: bind_def fun_eq_iff split: prod.splits sum.splits)

text \<open>Running a computation: these carry the evaluation of a method on a given state.\<close>

lemma run_simps [pym_simps]:
  "ret x s = (Inr x, s)"
  "throw e s = (Inl e, s)"
  "gets f s = (Inr (f s), s)"
  "modify g s = (Inr (), g s)"
  "lift r s = (r, s)"
  "whenp b m s = (if b then m s else (Inr (), s))"
  by (simp_all add: pym_defs)

lemma run_bind [pym_simps]:
  "bind m f s = (case m s of (Inl e, s') \<Rightarrow> (Inl e, s') | (Inr x, s') \<Rightarrow> f x s')"
  by (simp add: bind_def)

lemma run_try [pym_simps]:
  "try_except m h s = (case m s of (Inl e, s') \<Rightarrow> h e s' | (Inr x, s') \<Rightarrow> (Inr x, s'))"
  by (simp add: try_except_def)

subsection \<open>Invariants of computations\<close>

definition preserves :: "('s \<Rightarrow> bool) \<Rightarrow> ('s, 'a) pym \<Rightarrow> bool" where
  "preserves P m \<longleftrightarrow> (\<forall>s. P s \<longrightarrow> P (snd (m s)))"

definition never_raises :: "('s \<Rightarrow> bool) \<Rightarrow> ('s, 'a) pym \<Rightarrow> bool" where
  "never_raises P m \<longleftrightarrow> (\<forall>s. P s \<longrightarrow> \<not> isl (fst (m s)) \<and> P (snd (m s)))"

lemma preservesI: "(\<And>s. P s \<Longrightarrow> P (snd (m s))) \<Longrightarrow> preserves P m"
  by (simp add: preserves_def)

lemma preservesD: "preserves P m \<Longrightarrow> P s \<Longrightarrow> P (snd (m s))"
  by (simp add: preserves_def)

lemma preservesD2: "preserves P m \<Longrightarrow> P s \<Longrightarrow> m s = (r, s') \<Longrightarrow> P s'"
  by (auto simp: preserves_def dest: spec [of _ s])

lemma preserves_ret [pres]: "preserves P (ret x)"
  by (simp add: preserves_def ret_def)

lemma preserves_throw [pres]: "preserves P (throw e)"
  by (simp add: preserves_def throw_def)

lemma preserves_gets [pres]: "preserves P (gets f)"
  by (simp add: preserves_def gets_def)

lemma preserves_lift [pres]: "preserves P (lift r)"
  by (simp add: preserves_def lift_def)

lemma preserves_modify [pres]: "(\<And>s. P s \<Longrightarrow> P (f s)) \<Longrightarrow> preserves P (modify f)"
  by (simp add: preserves_def modify_def)

lemma preserves_bind [pres]:
  assumes "preserves P m" and "\<And>x. preserves P (f x)"
  shows "preserves P (bind m f)"
proof (rule preservesI)
  fix s assume "P s"
  then have "P (snd (m s))" using assms(1) by (rule preservesD [rotated])
  then show "P (snd (bind m f s))"
    using assms(2) by (auto simp: bind_def preserves_def split: prod.splits sum.splits)
qed

lemma preserves_block [pres]: "(\<And>m. m \<in> set ms \<Longrightarrow> preserves P m) \<Longrightarrow> preserves P (block ms)"
  by (induction ms) (auto intro!: preserves_ret preserves_bind)

lemma preserves_try [pres]:
  assumes "preserves P m" and "\<And>e. preserves P (h e)"
  shows "preserves P (try_except m h)"
proof (rule preservesI)
  fix s assume "P s"
  then have "P (snd (m s))" using assms(1) by (rule preservesD [rotated])
  then show "P (snd (try_except m h s))"
    using assms(2) by (auto simp: try_except_def preserves_def split: prod.splits sum.splits)
qed

lemma preserves_whenp [pres]: "preserves P m \<Longrightarrow> preserves P (whenp b m)"
  by (simp add: whenp_def preserves_ret)

lemma preserves_if [pres]:
  "preserves P m \<Longrightarrow> preserves P n \<Longrightarrow> preserves P (if b then m else n)"
  by simp

lemma preserves_case_option [pres]:
  assumes "preserves P m" and "\<And>x. preserves P (f x)"
  shows "preserves P (case r of None \<Rightarrow> m | Some x \<Rightarrow> f x)"
  using assms by (cases r) auto

lemma preserves_case_prod [pres]:
  assumes "\<And>x y. preserves P (f x y)"
  shows "preserves P (case r of (x, y) \<Rightarrow> f x y)"
  using assms by (cases r) auto

lemma never_raisesI:
  "(\<And>s. P s \<Longrightarrow> \<not> isl (fst (m s))) \<Longrightarrow> (\<And>s. P s \<Longrightarrow> P (snd (m s))) \<Longrightarrow> never_raises P m"
  by (simp add: never_raises_def)

lemma never_raisesD:
  assumes "never_raises P m" and "P s"
  shows "\<exists>x s'. m s = (Inr x, s') \<and> P s'"
proof -
  from assms have "\<not> isl (fst (m s))" and "P (snd (m s))"
    by (simp_all add: never_raises_def)
  then show ?thesis
    by (cases "m s"; cases "fst (m s)") auto
qed

lemma never_raises_bind:
  assumes "never_raises P m" and "\<And>x. never_raises P (f x)"
  shows "never_raises P (bind m f)"
proof -
  have "\<not> isl (fst (bind m f s)) \<and> P (snd (bind m f s))" if "P s" for s
  proof -
    from never_raisesD [OF assms(1) that] obtain x s' where "m s = (Inr x, s')" and "P s'"
      by blast
    then show ?thesis
      using assms(2) by (simp add: bind_def never_raises_def)
  qed
  then show ?thesis by (simp add: never_raises_def)
qed

lemma never_raises_basic:
  "never_raises P (ret x)"
  "never_raises P (gets f)"
  "(\<And>s. P s \<Longrightarrow> P (g s)) \<Longrightarrow> never_raises P (modify g)"
  by (simp_all add: never_raises_def ret_def gets_def modify_def)

lemma never_raises_block:
  "(\<And>m. m \<in> set ms \<Longrightarrow> never_raises P m) \<Longrightarrow> never_raises P (block ms)"
  by (induction ms) (auto intro!: never_raises_basic never_raises_bind)

lemma never_raises_whenp: "never_raises P m \<Longrightarrow> never_raises P (whenp b m)"
  by (simp add: whenp_def never_raises_basic)

lemma never_raises_try:
  assumes "preserves P m" and "\<And>e. never_raises P (h e)"
  shows "never_raises P (try_except m h)"
proof -
  have "\<not> isl (fst (try_except m h s)) \<and> P (snd (try_except m h s))" if "P s" for s
  proof -
    have "P (snd (m s))" using assms(1) that by (rule preservesD)
    then show ?thesis
      using assms(2) by (auto simp: try_except_def never_raises_def split: prod.splits sum.splits)
  qed
  then show ?thesis by (simp add: never_raises_def)
qed

subsection \<open>Sequences\<close>

text \<open>\<open>xs[i]\<close>: a negative index counts from the end, and one out of range raises.\<close>

definition py_get :: "'a list \<Rightarrow> int \<Rightarrow> py_error + 'a" where
  "py_get xs i =
     (if i < - int (length xs) \<or> int (length xs) \<le> i then Inl IndexError
      else Inr (xs ! nat (if 0 \<le> i then i else i + int (length xs))))"

lemma py_get_beyond: "int (length xs) \<le> i \<Longrightarrow> py_get xs i = Inl IndexError"
  by (auto simp: py_get_def)

lemma py_get_at: "0 \<le> i \<Longrightarrow> i < int (length xs) \<Longrightarrow> py_get xs i = Inr (xs ! nat i)"
  by (auto simp: py_get_def)

text \<open>\<open>xs[a:b]\<close> with \<open>a\<close> and \<open>b\<close> not negative: what lies out of range is left out.\<close>

definition section_of :: "'a list \<Rightarrow> nat \<Rightarrow> nat \<Rightarrow> 'a list" where
  "section_of xs a b = take (b - a) (drop a xs)"

lemma length_section_of [simp]: "length (section_of xs a b) = min b (length xs) - a"
  by (auto simp: section_of_def)

lemma is_bytes_section_of: "is_bytes xs \<Longrightarrow> is_bytes (section_of xs a b)"
  by (simp add: section_of_def is_bytes_take is_bytes_drop)

text \<open>\<open>xs[a:b]\<close> with any integers: a negative bound counts from the end.\<close>

definition clamp_bound :: "nat \<Rightarrow> int \<Rightarrow> nat" where
  "clamp_bound n i = (if i < 0 then nat (int n + i) else min n (nat i))"

definition py_slice :: "'a list \<Rightarrow> int \<Rightarrow> int \<Rightarrow> 'a list" where
  "py_slice xs a b = section_of xs (clamp_bound (length xs) a) (clamp_bound (length xs) b)"

lemma py_slice_nonneg: "0 \<le> a \<Longrightarrow> 0 \<le> b \<Longrightarrow> py_slice xs a b = section_of xs (nat a) (nat b)"
  by (auto simp: py_slice_def section_of_def clamp_bound_def min_def nat_le_iff)

text \<open>\<open>bytearray.find(x, start)\<close> for one byte, and \<open>bytearray.rfind(x)\<close>; \<open>None\<close> is \<open>-1\<close>.\<close>

fun find_first :: "'a \<Rightarrow> 'a list \<Rightarrow> nat option" where
  "find_first x [] = None"
| "find_first x (y # ys) = (if x = y then Some 0 else map_option Suc (find_first x ys))"

definition find_from :: "'a \<Rightarrow> 'a list \<Rightarrow> nat \<Rightarrow> nat option" where
  "find_from x xs i = map_option (\<lambda>k. k + i) (find_first x (drop i xs))"

definition find_last :: "'a \<Rightarrow> 'a list \<Rightarrow> nat option" where
  "find_last x xs = map_option (\<lambda>k. length xs - 1 - k) (find_first x (rev xs))"

lemma find_first_None [simp]: "find_first x xs = None \<longleftrightarrow> x \<notin> set xs"
  by (induction xs) auto

lemma find_first_SomeD:
  "find_first x xs = Some k \<Longrightarrow> k < length xs \<and> xs ! k = x \<and> x \<notin> set (take k xs)"
  by (induction xs arbitrary: k) (auto split: if_splits)

lemma find_first_append_in: "find_first x xs = Some k \<Longrightarrow> find_first x (xs @ ys) = Some k"
  by (induction xs arbitrary: k) (auto split: if_splits)

lemma find_first_append_notin:
  "x \<notin> set xs \<Longrightarrow> find_first x (xs @ ys) = map_option (\<lambda>k. k + length xs) (find_first x ys)"
  by (induction xs) (auto simp: option.map_comp comp_def option.map_ident)

lemma subseq_snoc: "subseq xs ys \<Longrightarrow> subseq (xs @ [x]) (ys @ [x])"
  by (simp add: list_emb_append_mono)

lemma subseq_drop_last: "subseq (xs @ [c]) ys \<Longrightarrow> subseq xs ys"
  by (meson subseq_order.order_trans subseq_rev_drop_many subseq_order.order_refl list_emb_append2 list_emb_append_mono list_emb_Nil)

subsection \<open>Strings\<close>

text \<open>\<open>s in t\<close> for strings, \<open>str.startswith\<close> and \<open>str.endswith\<close>.\<close>

fun is_prefix_of :: "'a list \<Rightarrow> 'a list \<Rightarrow> bool" where
  "is_prefix_of [] ys = True"
| "is_prefix_of (x # xs) [] = False"
| "is_prefix_of (x # xs) (y # ys) = (x = y \<and> is_prefix_of xs ys)"

fun contains :: "'a list \<Rightarrow> 'a list \<Rightarrow> bool" where
  "contains [] xs = (xs = [])"
| "contains (y # ys) xs = (is_prefix_of xs (y # ys) \<or> contains ys xs)"

definition ends_with :: "'a list \<Rightarrow> 'a list \<Rightarrow> bool" where
  "ends_with ys xs = is_prefix_of (rev xs) (rev ys)"

text \<open>\<open>str.split(c)\<close> for a single separator: always at least one part.\<close>

fun split_on :: "'a \<Rightarrow> 'a list \<Rightarrow> 'a list list" where
  "split_on c [] = [[]]"
| "split_on c (x # xs) =
     (if x = c then [] # split_on c xs
      else case split_on c xs of [] \<Rightarrow> [[x]] | p # ps \<Rightarrow> (x # p) # ps)"

lemma split_on_nonempty [simp]: "split_on c xs \<noteq> []"
  by (induction xs) (auto split: list.splits)

lemma split_on_no_sep [simp]: "c \<notin> set xs \<Longrightarrow> split_on c xs = [xs]"
  by (induction xs) auto

lemma split_on_append_sep:
  "split_on c (xs @ c # ys) = split_on c xs @ split_on c ys"
  by (induction xs) (auto split: list.splits)

text \<open>\<open>str(n)\<close> for an integer.\<close>

definition digit_char :: "nat \<Rightarrow> char" where
  "digit_char n = char_of (48 + n)"

fun show_nat :: "nat \<Rightarrow> string" where
  "show_nat n = (if n < 10 then [digit_char n] else show_nat (n div 10) @ [digit_char (n mod 10)])"

definition show_int :: "int \<Rightarrow> string" where
  "show_int n = (if n < 0 then CHR ''-'' # show_nat (nat (- n)) else show_nat (nat n))"

declare show_nat.simps [simp del]

text \<open>A command from Home Assistant: the device, the variable and the new value.\<close>

type_synonym command = "string \<times> string \<times> string"

end
