(* ===== verification/PyNumbers.thy ===== *)
theory PyNumbers
  imports Prelude "HOL-Library.Log_Nat"
begin

section \<open>Python's numbers: unbounded integers and binary64 floats\<close>

text \<open>
  A reading travels through the program as an \<open>int\<close> until the first float constant touches
  it (\<open>* 0.1\<close>, \<open>/ 1000\<close>, \<open>float(val)\<close>) and as a \<open>float\<close> after. A float is modelled by the
  rational number it stands for, and every float operation by the exact result rounded once
  to the nearest binary64 number, ties to even (\<open>fl\<close>), which is what IEEE 754 prescribes and
  CPython does. The two places where the idealisation stops are the sign of zero and
  overflow to infinity: no reading comes near \<open>2 ^ 1024\<close>. The limits read from the
  configuration can be \<open>inf\<close> and \<open>nan\<close>, so they have a type of their own (\<open>bound\<close>).
\<close>

subsection \<open>Rounding to an integer, ties to even\<close>

definition round_even :: "rat \<Rightarrow> int" where
  "round_even x =
     (let f = \<lfloor>x\<rfloor>; d = x - of_int f
      in if d < 1/2 then f else if d > 1/2 then f + 1 else if even f then f else f + 1)"

lemma round_even_of_int [simp]: "round_even (of_int n) = n"
  by (simp add: round_even_def)

lemma round_even_0 [simp]: "round_even 0 = 0" and round_even_1 [simp]: "round_even 1 = 1"
  and round_even_numeral [simp]: "round_even (numeral k) = numeral k"
  using round_even_of_int [of 0] round_even_of_int [of 1] round_even_of_int [of "numeral k"]
  by (simp_all del: round_even_of_int)

lemma round_even_floor: "round_even x = \<lfloor>x\<rfloor> \<or> round_even x = \<lfloor>x\<rfloor> + 1"
  by (auto simp: round_even_def Let_def)

lemma round_even_near: "\<bar>of_int (round_even x) - x\<bar> \<le> 1/2"
proof -
  have "of_int \<lfloor>x\<rfloor> \<le> x" and "x < of_int \<lfloor>x\<rfloor> + 1"
    by linarith+
  then show ?thesis by (auto simp: round_even_def Let_def)
qed

lemma round_even_mono:
  assumes "x \<le> y" shows "round_even x \<le> round_even y"
proof (cases "\<lfloor>x\<rfloor> = \<lfloor>y\<rfloor>")
  case True
  with assms show ?thesis by (auto simp: round_even_def Let_def)
next
  case False
  with floor_mono [OF assms] have "\<lfloor>x\<rfloor> + 1 \<le> \<lfloor>y\<rfloor>" by linarith
  then show ?thesis using round_even_floor [of x] round_even_floor [of y] by linarith
qed

lemma round_even_minus: "round_even (- x) = - round_even x"
proof (cases "x = of_int \<lfloor>x\<rfloor>")
  case True
  then show ?thesis by (metis of_int_minus round_even_of_int)
next
  case False
  then have lt: "of_int \<lfloor>x\<rfloor> < x" by (simp add: order.strict_iff_order eq_commute)
  have "\<lfloor>- x\<rfloor> = - \<lfloor>x\<rfloor> - 1"
    using lt by (intro floor_unique) (simp_all, linarith)
  then show ?thesis by (auto simp: round_even_def Let_def)
qed

lemma round_even_le: "x \<le> of_int n \<Longrightarrow> round_even x \<le> n"
  and round_even_ge: "of_int n \<le> x \<Longrightarrow> n \<le> round_even x"
  using round_even_mono [of x "of_int n"] round_even_mono [of "of_int n" x] by simp_all

subsection \<open>Rounding to binary64\<close>

text \<open>The exponent of the binade of a positive number: \<open>2 ^ e \<le> x < 2 ^ (e + 1)\<close>.\<close>

definition binexp :: "rat \<Rightarrow> int" where
  "binexp x =
     (let (n, d) = quotient_of x; k = bitlen n - bitlen d
      in if 2 powi k \<le> x then k else k - 1)"

text \<open>
  The weight of the last bit of a float of that size: 53 significant bits, and no smaller
  than the least subnormal number.
\<close>

definition ulp_exp :: "rat \<Rightarrow> int" where
  "ulp_exp x = max (binexp \<bar>x\<bar> - 52) (- 1074)"

definition fl :: "rat \<Rightarrow> rat" where
  "fl x = (if x = 0 then 0
           else of_int (round_even (x / 2 powi ulp_exp x)) * 2 powi ulp_exp x)"

lemma fl_0 [simp]: "fl 0 = 0"
  by (simp add: fl_def)

lemma powi_pos [simp]: "(0 :: rat) < 2 powi k"
  by (simp add: zero_less_power_int)

lemma powi_mono: "a \<le> b \<Longrightarrow> (2 :: rat) powi a \<le> 2 powi b"
  by (rule power_int_increasing) auto

lemma bitlen_powi:
  assumes "0 < n"
  shows "2 powi (bitlen n - 1) \<le> (of_int n :: rat)" and "(of_int n :: rat) < 2 powi bitlen n"
proof -
  have b: "1 \<le> bitlen n" using assms by (simp add: bitlen_alt_def)
  have "(2 :: int) ^ nat (bitlen n - 1) \<le> n" and "n < 2 ^ nat (bitlen n)"
    using bitlen_bounds [OF assms] by auto
  then have "(2 :: rat) ^ nat (bitlen n - 1) \<le> of_int n" and "of_int n < (2 :: rat) ^ nat (bitlen n)"
    by (metis of_int_le_iff of_int_numeral of_int_power) (metis of_int_less_iff of_int_numeral of_int_power \<open>n < 2 ^ nat (bitlen n)\<close>)
  with b show "2 powi (bitlen n - 1) \<le> (of_int n :: rat)" and "(of_int n :: rat) < 2 powi bitlen n"
    by (simp_all add: power_int_def)
qed

lemma binexp_bounds:
  assumes "0 < x"
  shows "2 powi binexp x \<le> x \<and> x < 2 powi (binexp x + 1)"
proof -
  obtain n d where q: "quotient_of x = (n, d)" by (cases "quotient_of x")
  then have d: "0 < d" and x: "x = of_int n / of_int d"
    using quotient_of_denom_pos quotient_of_div by auto
  from x d assms have n: "0 < n" by (simp add: zero_less_divide_iff)
  define k where "k = bitlen n - bitlen d"
  have "2 powi (k - 1) * of_int d < (2 :: rat) powi (k - 1) * 2 powi bitlen d"
    using bitlen_powi(2) [OF d] by simp
  also have "\<dots> = 2 powi (bitlen n - 1)" by (simp add: k_def flip: power_int_add)
  also have "\<dots> \<le> of_int n" by (rule bitlen_powi(1) [OF n])
  finally have lo: "2 powi (k - 1) \<le> x" using d by (simp add: x field_simps)
  have "of_int n < (2 :: rat) powi bitlen n" by (rule bitlen_powi(2) [OF n])
  also have "\<dots> = 2 powi (k + 1) * 2 powi (bitlen d - 1)" by (simp add: k_def flip: power_int_add)
  also have "\<dots> \<le> 2 powi (k + 1) * of_int d" using bitlen_powi(1) [OF d] by simp
  finally have hi: "x < 2 powi (k + 1)" using d by (simp add: x field_simps)
  have "binexp x = (if 2 powi k \<le> x then k else k - 1)"
    by (simp add: binexp_def q k_def)
  with lo hi show ?thesis by auto
qed

lemma binexp_unique:
  assumes "2 powi k \<le> x" and "x < 2 powi (k + 1)"
  shows "binexp x = k"
proof -
  have "0 < x" using assms(1) powi_pos less_le_trans by blast
  note b = binexp_bounds [OF this]
  have "\<not> k < binexp x" using assms(2) b powi_mono [of "k + 1" "binexp x"] by auto
  moreover have "\<not> binexp x < k" using assms(1) b powi_mono [of "binexp x + 1" k] by auto
  ultimately show ?thesis by simp
qed

lemma binexp_mono: "0 < x \<Longrightarrow> x \<le> y \<Longrightarrow> binexp x \<le> binexp y"
proof (rule ccontr)
  assume "0 < x" and "x \<le> y" and "\<not> binexp x \<le> binexp y"
  then have "2 powi (binexp y + 1) \<le> (2 :: rat) powi binexp x" by (intro powi_mono) simp
  also have "\<dots> \<le> x" using binexp_bounds \<open>0 < x\<close> by blast
  also have "\<dots> < 2 powi (binexp y + 1)"
    using binexp_bounds [of y] \<open>0 < x\<close> \<open>x \<le> y\<close> by auto
  finally show False by simp
qed

text \<open>What the rounding sees is below \<open>2 ^ 53\<close>, so a float has at most 53 significant bits.\<close>

lemma scaled_bound: "\<bar>x\<bar> \<le> of_int (2 ^ 53) * 2 powi ulp_exp x"
proof (cases "x = 0")
  case False
  then have "\<bar>x\<bar> < 2 powi (binexp \<bar>x\<bar> + 1)" using binexp_bounds [of "\<bar>x\<bar>"] by simp
  also have "\<dots> \<le> 2 powi (53 + ulp_exp x)" by (intro powi_mono) (simp add: ulp_exp_def)
  also have "\<dots> = of_int (2 ^ 53) * 2 powi ulp_exp x" by (simp add: power_int_add)
  finally show ?thesis by simp
qed simp

lemma ulp_exp_minus [simp]: "ulp_exp (- x) = ulp_exp x"
  by (simp add: ulp_exp_def)

lemma fl_minus: "fl (- x) = - fl x"
  by (simp add: fl_def round_even_minus)

lemma fl_significand: "\<exists>m. fl x = of_int m * 2 powi ulp_exp x \<and> \<bar>m\<bar> \<le> 2 ^ 53"
proof (cases "x = 0")
  case True
  then show ?thesis by (intro exI [of _ 0]) simp
next
  case False
  let ?y = "x / 2 powi ulp_exp x"
  have "\<bar>?y\<bar> \<le> of_int (2 ^ 53)"
    using scaled_bound [of x] by (simp add: abs_divide divide_le_eq)
  then have "?y \<le> of_int (2 ^ 53)" and "of_int (- (2 ^ 53)) \<le> ?y"
    using abs_le_D1 [of ?y "of_int (2 ^ 53)"] abs_le_D2 [of ?y "of_int (2 ^ 53)"] by auto
  then have "\<bar>round_even ?y\<bar> \<le> 2 ^ 53"
    using round_even_le [of ?y "2 ^ 53"] round_even_ge [of "- (2 ^ 53)" ?y] by (simp add: abs_le_iff)
  with False show ?thesis by (auto simp: fl_def)
qed

text \<open>A number with at most 53 significant bits is a float: rounding leaves it as it is.\<close>

lemma fl_exact:
  assumes "\<bar>m\<bar> \<le> 2 ^ 53" and "- 1074 \<le> e"
  shows "fl (of_int m * 2 powi e) = of_int m * 2 powi e"
proof -
  have small: "fl (of_int m * 2 powi e) = of_int m * 2 powi e" if m: "\<bar>m\<bar> < 2 ^ 53" and e: "- 1074 \<le> e" for m e
  proof (cases "m = 0")
    case False
    let ?x = "of_int m * 2 powi e :: rat"
    have "\<bar>?x\<bar> < of_int (2 ^ 53) * 2 powi e"
      using m by (simp add: abs_mult flip: of_int_abs)
    then have "\<bar>?x\<bar> < 2 powi (53 + e)" by (simp add: power_int_add)
    moreover have "2 powi binexp \<bar>?x\<bar> \<le> \<bar>?x\<bar>" using False binexp_bounds [of "\<bar>?x\<bar>"] by simp
    ultimately have "2 powi binexp \<bar>?x\<bar> < (2 :: rat) powi (53 + e)" by simp
    then have "\<not> 53 + e \<le> binexp \<bar>?x\<bar>" using powi_mono [of "53 + e" "binexp \<bar>?x\<bar>"] by linarith
    then have "ulp_exp ?x \<le> e" using e by (simp add: ulp_exp_def)
    then obtain k where k: "e - ulp_exp ?x = int k" using zle_iff_zadd by (metis add_diff_cancel_left')
    have "?x / 2 powi ulp_exp ?x = of_int m * 2 powi (e - ulp_exp ?x)"
      by (simp add: power_int_diff)
    also have "\<dots> = of_int (m * 2 ^ k)" by (simp only: k) simp
    finally have eq: "?x / 2 powi ulp_exp ?x = of_int (m * 2 ^ k)" .
    have "fl ?x = of_int (m * 2 ^ k) * 2 powi ulp_exp ?x"
      using False by (simp only: fl_def eq round_even_of_int) simp
    also have "\<dots> = ?x" by (simp only: eq [symmetric]) simp
    finally show ?thesis .
  qed simp
  show ?thesis
  proof (cases "\<bar>m\<bar> < 2 ^ 53")
    case True
    then show ?thesis using assms(2) by (rule small)
  next
    case False
    then have "m = 2 ^ 53 \<or> m = - (2 ^ 53)" using assms(1) by linarith
    then have "m = 2 * (m div 2)" and half: "\<bar>m div 2\<bar> < 2 ^ 53" by auto
    have "of_int m = (2 * of_int (m div 2) :: rat)"
      using \<open>m = 2 * (m div 2)\<close> by (metis of_int_mult of_int_numeral)
    then have "of_int m * 2 powi e = (of_int (m div 2) * 2 powi (e + 1) :: rat)"
      by (simp add: power_int_add)
    with small [OF half, of "e + 1"] assms(2) show ?thesis by simp
  qed
qed

lemma fl_of_int: "\<bar>n\<bar> \<le> 2 ^ 53 \<Longrightarrow> fl (of_int n) = of_int n"
  using fl_exact [of n 0] by simp

lemma fl_numeral [simp]: "(numeral k :: int) \<le> 9007199254740992 \<Longrightarrow> fl (numeral k) = numeral k"
  using fl_of_int [of "numeral k"] by simp

lemma fl_neg_numeral [simp]:
  "(numeral k :: int) \<le> 9007199254740992 \<Longrightarrow> fl (- numeral k) = - numeral k"
  using fl_of_int [of "- numeral k"] by simp

lemma fl_1 [simp]: "fl 1 = 1"
  using fl_of_int [of 1] by simp

lemma fl_idem [simp]: "fl (fl x) = fl x"
proof -
  obtain m where "fl x = of_int m * 2 powi ulp_exp x" and "\<bar>m\<bar> \<le> 2 ^ 53"
    using fl_significand by blast
  then show ?thesis using fl_exact [of m "ulp_exp x"] by (simp add: ulp_exp_def)
qed

lemma fl_nonneg: "0 \<le> x \<Longrightarrow> 0 \<le> fl x"
  using round_even_ge [of 0 "x / 2 powi ulp_exp x"] by (simp add: fl_def)

lemma fl_mono_pos:
  assumes "0 < x" and "x \<le> y"
  shows "fl x \<le> fl y"
proof (cases "ulp_exp x = ulp_exp y")
  case True
  have "round_even (x / 2 powi ulp_exp y) \<le> round_even (y / 2 powi ulp_exp y)"
    using assms(2) by (intro round_even_mono divide_right_mono) (simp_all add: less_imp_le)
  then show ?thesis using True assms by (simp add: fl_def)
next
  case False
  let ?u = "ulp_exp x" and ?v = "ulp_exp y"
  have "binexp x \<le> binexp y" using assms by (rule binexp_mono)
  then have uv: "?u + 1 \<le> ?v" and v: "?v = binexp y - 52"
    using False assms by (auto simp: ulp_exp_def)
  obtain m where m: "fl x = of_int m * 2 powi ?u" "\<bar>m\<bar> \<le> 2 ^ 53"
    using fl_significand by blast
  then have "fl x \<le> of_int (2 ^ 53) * 2 powi ?u"
    by (metis abs_le_D1 mult_right_mono of_int_le_iff powi_pos less_imp_le)
  also have "\<dots> = of_int (2 ^ 52) * 2 powi (?u + 1)" by (simp add: power_int_add)
  also have "\<dots> \<le> of_int (2 ^ 52) * 2 powi ?v" using uv by (simp add: powi_mono)
  also have "\<dots> \<le> of_int (round_even (y / 2 powi ?v)) * 2 powi ?v"
  proof -
    have "(2 :: rat) powi (52 + ?v) \<le> y" using binexp_bounds [of y] assms v by simp
    then have "of_int (2 ^ 52) \<le> y / 2 powi ?v" by (simp add: power_int_add le_divide_eq)
    then have "2 ^ 52 \<le> round_even (y / 2 powi ?v)" by (rule round_even_ge)
    then show ?thesis by (metis mult_right_mono of_int_le_iff powi_pos less_imp_le)
  qed
  also have "\<dots> = fl y" using assms by (simp add: fl_def)
  finally show ?thesis .
qed

lemma fl_mono:
  assumes "x \<le> y" shows "fl x \<le> fl y"
proof (cases "0 < x")
  case True
  then show ?thesis using assms by (rule fl_mono_pos)
next
  case x: False
  show ?thesis
  proof (cases "0 \<le> y")
    case True
    have "0 \<le> fl (- x)" using x by (intro fl_nonneg) simp
    moreover have "0 \<le> fl y" using True by (rule fl_nonneg)
    ultimately show ?thesis by (simp add: fl_minus)
  next
    case False
    then have "fl (- y) \<le> fl (- x)" using assms by (intro fl_mono_pos) simp_all
    then show ?thesis by (simp add: fl_minus)
  qed
qed

lemma fl_le_int: "x \<le> of_int n \<Longrightarrow> \<bar>n\<bar> \<le> 2 ^ 53 \<Longrightarrow> fl x \<le> of_int n"
  and fl_ge_int: "of_int n \<le> x \<Longrightarrow> \<bar>n\<bar> \<le> 2 ^ 53 \<Longrightarrow> of_int n \<le> fl x"
  using fl_mono [of x "of_int n"] fl_mono [of "of_int n" x] by (simp_all add: fl_of_int)

subsection \<open>The numeric operations\<close>

datatype pynum = PInt int | PFloat rat

primrec num_val :: "pynum \<Rightarrow> rat" where
  "num_val (PInt n) = of_int n"
| "num_val (PFloat q) = q"

text \<open>\<open>float(x)\<close>.\<close>

primrec to_float :: "pynum \<Rightarrow> rat" where
  "to_float (PInt n) = fl (of_int n)"
| "to_float (PFloat q) = q"

text \<open>A decimal literal such as \<open>0.1\<close> is the float nearest to it.\<close>

definition flit :: "rat \<Rightarrow> pynum" where
  "flit q = PFloat (fl q)"

fun num_add :: "pynum \<Rightarrow> pynum \<Rightarrow> pynum" where
  "num_add (PInt a) (PInt b) = PInt (a + b)"
| "num_add x y = PFloat (fl (to_float x + to_float y))"

fun num_sub :: "pynum \<Rightarrow> pynum \<Rightarrow> pynum" where
  "num_sub (PInt a) (PInt b) = PInt (a - b)"
| "num_sub x y = PFloat (fl (to_float x - to_float y))"

fun num_mul :: "pynum \<Rightarrow> pynum \<Rightarrow> pynum" where
  "num_mul (PInt a) (PInt b) = PInt (a * b)"
| "num_mul x y = PFloat (fl (to_float x * to_float y))"

text \<open>
  \<open>x / y\<close> for a divisor that is not zero: the quotient of two ints is rounded once, as
  CPython's long division does. \<open>num_div\<close> adds the \<open>ZeroDivisionError\<close>.
\<close>

fun num_quot :: "pynum \<Rightarrow> pynum \<Rightarrow> pynum" where
  "num_quot (PInt a) (PInt b) = PFloat (fl (of_int a / of_int b))"
| "num_quot x y = PFloat (fl (to_float x / to_float y))"

definition num_div :: "pynum \<Rightarrow> pynum \<Rightarrow> py_error + pynum" where
  "num_div x y = (if num_val y = 0 then Inl ZeroDivisionError else Inr (num_quot x y))"

primrec num_abs :: "pynum \<Rightarrow> pynum" where
  "num_abs (PInt n) = PInt \<bar>n\<bar>"
| "num_abs (PFloat q) = PFloat \<bar>q\<bar>"

text \<open>
  Comparison of an int with a float is exact in Python: it compares the values. Division
  and multiplication above convert an int operand to a float first, as CPython does.
\<close>

definition num_eq :: "pynum \<Rightarrow> pynum \<Rightarrow> bool" where
  "num_eq x y \<longleftrightarrow> num_val x = num_val y"

definition num_lt :: "pynum \<Rightarrow> pynum \<Rightarrow> bool" where
  "num_lt x y \<longleftrightarrow> num_val x < num_val y"

definition num_le :: "pynum \<Rightarrow> pynum \<Rightarrow> bool" where
  "num_le x y \<longleftrightarrow> num_val x \<le> num_val y"

text \<open>
  \<open>round(x, 1)\<close>: the float's exact value rounded to one decimal, ties to even, and the
  decimal read back as a float. \<open>int(x)\<close> truncates towards zero.
\<close>

primrec round1 :: "pynum \<Rightarrow> pynum" where
  "round1 (PInt n) = PInt n"
| "round1 (PFloat q) = PFloat (fl (of_int (round_even (q * 10)) / 10))"

primrec num_trunc :: "pynum \<Rightarrow> int" where
  "num_trunc (PInt n) = n"
| "num_trunc (PFloat q) = (if 0 \<le> q then \<lfloor>q\<rfloor> else \<lceil>q\<rceil>)"

lemmas num_rel_defs = num_eq_def num_lt_def num_le_def

lemma round1_mono:
  assumes "p \<le> q"
  shows "num_val (round1 (PFloat p)) \<le> num_val (round1 (PFloat q))"
proof -
  have "round_even (p * 10) \<le> round_even (q * 10)" using assms by (intro round_even_mono) simp
  then show ?thesis by (simp add: fl_mono divide_right_mono)
qed

subsection \<open>Limits\<close>

text \<open>
  A bound of a definition: a number, or one of the special floats \<open>configparser.getfloat\<close>
  accepts. A comparison with \<open>nan\<close> is always false.
\<close>

datatype bound = Fin rat | PosInf | NegInf | NaN

primrec over :: "rat \<Rightarrow> bound \<Rightarrow> bool" where
  "over x (Fin b) = (x > b)"
| "over x PosInf = False"
| "over x NegInf = True"
| "over x NaN = False"

primrec under :: "rat \<Rightarrow> bound \<Rightarrow> bool" where
  "under x (Fin b) = (x < b)"
| "under x PosInf = True"
| "under x NegInf = False"
| "under x NaN = False"

primrec at_most :: "rat \<Rightarrow> bound \<Rightarrow> bool" where
  "at_most x (Fin b) = (x \<le> b)"
| "at_most x PosInf = True"
| "at_most x NegInf = False"
| "at_most x NaN = False"

lemma at_most_not_over: "at_most x b \<Longrightarrow> \<not> over x b"
  by (cases b) auto

lemma over_at_most: "over x b \<Longrightarrow> at_most y b \<longleftrightarrow> \<not> over y b"
  by (cases b) auto

subsection \<open>Published values\<close>

text \<open>
  What an attribute of an entity can hold and what goes through the queue to the loggers.
  \<open>==\<close> compares numbers by value, so \<open>0 == 0.0\<close>.
\<close>

datatype pyval = PNone | PStr string | PNum pynum | PBytes bytes

fun py_eq :: "pyval \<Rightarrow> pyval \<Rightarrow> bool" where
  "py_eq (PNum x) (PNum y) = num_eq x y"
| "py_eq PNone PNone = True"
| "py_eq (PStr s) (PStr t) = (s = t)"
| "py_eq (PBytes s) (PBytes t) = (s = t)"
| "py_eq _ _ = False"

lemma py_eq_refl [simp]: "py_eq x x"
  by (cases x) (simp_all add: num_eq_def)

lemma py_eq_sym: "py_eq x y \<longleftrightarrow> py_eq y x"
  by (cases x; cases y) (auto simp: num_eq_def)

lemma py_eq_trans: "py_eq x y \<Longrightarrow> py_eq y z \<Longrightarrow> py_eq x z"
  by (cases x; cases y; cases z) (auto simp: num_eq_def)

end
