(* ===== verification/ValueLimits.thy ===== *)
theory ValueLimits
  imports PyNumbers
begin

section \<open>solardevice.py: the definition of a value and PowerDevice.validate\<close>

text \<open>
  Every stored value is a dictionary with its bounds (\<open>'val'\<close>, \<open>'min'\<close>, \<open>'max'\<close>,
  \<open>'maxdiff'\<close>), to which \<open>validate\<close> adds the count of consecutive rejected readings and the
  last of them. \<open>validate_defn\<close> is the body of \<open>validate\<close> on that dictionary: a reading as
  the float \<open>float(val)\<close>, the definition before, the method's result (\<open>False\<close>, or \<open>None\<close>
  when the value was stored) and the definition after. The lemmas say what is stored, what
  an outlier does, and that a device that keeps saying the same thing is believed in the end.
\<close>

record defn =
  dval :: pynum
  dmin :: bound
  dmax :: bound
  dmaxdiff :: bound
  rejected :: nat
  rejected_val :: "rat option"

definition mk_defn :: "int \<Rightarrow> int \<Rightarrow> int \<Rightarrow> int \<Rightarrow> defn" where
  "mk_defn v lo hi diff =
     \<lparr>dval = PInt v, dmin = Fin (of_int lo), dmax = Fin (of_int hi), dmaxdiff = Fin (of_int diff),
      rejected = 0, rejected_val = None\<rparr>"

definition MAX_CONSECUTIVE_REJECTS :: nat where
  "MAX_CONSECUTIVE_REJECTS = 2"

definition fdiff :: "rat \<Rightarrow> rat \<Rightarrow> rat" where
  "fdiff x y = \<bar>fl (x - y)\<bar>"

definition store_reading :: "rat \<Rightarrow> defn \<Rightarrow> defn" where
  "store_reading v d = d\<lparr>rejected := 0, rejected_val := None, dval := PFloat v\<rparr>"

text \<open>The count after one more reading beyond \<open>maxdiff\<close>: consistent ones add up.\<close>

definition next_rejected :: "rat \<Rightarrow> defn \<Rightarrow> nat" where
  "next_rejected v d =
     (case rejected_val d of
        None \<Rightarrow> 1
      | Some previous \<Rightarrow> if at_most (fdiff v previous) (dmaxdiff d) then rejected d + 1 else 1)"

definition validate_defn :: "rat \<Rightarrow> defn \<Rightarrow> bool option \<times> defn" where
  "validate_defn v d =
     (let cur = num_val (dval d) in
      if v = cur then (Some False, d\<lparr>rejected := 0, rejected_val := None\<rparr>)
      else if over v (dmax d) then (Some False, d)
      else if under v (dmin d) then (Some False, d)
      else if cur \<noteq> 0 \<and> cur \<noteq> 2731 \<and> over (fdiff v cur) (dmaxdiff d) then
        (let n = next_rejected v d; d' = d\<lparr>rejected := n, rejected_val := Some v\<rparr>
         in if n \<le> MAX_CONSECUTIVE_REJECTS then (Some False, d')
            else (None, store_reading v d'))
      else (None, store_reading v d))"

text \<open>A run of readings.\<close>

definition reading :: "defn \<Rightarrow> rat \<Rightarrow> defn" where
  "reading d v = snd (validate_defn v d)"

definition readings :: "rat list \<Rightarrow> defn \<Rightarrow> defn" where
  "readings vs d = foldl reading d vs"

lemma readings_simps [simp]:
  "readings [] d = d"
  "readings (v # vs) d = readings vs (reading d v)"
  by (simp_all add: readings_def)

subsection \<open>Reading by reading\<close>

definition acceptable :: "defn \<Rightarrow> rat \<Rightarrow> bool" where
  "acceptable d v \<longleftrightarrow> \<not> over v (dmax d) \<and> \<not> under v (dmin d)"

text \<open>A reading that is in band but too far from the stored value.\<close>

definition outlier :: "defn \<Rightarrow> rat \<Rightarrow> bool" where
  "outlier d v \<longleftrightarrow> v \<noteq> num_val (dval d) \<and>
     num_val (dval d) \<noteq> 0 \<and> num_val (dval d) \<noteq> 2731 \<and> over (fdiff v (num_val (dval d))) (dmaxdiff d)"

lemma store_reading_simps [simp]:
  "dval (store_reading v d) = PFloat v"
  "dmin (store_reading v d) = dmin d"
  "dmax (store_reading v d) = dmax d"
  "dmaxdiff (store_reading v d) = dmaxdiff d"
  "rejected (store_reading v d) = 0"
  "rejected_val (store_reading v d) = None"
  by (simp_all add: store_reading_def)

text \<open>The five ways a reading can go.\<close>

lemma reading_same: "v = num_val (dval d) \<Longrightarrow> reading d v = d\<lparr>rejected := 0, rejected_val := None\<rparr>"
  by (simp add: reading_def validate_defn_def)

lemma reading_out_of_band:
  "v \<noteq> num_val (dval d) \<Longrightarrow> \<not> acceptable d v \<Longrightarrow> reading d v = d"
  by (auto simp: reading_def validate_defn_def acceptable_def Let_def)

lemma reading_close:
  "v \<noteq> num_val (dval d) \<Longrightarrow> acceptable d v \<Longrightarrow> \<not> outlier d v \<Longrightarrow> reading d v = store_reading v d"
  by (auto simp: reading_def validate_defn_def acceptable_def outlier_def Let_def)

lemma reading_rejected:
  "acceptable d v \<Longrightarrow> outlier d v \<Longrightarrow> next_rejected v d \<le> 2 \<Longrightarrow>
   reading d v = d\<lparr>rejected := next_rejected v d, rejected_val := Some v\<rparr>"
  by (simp add: reading_def validate_defn_def acceptable_def outlier_def MAX_CONSECUTIVE_REJECTS_def Let_def)

lemma reading_believed:
  "acceptable d v \<Longrightarrow> outlier d v \<Longrightarrow> 2 < next_rejected v d \<Longrightarrow> reading d v = store_reading v d"
  by (simp add: reading_def validate_defn_def acceptable_def outlier_def MAX_CONSECUTIVE_REJECTS_def
      store_reading_def Let_def)

lemma reading_stored:
  assumes "acceptable d v" and "v = num_val (dval d) \<or> \<not> outlier d v \<or> 2 < next_rejected v d"
  shows "num_val (dval (reading d v)) = v"
proof (cases "v = num_val (dval d)")
  case True
  then show ?thesis by (simp add: reading_same)
next
  case False
  with assms show ?thesis
    by (cases "outlier d v") (auto simp: reading_close reading_believed)
qed

lemmas reading_cases = reading_same reading_out_of_band reading_close reading_rejected reading_believed

lemma reading_bounds [simp]:
  "dmin (reading d v) = dmin d" "dmax (reading d v) = dmax d" "dmaxdiff (reading d v) = dmaxdiff d"
  by (simp_all add: reading_def validate_defn_def Let_def)

lemma acceptable_reading [simp]: "acceptable (reading d v) w = acceptable d w"
  by (simp add: acceptable_def)

lemma readings_bounds [simp]:
  "dmin (readings vs d) = dmin d" "dmax (readings vs d) = dmax d" "dmaxdiff (readings vs d) = dmaxdiff d"
  by (induction vs arbitrary: d) simp_all

text \<open>The result tells whether the value was stored.\<close>

lemma validate_defn_result:
  "fst (validate_defn v d) = None \<longleftrightarrow> v \<noteq> num_val (dval d) \<and> dval (reading d v) = PFloat v"
  by (auto simp: reading_def validate_defn_def Let_def)

subsection \<open>The invariant\<close>

text \<open>
  What is stored is the initial value or a value in band; the count stays within the limit
  and agrees with the remembered reading.
\<close>

definition wf_defn :: "rat \<Rightarrow> defn \<Rightarrow> bool" where
  "wf_defn v0 d \<longleftrightarrow>
     (num_val (dval d) = v0 \<or> acceptable d (num_val (dval d))) \<and>
     rejected d \<le> MAX_CONSECUTIVE_REJECTS \<and> (rejected d = 0 \<longleftrightarrow> rejected_val d = None)"

lemma next_rejected_pos [simp]: "0 < next_rejected v d"
  by (simp add: next_rejected_def split: option.splits)

lemma wf_reading: "wf_defn v0 d \<Longrightarrow> wf_defn v0 (reading d v)"
  by (auto simp: wf_defn_def reading_def validate_defn_def Let_def acceptable_def)

lemma wf_readings: "wf_defn v0 d \<Longrightarrow> wf_defn v0 (readings vs d)"
  by (induction vs arbitrary: d) (auto simp: wf_reading)

text \<open>
  whatever a device sends, the stored value is the one it was created with or lies
  within the configured bounds.
\<close>

theorem stored_value_in_band:
  assumes "wf_defn v0 d"
  shows "num_val (dval (readings vs d)) = v0
           \<or> acceptable d (num_val (dval (readings vs d)))"
  using wf_readings [OF assms, of vs] by (auto simp: wf_defn_def acceptable_def)

theorem stored_value_in_band_witness:
  "num_val (dval (readings [99000, 13200, 500, 13300] (mk_defn 0 10000 15000 12000))) = 0
   \<or> acceptable (mk_defn 0 10000 15000 12000)
       (num_val (dval (readings [99000, 13200, 500, 13300] (mk_defn 0 10000 15000 12000))))"
  by (rule stored_value_in_band) (simp add: wf_defn_def mk_defn_def)



subsection \<open>One outlier is ignored, a persistent change is believed\<close>

lemma fdiff_self [simp]: "fdiff v v = 0"
  by (simp add: fdiff_def)

text \<open>
  C13: no latch: whatever the state a definition is in, a device that reports the same
  in-band value three times in a row has it stored.
\<close>

theorem steady_value_believed:
  assumes "wf_defn v0 d" and "acceptable d w" and "at_most 0 (dmaxdiff d)"
  shows "num_val (dval (readings [w, w, w] d)) = w"
proof -
  have stay: "num_val (dval (reading e w)) = w" if "num_val (dval e) = w" for e
    using that by (simp add: reading_same)
  have step: "num_val (dval (reading e w)) = w
      \<or> (reading e w = e\<lparr>rejected := next_rejected w e, rejected_val := Some w\<rparr> \<and> outlier e w)"
    if "acceptable e w" for e
  proof (cases "w = num_val (dval e) \<or> \<not> outlier e w \<or> 2 < next_rejected w e")
    case True
    then show ?thesis using that reading_stored [of e w] by blast
  next
    case False
    then show ?thesis using that by (simp add: reading_rejected)
  qed
  have count: "next_rejected w e = rejected e + 1" if "rejected_val e = Some w" "dmaxdiff e = dmaxdiff d" for e
    using that assms(3) by (simp add: next_rejected_def)
  let ?a = "reading d w" and ?b = "reading (reading d w) w"
  consider "num_val (dval ?a) = w" | "num_val (dval ?a) \<noteq> w" "num_val (dval ?b) = w"
    | "num_val (dval ?a) \<noteq> w" "num_val (dval ?b) \<noteq> w" by blast
  then show ?thesis
  proof cases
    case 3
    from 3 step [of d] assms(2) have a: "rejected_val ?a = Some w" "rejected ?a = next_rejected w d"
      by (metis defn.select_convs(5,6) defn.surjective defn.update_convs(5,6))+
    from 3 step [of ?a] assms(2) have b: "rejected_val ?b = Some w" "rejected ?b = next_rejected w ?a"
      by (metis acceptable_reading defn.select_convs(5,6) defn.surjective defn.update_convs(5,6))+
    have "next_rejected w ?b = rejected ?a + 2" using count [of ?b] count [of ?a] a b by simp
    then have "2 < next_rejected w ?b" using a by (simp add: next_rejected_pos)
    with assms(2) show ?thesis by (simp add: reading_stored)
  qed (simp_all add: stay)
qed


theorem steady_value_believed_witness:
  "num_val (dval (readings [14500, 14500, 14500]
      ((store_reading 12000 (mk_defn 0 10000 15000 500))\<lparr>rejected := 1, rejected_val := Some 10500\<rparr>))) = 14500"
  by (rule steady_value_believed [of 0])
    (simp_all add: wf_defn_def mk_defn_def store_reading_def acceptable_def MAX_CONSECUTIVE_REJECTS_def)

text \<open>
  scattered noise never gets through: from a state with no rejected reading, outliers
  of which no two neighbours are within \<open>maxdiff\<close> of each other never change the stored
  value, however many there are.
\<close>

theorem scattered_noise_ignored:
  assumes "rejected_val d = None"
    and "\<forall>v \<in> set vs. acceptable d v \<and> outlier d v"
    and "successively (\<lambda>p v. \<not> at_most (fdiff v p) (dmaxdiff d)) vs"
  shows "dval (readings vs d) = dval d"
proof -
  have gen: "dval (readings vs e) = dval e"
    if "rejected_val e = None \<or> (\<exists>p. rejected_val e = Some p \<and> (vs = [] \<or> \<not> at_most (fdiff (hd vs) p) (dmaxdiff e)))"
      and "\<forall>v \<in> set vs. acceptable e v \<and> outlier e v"
      and "successively (\<lambda>p v. \<not> at_most (fdiff v p) (dmaxdiff e)) vs" for e vs
    using that
  proof (induction vs arbitrary: e)
    case (Cons v vs)
    let ?e = "e\<lparr>rejected := 1, rejected_val := Some v\<rparr>"
    have "next_rejected v e = 1" using Cons.prems(1) by (auto simp: next_rejected_def)
    then have e: "reading e v = ?e" using Cons.prems(2) by (simp add: reading_rejected)
    have "dval (readings vs ?e) = dval ?e"
      using Cons.prems(2,3)
      by (intro Cons.IH) (auto simp: acceptable_def outlier_def successively_Cons)
    then show ?case by (simp add: e)
  qed simp
  show ?thesis using assms by (intro gen) auto
qed

theorem scattered_noise_ignored_witness:
  "dval (readings [14000, 11000, 14500, 11500] (store_reading 12800 (mk_defn 0 10000 15000 500))) = PFloat 12800"
  using scattered_noise_ignored [of "store_reading 12800 (mk_defn 0 10000 15000 500)" "[14000, 11000, 14500, 11500]"]
  by (simp add: mk_defn_def store_reading_def acceptable_def outlier_def fdiff_def)

text \<open>
  a reading outside the bounds leaves no trace: a run stores what the same run without
  them stores. So the outliers the escape counts need not be consecutive readings: garbage
  between them does not restart the count.
\<close>

theorem out_of_band_invisible:
  assumes "acceptable d (num_val (dval d))"
  shows "readings vs d = readings (filter (acceptable d) vs) d"
  using assms
proof (induction vs arbitrary: d)
  case (Cons v vs)
  have eq: "acceptable (reading d v) = acceptable d" by (simp add: fun_eq_iff)
  show ?case
  proof (cases "acceptable d v")
    case True
    have "acceptable (reading d v) (num_val (dval (reading d v)))"
      using Cons.prems True unfolding eq by (auto simp: reading_def validate_defn_def Let_def)
    from Cons.IH [OF this] True show ?thesis by (simp add: eq)
  next
    case False
    then have "reading d v = d" using Cons.prems by (intro reading_out_of_band) auto
    with False Cons show ?thesis by simp
  qed
qed simp

theorem out_of_band_invisible_witness:
  "num_val (dval (readings [14000, 99000, 14000, 99000, 14000] (store_reading 12000 (mk_defn 0 10000 15000 500)))) = 14000"
proof -
  let ?d = "store_reading 12000 (mk_defn 0 10000 15000 500)"
  have acc: "acceptable ?d 14000" "acceptable ?d 12000" "\<not> acceptable ?d 99000"
    by (simp_all add: acceptable_def mk_defn_def store_reading_def)
  then have "readings [14000, 99000, 14000, 99000, 14000] ?d = readings [14000, 14000, 14000] ?d"
    using out_of_band_invisible [of ?d "[14000, 99000, 14000, 99000, 14000]"] by simp
  moreover have "num_val (dval (readings [14000, 14000, 14000] ?d)) = 14000" by code_simp
  ultimately show ?thesis by simp
qed

end
