(* ===== verification/Entities.thy ===== *)
theory Entities
  imports ValueLimits
begin

section \<open>solardevice.py: PowerDevice and its subclasses\<close>

text \<open>
  The object that stores a device's values. Its \<open>_name\<close> attributes that are definitions are
  the map \<open>defs\<close>, keyed by \<open>var\<close>; the class is the field \<open>kind\<close>, on which the overriding
  setters of \<open>BatteryDevice\<close> dispatch. Python lets a plugin assign an attribute its device
  class does not define: such an attribute lands in the instance dictionary (\<open>extra\<close>), and
  reading it back finds it there. Setters and getters are named after the properties.
\<close>

subsection \<open>The data\<close>

datatype var =
    V_dsoc | V_dkelvin | V_bkelvin | V_mcapacity | V_mcurrent | V_mpower | V_mvoltage
  | V_input_mcurrent | V_input_mpower | V_input_mvoltage
  | V_charge_mcurrent | V_charge_mpower | V_charge_mvoltage
  | V_max_capacity | V_exp_capacity | V_charge_cycles

datatype kind = Power | Inverter | Rectifier | Regulator | Battery

text \<open>The property names the plugins and the publisher use.\<close>

datatype attr =
    A_dsoc | A_soc | A_temperature | A_battery_temperature
  | A_temperature_celsius | A_temperature_fahrenheit
  | A_battery_temperature_celsius | A_battery_temperature_fahrenheit
  | A_mcapacity | A_capacity | A_mvoltage | A_voltage | A_input_mvoltage | A_input_voltage
  | A_charge_mvoltage | A_charge_voltage | A_mcurrent | A_current
  | A_input_mcurrent | A_input_current | A_charge_mcurrent | A_charge_current
  | A_mpower | A_power | A_input_mpower | A_input_power | A_charge_mpower | A_charge_power
  | A_power_switch | A_msg | A_status | A_charge_cycles | A_max_capacity | A_exp_capacity
  | A_afestatus | A_cell_count | A_state | A_health

record entities =
  kind :: kind
  defs :: "var \<rightharpoonup> defn"
  cells :: "(int \<times> defn) list"
  switch_val :: pyval
  msg_val :: pyval
  status_val :: pyval
  state_val :: pyval
  health_val :: pyval
  extra :: "attr \<rightharpoonup> pyval"
  cell_attr :: "(int \<times> pynum) option"

subsection \<open>Construction\<close>

fun power_defs :: "var \<Rightarrow> defn option" where
  "power_defs V_dsoc = Some (mk_defn 0 1 1000 100)"
| "power_defs V_dkelvin = Some (mk_defn 2731 1731 3731 20)"
| "power_defs V_bkelvin = Some (mk_defn 2731 1731 3731 20)"
| "power_defs V_mcapacity = Some (mk_defn 0 1 250000 20000)"
| "power_defs V_mcurrent = Some (mk_defn 0 0 30000 10000)"
| "power_defs V_mpower = Some (mk_defn 0 0 200000 100000)"
| "power_defs V_mvoltage = Some (mk_defn 0 0 48000 12000)"
| "power_defs V_input_mcurrent = Some (mk_defn 0 0 30000 10000)"
| "power_defs V_input_mpower = Some (mk_defn 0 0 200000 100000)"
| "power_defs V_input_mvoltage = Some (mk_defn 0 0 48000 12000)"
| "power_defs V_charge_mcurrent = Some (mk_defn 0 0 30000 10000)"
| "power_defs V_charge_mpower = Some (mk_defn 0 0 200000 100000)"
| "power_defs V_charge_mvoltage = Some (mk_defn 0 0 48000 12000)"
| "power_defs V_max_capacity = None"
| "power_defs V_exp_capacity = None"
| "power_defs V_charge_cycles = None"

definition power_device :: "kind \<Rightarrow> entities" where
  "power_device k =
     \<lparr>kind = k, defs = power_defs, cells = [], switch_val = PNum (PInt 0), msg_val = PNone,
      status_val = PNone, state_val = PNone, health_val = PNone, extra = Map.empty, cell_attr = None\<rparr>"

definition inverter_device :: entities where
  "inverter_device = (power_device Inverter)
     \<lparr>defs := power_defs(V_input_mvoltage \<mapsto> mk_defn 0 0 50000 50000,
                         V_mvoltage \<mapsto> mk_defn 0 0 250000 250000)\<rparr>"

definition rectifier_device :: entities where
  "rectifier_device = (power_device Rectifier)
     \<lparr>defs := power_defs(V_input_mvoltage \<mapsto> mk_defn 0 0 250000 250000,
                         V_mvoltage \<mapsto> mk_defn 0 0 50000 50000)\<rparr>"

definition regulator_device :: entities where
  "regulator_device = power_device Regulator"

definition battery_device :: entities where
  "battery_device = (power_device Battery)
     \<lparr>defs := power_defs(V_mcurrent \<mapsto> mk_defn 0 (- 500000) 500000 400000,
                         V_max_capacity \<mapsto> mk_defn 0 0 400 5,
                         V_exp_capacity \<mapsto> mk_defn 0 0 400 5,
                         V_mvoltage \<mapsto> mk_defn 0 10000 15000 12000,
                         V_charge_cycles \<mapsto> mk_defn 0 1 10000 1),
      cells := map (\<lambda>i. (i, mk_defn 0 2000 4000 500)) [1..16]\<rparr>"

text \<open>The class is chosen by the name of the configuration section.\<close>

definition entities_for :: "string \<Rightarrow> entities" where
  "entities_for logger_name =
     (if contains logger_name ''battery'' then battery_device
      else if contains logger_name ''regulator'' then regulator_device
      else if contains logger_name ''inverter'' then inverter_device
      else if contains logger_name ''rectifier'' then rectifier_device
      else power_device Power)"

subsection \<open>Limits from the configuration\<close>

fun var_name :: "var \<Rightarrow> string" where
  "var_name V_dsoc = ''dsoc''"
| "var_name V_dkelvin = ''dkelvin''"
| "var_name V_bkelvin = ''bkelvin''"
| "var_name V_mcapacity = ''mcapacity''"
| "var_name V_mcurrent = ''mcurrent''"
| "var_name V_mpower = ''mpower''"
| "var_name V_mvoltage = ''mvoltage''"
| "var_name V_input_mcurrent = ''input_mcurrent''"
| "var_name V_input_mpower = ''input_mpower''"
| "var_name V_input_mvoltage = ''input_mvoltage''"
| "var_name V_charge_mcurrent = ''charge_mcurrent''"
| "var_name V_charge_mpower = ''charge_mpower''"
| "var_name V_charge_mvoltage = ''charge_mvoltage''"
| "var_name V_max_capacity = ''max_capacity''"
| "var_name V_exp_capacity = ''exp_capacity''"
| "var_name V_charge_cycles = ''charge_cycles''"

text \<open>
  A configuration section as \<open>apply_limit_overrides\<close> reads it: \<open>None\<close> for an option that is
  not there, otherwise what \<open>getfloat\<close> returns, or \<open>None\<close> for its \<open>ValueError\<close>.
\<close>

type_synonym limit_section = "string \<rightharpoonup> bound option"

definition limit_option :: "limit_section \<Rightarrow> var \<Rightarrow> string \<Rightarrow> bound \<Rightarrow> bound" where
  "limit_option config x key old =
     (case config (var_name x @ ''_'' @ key) of
        None \<Rightarrow> old
      | Some None \<Rightarrow> old
      | Some (Some v) \<Rightarrow> v)"

definition override_defn :: "limit_section \<Rightarrow> var \<Rightarrow> defn \<Rightarrow> defn" where
  "override_defn config x d =
     d\<lparr>dmin := limit_option config x ''min'' (dmin d),
       dmax := limit_option config x ''max'' (dmax d),
       dmaxdiff := limit_option config x ''maxdiff'' (dmaxdiff d)\<rparr>"

definition apply_limit_overrides :: "limit_section option \<Rightarrow> entities \<Rightarrow> entities" where
  "apply_limit_overrides section e =
     (case section of
        None \<Rightarrow> e
      | Some config \<Rightarrow> e\<lparr>defs := (\<lambda>x. map_option (override_defn config x) (defs e x))\<rparr>)"

subsection \<open>validate\<close>

definition validate :: "var \<Rightarrow> pynum \<Rightarrow> (entities, bool option) pym" where
  "validate x v = (\<lambda>e.
     case defs e x of
       None \<Rightarrow> (Inl AttributeError, e)
     | Some d \<Rightarrow>
         (let (r, d') = validate_defn (to_float v) d in (Inr r, e\<lparr>defs := (defs e)(x \<mapsto> d')\<rparr>)))"

definition assign :: "var \<Rightarrow> pynum \<Rightarrow> (entities, unit) pym" where
  "assign x v = bind (validate x v) (\<lambda>_. ret ())"

definition value_of :: "var \<Rightarrow> entities \<Rightarrow> py_error + pynum" where
  "value_of x e = (case defs e x of None \<Rightarrow> Inl AttributeError | Some d \<Rightarrow> Inr (dval d))"

definition scaled :: "var \<Rightarrow> (pynum \<Rightarrow> pynum) \<Rightarrow> entities \<Rightarrow> py_error + pyval" where
  "scaled x f e = (case value_of x e of Inl err \<Rightarrow> Inl err | Inr v \<Rightarrow> Inr (PNum (f v)))"

text \<open>\<open>round(v / 1000, 1)\<close>, and \<open>round((t - 2731) * 0.1, 1)\<close> and the Fahrenheit one.\<close>

definition milli :: "pynum \<Rightarrow> pynum" where
  "milli v = round1 (num_quot v (PInt 1000))"

definition to_celsius :: "pynum \<Rightarrow> pynum" where
  "to_celsius t = round1 (num_mul (num_sub t (PInt 2731)) (flit (1/10)))"

definition to_fahrenheit :: "pynum \<Rightarrow> pynum" where
  "to_fahrenheit t = round1 (num_sub (num_mul t (flit (18/100))) (flit (45967/100)))"

definition from_celsius :: "pynum \<Rightarrow> pynum" where
  "from_celsius v = num_add (num_mul v (PInt 10)) (PInt 2731)"

definition from_fahrenheit :: "pynum \<Rightarrow> pynum" where
  "from_fahrenheit v =
     num_mul (num_mul (num_add v (flit (45967/100))) (num_quot (PInt 5) (PInt 9))) (PInt 10)"

definition times_1000 :: "pynum \<Rightarrow> pynum" where
  "times_1000 v = num_mul v (PInt 1000)"

subsection \<open>The setters of PowerDevice\<close>

definition set_dsoc :: "pynum \<Rightarrow> (entities, unit) pym" where
  "set_dsoc v = assign V_dsoc v"

definition set_soc :: "pynum \<Rightarrow> (entities, unit) pym" where
  "set_soc v = assign V_dsoc (num_mul v (PInt 10))"

definition set_temperature :: "pynum \<Rightarrow> (entities, unit) pym" where
  "set_temperature v = assign V_dkelvin v"

definition set_battery_temperature :: "pynum \<Rightarrow> (entities, unit) pym" where
  "set_battery_temperature v = assign V_bkelvin v"

definition set_temperature_celsius :: "pynum \<Rightarrow> (entities, unit) pym" where
  "set_temperature_celsius v = assign V_dkelvin (from_celsius v)"

definition set_temperature_fahrenheit :: "pynum \<Rightarrow> (entities, unit) pym" where
  "set_temperature_fahrenheit v = assign V_dkelvin (from_fahrenheit v)"

definition set_battery_temperature_celsius :: "pynum \<Rightarrow> (entities, unit) pym" where
  "set_battery_temperature_celsius v = assign V_bkelvin (from_celsius v)"

definition set_battery_temperature_fahrenheit :: "pynum \<Rightarrow> (entities, unit) pym" where
  "set_battery_temperature_fahrenheit v = assign V_bkelvin (from_fahrenheit v)"

definition set_mcapacity :: "pynum \<Rightarrow> (entities, unit) pym" where
  "set_mcapacity v = assign V_mcapacity v"

definition set_capacity :: "pynum \<Rightarrow> (entities, unit) pym" where
  "set_capacity v = set_mcapacity (times_1000 v)"

definition set_mvoltage :: "pynum \<Rightarrow> (entities, unit) pym" where
  "set_mvoltage v = assign V_mvoltage v"

definition set_voltage :: "pynum \<Rightarrow> (entities, unit) pym" where
  "set_voltage v = set_mvoltage (times_1000 v)"

definition set_input_mvoltage :: "pynum \<Rightarrow> (entities, unit) pym" where
  "set_input_mvoltage v = assign V_input_mvoltage v"

definition set_input_voltage :: "pynum \<Rightarrow> (entities, unit) pym" where
  "set_input_voltage v = set_input_mvoltage (times_1000 v)"

definition set_charge_mvoltage :: "pynum \<Rightarrow> (entities, unit) pym" where
  "set_charge_mvoltage v = assign V_charge_mvoltage v"

definition set_charge_voltage :: "pynum \<Rightarrow> (entities, unit) pym" where
  "set_charge_voltage v = set_charge_mvoltage (times_1000 v)"

definition set_power_mcurrent :: "pynum \<Rightarrow> (entities, unit) pym" where
  "set_power_mcurrent v = assign V_mcurrent v"

definition set_input_mcurrent :: "pynum \<Rightarrow> (entities, unit) pym" where
  "set_input_mcurrent v = assign V_input_mcurrent v"

definition set_input_current :: "pynum \<Rightarrow> (entities, unit) pym" where
  "set_input_current v = set_input_mcurrent (times_1000 v)"

definition set_charge_mcurrent :: "pynum \<Rightarrow> (entities, unit) pym" where
  "set_charge_mcurrent v = assign V_charge_mcurrent v"

definition set_charge_current :: "pynum \<Rightarrow> (entities, unit) pym" where
  "set_charge_current v = set_charge_mcurrent (times_1000 v)"

definition set_mpower :: "pynum \<Rightarrow> (entities, unit) pym" where
  "set_mpower v = assign V_mpower v"

definition set_power :: "pynum \<Rightarrow> (entities, unit) pym" where
  "set_power v = set_mpower (times_1000 v)"

definition set_input_mpower :: "pynum \<Rightarrow> (entities, unit) pym" where
  "set_input_mpower v = assign V_input_mpower v"

definition set_input_power :: "pynum \<Rightarrow> (entities, unit) pym" where
  "set_input_power v = set_input_mpower (times_1000 v)"

definition set_charge_mpower :: "pynum \<Rightarrow> (entities, unit) pym" where
  "set_charge_mpower v = assign V_charge_mpower v"

definition set_charge_power :: "pynum \<Rightarrow> (entities, unit) pym" where
  "set_charge_power v = set_charge_mpower (times_1000 v)"

text \<open>
  \<open>power_switch\<close>: \<open>on\<close> and \<open>off\<close> in any case become 1 and 0. The second component is what
  the setter hands to \<open>parent._enqueue\<close> when the value changed.
\<close>

definition lower_char :: "char \<Rightarrow> char" where
 "lower_char c = (let n = (of_char c :: nat) in if 65 \<le> n \<and> n \<le> 90 then char_of (n + 32) else c)"

definition switch_value :: "pyval \<Rightarrow> pyval" where
  "switch_value v =
     (case v of
        PStr s \<Rightarrow>
          if map lower_char s = ''on'' then PNum (PInt 1)
          else if map lower_char s = ''off'' then PNum (PInt 0)
          else v
      | _ \<Rightarrow> v)"

definition set_power_switch :: "pyval \<Rightarrow> entities \<Rightarrow> pyval option \<times> entities" where
  "set_power_switch v e =
     (let w = switch_value v
      in if py_eq w (switch_val e) then (None, e) else (Some w, e\<lparr>switch_val := w\<rparr>))"

subsection \<open>The overriding setters of BatteryDevice\<close>

text \<open>
  A battery derives its state from the current: \<open>mcurrent\<close> compares milliamps with 20,
  \<open>current\<close> ampere with 0.02, after the inherited setter ran. The reading itself is compared,
  stored or not; only a zero reading next to a large stored current is passed over.
\<close>

definition battery_state :: "pynum \<Rightarrow> pynum \<Rightarrow> string" where
  "battery_state threshold v =
     (if num_lt threshold v then ''charging''
      else if num_lt v (num_sub (PInt 0) threshold) then ''discharging''
      else ''standby'')"

definition spurious_zero :: "pynum \<Rightarrow> entities \<Rightarrow> bool" where
  "spurious_zero v e \<longleftrightarrow>
     num_val v = 0 \<and>
     (case value_of V_mcurrent e of
        Inl _ \<Rightarrow> False
      | Inr m \<Rightarrow> num_val m > 500 \<or> num_val m < - 500)"

definition derive_state :: "pynum \<Rightarrow> pynum \<Rightarrow> (entities, unit) pym" where
  "derive_state threshold v =
     modify (\<lambda>e. if spurious_zero v e then e else e\<lparr>state_val := PStr (battery_state threshold v)\<rparr>)"

definition battery_set_mcurrent :: "pynum \<Rightarrow> (entities, unit) pym" where
  "battery_set_mcurrent v = block [set_power_mcurrent v, derive_state (PInt 20) v]"

definition set_mcurrent :: "pynum \<Rightarrow> (entities, unit) pym" where
  "set_mcurrent v = (\<lambda>e. if kind e = Battery then battery_set_mcurrent v e else set_power_mcurrent v e)"

text \<open>\<open>PowerDevice.current\<close> assigns \<open>self.mcurrent\<close>, which a battery overrides.\<close>

definition set_power_current :: "pynum \<Rightarrow> (entities, unit) pym" where
  "set_power_current v = set_mcurrent (times_1000 v)"

definition battery_set_current :: "pynum \<Rightarrow> (entities, unit) pym" where
  "battery_set_current v = block [set_power_current v, derive_state (flit (2/100)) v]"

definition set_current :: "pynum \<Rightarrow> (entities, unit) pym" where
  "set_current v = (\<lambda>e. if kind e = Battery then battery_set_current v e else set_power_current v e)"

text \<open>An assignment to a name the class does not define creates an instance attribute.\<close>

definition set_extra :: "attr \<Rightarrow> pyval \<Rightarrow> (entities, unit) pym" where
  "set_extra a v = modify (\<lambda>e. e\<lparr>extra := (extra e)(a \<mapsto> v)\<rparr>)"

definition set_charge_cycles :: "pynum \<Rightarrow> (entities, unit) pym" where
  "set_charge_cycles v = (\<lambda>e.
     if kind e = Battery then
       block
         [assign V_charge_cycles v,
          whenp (0 < num_val v)
            (modify (\<lambda>e. e\<lparr>health_val := PStr (if 2000 < num_val v then ''good'' else ''perfect'')\<rparr>))] e
     else set_extra A_charge_cycles (PNum v) e)"

definition set_max_capacity :: "pynum \<Rightarrow> (entities, unit) pym" where
  "set_max_capacity v = (\<lambda>e.
     if kind e = Battery then assign V_max_capacity v e else set_extra A_max_capacity (PNum v) e)"

definition set_exp_capacity :: "pynum \<Rightarrow> (entities, unit) pym" where
  "set_exp_capacity v = (\<lambda>e.
     if kind e = Battery then assign V_exp_capacity v e else set_extra A_exp_capacity (PNum v) e)"

text \<open>Cell voltages have their own checks, on the numbers as they are.\<close>

definition cell_reading :: "pynum \<Rightarrow> defn \<Rightarrow> defn" where
  "cell_reading new d =
     (let cur = num_val (dval d); v = num_val new;
          diff = num_val (num_abs (num_sub new (dval d))) in
      if cur = 0 \<and> v > 0 \<and> \<not> at_most v (dmin d) \<and> under v (dmax d) then d\<lparr>dval := new\<rparr>
      else if cur = 0 \<and> v = 0 then d
      else if over v (dmax d) then d
      else if under v (dmin d) then d
      else if over diff (dmaxdiff d) then d
      else if v > 0 \<and> diff > 10 then d\<lparr>dval := new\<rparr>
      else d)"

fun update_cell :: "int \<Rightarrow> (defn \<Rightarrow> defn) \<Rightarrow> (int \<times> defn) list \<Rightarrow> (int \<times> defn) list" where
  "update_cell i f [] = []"
| "update_cell i f ((j, d) # cs) = (if i = j then (j, f d) # cs else (j, d) # update_cell i f cs)"

definition with_cell :: "int \<Rightarrow> (defn \<Rightarrow> defn) \<Rightarrow> (entities, unit) pym" where
  "with_cell i f = (\<lambda>e.
     if i \<in> fst ` set (cells e) then (Inr (), e\<lparr>cells := update_cell i f (cells e)\<rparr>)
     else (Inl KeyError, e))"

definition set_cell_mvoltage :: "int \<Rightarrow> pynum \<Rightarrow> (entities, unit) pym" where
  "set_cell_mvoltage i new = (\<lambda>e.
     if kind e = Battery then with_cell i (cell_reading new) e
     else modify (\<lambda>e. e\<lparr>cell_attr := Some (i, new)\<rparr>) e)"

definition set_cell_voltage :: "int \<Rightarrow> pynum \<Rightarrow> (entities, unit) pym" where
  "set_cell_voltage i v =
     with_cell i (\<lambda>d. let new = times_1000 v in
       if num_val new > 0 \<and> num_val (num_abs (num_sub new (dval d))) > 10 then d\<lparr>dval := new\<rparr> else d)"

subsection \<open>Assignment and access by name\<close>

text \<open>
  \<open>entities.a = v\<close> for the attributes the plugins assign numbers to. \<open>power_switch\<close> is set by
  its own operation, which also publishes.
\<close>

fun set_attr :: "attr \<Rightarrow> pynum \<Rightarrow> (entities, unit) pym" where
  "set_attr A_dsoc v = set_dsoc v"
| "set_attr A_soc v = set_soc v"
| "set_attr A_temperature v = set_temperature v"
| "set_attr A_battery_temperature v = set_battery_temperature v"
| "set_attr A_temperature_celsius v = set_temperature_celsius v"
| "set_attr A_temperature_fahrenheit v = set_temperature_fahrenheit v"
| "set_attr A_battery_temperature_celsius v = set_battery_temperature_celsius v"
| "set_attr A_battery_temperature_fahrenheit v = set_battery_temperature_fahrenheit v"
| "set_attr A_mcapacity v = set_mcapacity v"
| "set_attr A_capacity v = set_capacity v"
| "set_attr A_mvoltage v = set_mvoltage v"
| "set_attr A_voltage v = set_voltage v"
| "set_attr A_input_mvoltage v = set_input_mvoltage v"
| "set_attr A_input_voltage v = set_input_voltage v"
| "set_attr A_charge_mvoltage v = set_charge_mvoltage v"
| "set_attr A_charge_voltage v = set_charge_voltage v"
| "set_attr A_mcurrent v = set_mcurrent v"
| "set_attr A_current v = set_current v"
| "set_attr A_input_mcurrent v = set_input_mcurrent v"
| "set_attr A_input_current v = set_input_current v"
| "set_attr A_charge_mcurrent v = set_charge_mcurrent v"
| "set_attr A_charge_current v = set_charge_current v"
| "set_attr A_mpower v = set_mpower v"
| "set_attr A_power v = set_power v"
| "set_attr A_input_mpower v = set_input_mpower v"
| "set_attr A_input_power v = set_input_power v"
| "set_attr A_charge_mpower v = set_charge_mpower v"
| "set_attr A_charge_power v = set_charge_power v"
| "set_attr A_power_switch v = modify (\<lambda>e. snd (set_power_switch (PNum v) e))"
| "set_attr A_msg v = modify (\<lambda>e. e\<lparr>msg_val := PNum v\<rparr>)"
| "set_attr A_status v = modify (\<lambda>e. e\<lparr>status_val := PNum v\<rparr>)"
| "set_attr A_charge_cycles v = set_charge_cycles v"
| "set_attr A_max_capacity v = set_max_capacity v"
| "set_attr A_exp_capacity v = set_exp_capacity v"
| "set_attr A_afestatus v = set_extra A_afestatus (PNum v)"
| "set_attr A_cell_count v = set_extra A_cell_count (PNum v)"
| "set_attr A_state v = (\<lambda>e. if kind e = Battery then (Inl AttributeError, e) else set_extra A_state (PNum v) e)"
| "set_attr A_health v = (\<lambda>e. if kind e = Battery then (Inl AttributeError, e) else set_extra A_health (PNum v) e)"

definition battery_attr :: "attr \<Rightarrow> (entities \<Rightarrow> py_error + pyval) \<Rightarrow> entities \<Rightarrow> py_error + pyval" where
  "battery_attr a get e =
     (if kind e = Battery then get e
      else case extra e a of None \<Rightarrow> Inl AttributeError | Some v \<Rightarrow> Inr v)"

fun get_attr :: "attr \<Rightarrow> entities \<Rightarrow> py_error + pyval" where
  "get_attr A_dsoc e = scaled V_dsoc id e"
| "get_attr A_soc e = scaled V_dsoc (\<lambda>v. num_quot v (PInt 10)) e"
| "get_attr A_temperature e = scaled V_dkelvin id e"
| "get_attr A_battery_temperature e = scaled V_bkelvin id e"
| "get_attr A_temperature_celsius e = scaled V_dkelvin to_celsius e"
| "get_attr A_temperature_fahrenheit e = scaled V_dkelvin to_fahrenheit e"
| "get_attr A_battery_temperature_celsius e = scaled V_bkelvin to_celsius e"
| "get_attr A_battery_temperature_fahrenheit e = scaled V_bkelvin to_fahrenheit e"
| "get_attr A_mcapacity e = scaled V_mcapacity id e"
| "get_attr A_capacity e = scaled V_mcapacity milli e"
| "get_attr A_mvoltage e = scaled V_mvoltage id e"
| "get_attr A_voltage e = scaled V_mvoltage milli e"
| "get_attr A_input_mvoltage e = scaled V_input_mvoltage id e"
| "get_attr A_input_voltage e = scaled V_input_mvoltage milli e"
| "get_attr A_charge_mvoltage e = scaled V_charge_mvoltage id e"
| "get_attr A_charge_voltage e = scaled V_charge_mvoltage milli e"
| "get_attr A_mcurrent e = scaled V_mcurrent id e"
| "get_attr A_current e = scaled V_mcurrent milli e"
| "get_attr A_input_mcurrent e = scaled V_input_mcurrent id e"
| "get_attr A_input_current e = scaled V_input_mcurrent milli e"
| "get_attr A_charge_mcurrent e = scaled V_charge_mcurrent id e"
| "get_attr A_charge_current e = scaled V_charge_mcurrent milli e"
| "get_attr A_mpower e = scaled V_mpower id e"
| "get_attr A_power e = scaled V_mpower milli e"
| "get_attr A_input_mpower e = scaled V_input_mpower id e"
| "get_attr A_input_power e = scaled V_input_mpower milli e"
| "get_attr A_charge_mpower e = scaled V_charge_mpower id e"
| "get_attr A_charge_power e = scaled V_charge_mpower milli e"
| "get_attr A_power_switch e = Inr (switch_val e)"
| "get_attr A_msg e = Inr (msg_val e)"
| "get_attr A_status e = Inr (status_val e)"
| "get_attr A_charge_cycles e = battery_attr A_charge_cycles (scaled V_charge_cycles id) e"
| "get_attr A_max_capacity e = battery_attr A_max_capacity (scaled V_max_capacity id) e"
| "get_attr A_exp_capacity e = battery_attr A_exp_capacity (scaled V_exp_capacity id) e"
| "get_attr A_afestatus e = (case extra e A_afestatus of None \<Rightarrow> Inl AttributeError | Some v \<Rightarrow> Inr v)"
| "get_attr A_cell_count e = (case extra e A_cell_count of None \<Rightarrow> Inl AttributeError | Some v \<Rightarrow> Inr v)"
| "get_attr A_state e = battery_attr A_state (\<lambda>e. Inr (state_val e)) e"
| "get_attr A_health e = battery_attr A_health (\<lambda>e. Inr (health_val e)) e"

text \<open>
  \<open>cell_mvoltage\<close> read back as the publisher reads it: a battery's dictionary in insertion
  order. Another device has no such property, or holds the pair a plugin assigned, and
  subscripting that with its own first element fails.
\<close>

definition cell_mvoltages :: "entities \<Rightarrow> py_error + (int \<times> pynum) list" where
  "cell_mvoltages e =
     (if kind e = Battery then Inr (map (\<lambda>(i, d). (i, dval d)) (cells e))
      else case cell_attr e of
             None \<Rightarrow> Inl AttributeError
           | Some (i, _) \<Rightarrow> if - 2 \<le> i \<and> i \<le> 1 then Inl TypeError else Inl IndexError)"

definition cell_voltages :: "entities \<Rightarrow> py_error + (int \<times> pynum) list" where
  "cell_voltages e =
     (if kind e = Battery then Inr (map (\<lambda>(i, d). (i, num_mul (dval d) (flit (1/1000)))) (cells e))
      else Inl AttributeError)"

end
