(* ===== verification/EntityProps.thy ===== *)
theory EntityProps
  imports Entities
begin

section \<open>What the stored values satisfy\<close>

text \<open>
  The invariant of the entities and that every assignment keeps it; which definition an
  assignment can touch; what the getters can return; how a battery's state follows its
  current.
\<close>

subsection \<open>The invariant\<close>

definition initial_val :: "var \<Rightarrow> rat" where
  "initial_val x = (if x = V_dkelvin \<or> x = V_bkelvin then 2731 else 0)"

definition vars_of :: "kind \<Rightarrow> var set" where
  "vars_of k = (if k = Battery then UNIV else UNIV - {V_max_capacity, V_exp_capacity, V_charge_cycles})"

definition cell_ok :: "defn \<Rightarrow> bool" where
  "cell_ok d \<longleftrightarrow> num_val (dval d) = 0 \<or> acceptable d (num_val (dval d))"

definition wf_cells :: "kind \<Rightarrow> (int \<times> defn) list \<Rightarrow> bool" where
  "wf_cells k cs \<longleftrightarrow>
     map fst cs = (if k = Battery then [1..16] else []) \<and> list_all (\<lambda>(i, d). cell_ok d) cs"

definition wf_entities :: "entities \<Rightarrow> bool" where
  "wf_entities e \<longleftrightarrow>
     dom (defs e) = vars_of (kind e) \<and>
     (\<forall>x d. defs e x = Some d \<longrightarrow> wf_defn (initial_val x) d) \<and>
     wf_cells (kind e) (cells e)"

lemma wf_entities_update:
  assumes "wf_entities e" and "defs e x = Some d" and "wf_defn (initial_val x) d'"
  shows "wf_entities (e\<lparr>defs := (defs e)(x \<mapsto> d')\<rparr>)"
  using assms by (auto simp: wf_entities_def insert_absorb dom_def)

lemma wf_entities_frame [simp]:
  "wf_entities (e\<lparr>switch_val := a\<rparr>) = wf_entities e"
  "wf_entities (e\<lparr>msg_val := a\<rparr>) = wf_entities e"
  "wf_entities (e\<lparr>status_val := a\<rparr>) = wf_entities e"
  "wf_entities (e\<lparr>state_val := a\<rparr>) = wf_entities e"
  "wf_entities (e\<lparr>health_val := a\<rparr>) = wf_entities e"
  "wf_entities (e\<lparr>extra := x\<rparr>) = wf_entities e"
  "wf_entities (e\<lparr>cell_attr := c\<rparr>) = wf_entities e"
  by (simp_all add: wf_entities_def)

lemma wf_entities_cells:
  "wf_entities e \<Longrightarrow> wf_cells (kind e) cs \<Longrightarrow> wf_entities (e\<lparr>cells := cs\<rparr>)"
  by (simp add: wf_entities_def)

subsection \<open>Every assignment keeps it\<close>

lemma wf_validate [pres]: "preserves wf_entities (validate x v)"
proof (rule preservesI)
  fix e assume e: "wf_entities e"
  show "wf_entities (snd (validate x v e))"
  proof (cases "defs e x")
    case None
    with e show ?thesis by (simp add: validate_def)
  next
    case (Some d)
    with e have "wf_defn (initial_val x) d" by (simp add: wf_entities_def)
    then have "wf_defn (initial_val x) (snd (validate_defn (to_float v) d))"
      using wf_reading [of "initial_val x" d "to_float v"] by (simp add: reading_def)
    with e Some show ?thesis
      by (auto simp: validate_def split: prod.splits intro: wf_entities_update)
  qed
qed

lemma wf_assign [pres]: "preserves wf_entities (assign x v)"
  unfolding assign_def by (intro pres)

lemmas setter_defs =
  set_dsoc_def set_soc_def set_temperature_def set_battery_temperature_def
  set_temperature_celsius_def set_temperature_fahrenheit_def
  set_battery_temperature_celsius_def set_battery_temperature_fahrenheit_def
  set_mcapacity_def set_capacity_def set_mvoltage_def set_voltage_def
  set_input_mvoltage_def set_input_voltage_def set_charge_mvoltage_def set_charge_voltage_def
  set_power_mcurrent_def set_input_mcurrent_def set_input_current_def
  set_charge_mcurrent_def set_charge_current_def set_mpower_def set_power_def
  set_input_mpower_def set_input_power_def set_charge_mpower_def set_charge_power_def

lemma preserves_dispatch:
  "preserves P m \<Longrightarrow> preserves P n \<Longrightarrow> preserves P (\<lambda>e. if b e then m e else n e)"
  by (simp add: preserves_def)

lemma wf_set_extra [pres]: "preserves wf_entities (set_extra a v)"
  unfolding set_extra_def by (intro pres) simp

lemma wf_derive_state [pres]: "preserves wf_entities (derive_state t v)"
  unfolding derive_state_def by (intro pres) simp

lemma wf_set_mcurrent [pres]: "preserves wf_entities (set_mcurrent v)"
  unfolding set_mcurrent_def battery_set_mcurrent_def set_power_mcurrent_def
  by (intro preserves_dispatch pres) (auto intro: pres)

lemma wf_set_current [pres]: "preserves wf_entities (set_current v)"
  unfolding set_current_def battery_set_current_def set_power_current_def
  by (intro preserves_dispatch pres) (auto intro: pres)

lemma wf_set_charge_cycles [pres]: "preserves wf_entities (set_charge_cycles v)"
proof -
  have "preserves wf_entities (modify (\<lambda>e. e\<lparr>health_val := x\<rparr>))" for x
    by (intro pres) simp
  then show ?thesis
    unfolding set_charge_cycles_def
    by (intro preserves_dispatch pres) (auto intro!: wf_assign preserves_whenp)
qed

lemma wf_capacities [pres]:
  "preserves wf_entities (set_max_capacity v)" "preserves wf_entities (set_exp_capacity v)"
  unfolding set_max_capacity_def set_exp_capacity_def by (intro preserves_dispatch pres)+

lemma wf_set_power_switch: "wf_entities e \<Longrightarrow> wf_entities (snd (set_power_switch v e))"
  by (simp add: set_power_switch_def Let_def)

lemma cell_ok_reading: "cell_ok d \<Longrightarrow> cell_ok (cell_reading v d)"
  by (auto simp: cell_ok_def cell_reading_def acceptable_def Let_def) (cases "dmin d"; cases "dmax d"; simp)+

lemma fst_update_cell [simp]: "map fst (update_cell i f cs) = map fst cs"
  by (induction i f cs rule: update_cell.induct) auto

lemma all_update_cell:
  "list_all (\<lambda>(j, d). P d) cs \<Longrightarrow> (\<And>d. P d \<Longrightarrow> P (f d)) \<Longrightarrow> list_all (\<lambda>(j, d). P d) (update_cell i f cs)"
  by (induction i f cs rule: update_cell.induct) auto

lemma wf_with_cell: "(\<And>d. cell_ok d \<Longrightarrow> cell_ok (f d)) \<Longrightarrow> preserves wf_entities (with_cell i f)"
  by (rule preservesI)
    (auto simp: with_cell_def wf_cells_def wf_entities_def intro: all_update_cell)

lemma wf_set_cell_mvoltage [pres]: "preserves wf_entities (set_cell_mvoltage i v)"
  unfolding set_cell_mvoltage_def
  by (intro preserves_dispatch wf_with_cell cell_ok_reading pres) simp_all

lemma wf_set_attr [pres]: "preserves wf_entities (set_attr a v)"
proof -
  have fail: "preserves wf_entities (\<lambda>e. if kind e = Battery then (Inl AttributeError, e) else set_extra b (PNum v) e)" for b
    using wf_set_extra [of b "PNum v"] by (simp add: preserves_def)
  have switch: "preserves wf_entities (modify (\<lambda>e. snd (set_power_switch w e)))" for w
    by (intro pres wf_set_power_switch)
  have fields: "preserves wf_entities (modify (\<lambda>e. e\<lparr>msg_val := w\<rparr>))"
    "preserves wf_entities (modify (\<lambda>e. e\<lparr>status_val := w\<rparr>))" for w
    by (intro preserves_modify; simp)+
  show ?thesis
    by (cases a) (simp_all only: set_attr.simps setter_defs fail switch fields wf_assign wf_set_mcurrent
        wf_set_current wf_set_charge_cycles wf_capacities wf_set_extra)
qed

lemma map_upto_comp: "map fst (map (\<lambda>i. (i, f i)) xs) = xs"
  by (induction xs) auto

lemma wf_mk_defn: "num_val (PInt v) = v0 \<Longrightarrow> wf_defn v0 (mk_defn v lo hi diff)"
  by (simp add: wf_defn_def mk_defn_def)

lemma wf_power_defs: "power_defs x = Some d \<Longrightarrow> wf_defn (initial_val x) d"
  by (cases x) (auto simp: initial_val_def intro: wf_mk_defn)

lemma dom_power_defs: "dom power_defs = UNIV - {V_max_capacity, V_exp_capacity, V_charge_cycles}"
proof -
  have "x \<in> dom power_defs \<longleftrightarrow> x \<notin> {V_max_capacity, V_exp_capacity, V_charge_cycles}" for x
    by (cases x) auto
  then show ?thesis by auto
qed

lemma wf_battery_cells: "wf_cells Battery (map (\<lambda>i. (i, mk_defn 0 2000 4000 500)) [1..16])"
  by (simp add: wf_cells_def comp_def list_all_iff cell_ok_def mk_defn_def)

lemma wf_entitiesI:
  assumes "dom (defs e) = vars_of (kind e)" and "\<And>x d. defs e x = Some d \<Longrightarrow> wf_defn (initial_val x) d"
    and "wf_cells (kind e) (cells e)"
  shows "wf_entities e"
  using assms by (simp add: wf_entities_def)

lemma wf_power_device: "k \<noteq> Battery \<Longrightarrow> wf_entities (power_device k)"
  by (rule wf_entitiesI)
    (simp_all add: power_device_def vars_of_def dom_power_defs wf_power_defs wf_cells_def)

lemma wf_power_update:
  "num_val (PInt v) = initial_val x \<Longrightarrow> wf_defn (initial_val x) (mk_defn v lo hi diff)"
  by (rule wf_mk_defn)

lemma wf_battery_device: "wf_entities battery_device"
proof (rule wf_entitiesI)
  show "dom (defs battery_device) = vars_of (kind battery_device)"
    by (auto simp: battery_device_def power_device_def vars_of_def dom_power_defs)
  show "wf_cells (kind battery_device) (cells battery_device)"
    using wf_battery_cells by (simp add: battery_device_def power_device_def)
  fix x d assume "defs battery_device x = Some d"
  then show "wf_defn (initial_val x) d"
    by (auto simp: battery_device_def power_device_def initial_val_def split: if_splits
        intro: wf_mk_defn wf_power_defs [unfolded initial_val_def, simplified] dest: wf_power_defs)
qed

lemma wf_transformers: "wf_entities inverter_device" "wf_entities rectifier_device"
proof -
  have "dom (defs inverter_device) = vars_of Inverter" "dom (defs rectifier_device) = vars_of Rectifier"
    by (auto simp: inverter_device_def rectifier_device_def power_device_def vars_of_def dom_power_defs)
  then show "wf_entities inverter_device" "wf_entities rectifier_device"
    by (intro wf_entitiesI; auto simp: inverter_device_def rectifier_device_def power_device_def
        wf_cells_def initial_val_def intro: wf_mk_defn dest: wf_power_defs split: if_splits)+
qed

lemma wf_entities_for: "wf_entities (entities_for name)"
  by (simp add: entities_for_def wf_battery_device wf_transformers wf_power_device regulator_device_def)

subsection \<open>What an assignment touches, and when it raises\<close>

text \<open>The definition behind an attribute, where there is one.\<close>

fun target :: "attr \<Rightarrow> var option" where
  "target A_dsoc = Some V_dsoc"
| "target A_soc = Some V_dsoc"
| "target A_temperature = Some V_dkelvin"
| "target A_temperature_celsius = Some V_dkelvin"
| "target A_temperature_fahrenheit = Some V_dkelvin"
| "target A_battery_temperature = Some V_bkelvin"
| "target A_battery_temperature_celsius = Some V_bkelvin"
| "target A_battery_temperature_fahrenheit = Some V_bkelvin"
| "target A_mcapacity = Some V_mcapacity"
| "target A_capacity = Some V_mcapacity"
| "target A_mvoltage = Some V_mvoltage"
| "target A_voltage = Some V_mvoltage"
| "target A_input_mvoltage = Some V_input_mvoltage"
| "target A_input_voltage = Some V_input_mvoltage"
| "target A_charge_mvoltage = Some V_charge_mvoltage"
| "target A_charge_voltage = Some V_charge_mvoltage"
| "target A_mcurrent = Some V_mcurrent"
| "target A_current = Some V_mcurrent"
| "target A_input_mcurrent = Some V_input_mcurrent"
| "target A_input_current = Some V_input_mcurrent"
| "target A_charge_mcurrent = Some V_charge_mcurrent"
| "target A_charge_current = Some V_charge_mcurrent"
| "target A_mpower = Some V_mpower"
| "target A_power = Some V_mpower"
| "target A_input_mpower = Some V_input_mpower"
| "target A_input_power = Some V_input_mpower"
| "target A_charge_mpower = Some V_charge_mpower"
| "target A_charge_power = Some V_charge_mpower"
| "target A_charge_cycles = Some V_charge_cycles"
| "target A_max_capacity = Some V_max_capacity"
| "target A_exp_capacity = Some V_exp_capacity"
| "target _ = None"

text \<open>The bounds never change, and only the target's value does.\<close>

definition limits :: "defn \<Rightarrow> bound \<times> bound \<times> bound" where
  "limits d = (dmin d, dmax d, dmaxdiff d)"

definition evolves :: "var option \<Rightarrow> entities \<Rightarrow> entities \<Rightarrow> bool" where
  "evolves t e e' \<longleftrightarrow> kind e' = kind e \<and>
     (\<forall>x. rel_option (\<lambda>d d'. limits d' = limits d \<and> (t \<noteq> Some x \<longrightarrow> d' = d)) (defs e x) (defs e' x))"

lemma evolves_refl [simp]: "evolves t e e"
  by (simp add: evolves_def option.rel_refl)

lemma evolves_frame [simp]:
  "evolves t e (f\<lparr>switch_val := a\<rparr>) = evolves t e f"
  "evolves t e (f\<lparr>msg_val := a\<rparr>) = evolves t e f"
  "evolves t e (f\<lparr>status_val := a\<rparr>) = evolves t e f"
  "evolves t e (f\<lparr>state_val := a\<rparr>) = evolves t e f"
  "evolves t e (f\<lparr>health_val := a\<rparr>) = evolves t e f"
  "evolves t e (f\<lparr>extra := x\<rparr>) = evolves t e f"
  "evolves t e (f\<lparr>cells := cs\<rparr>) = evolves t e f"
  "evolves t e (f\<lparr>cell_attr := c\<rparr>) = evolves t e f"
  by (simp_all add: evolves_def)

lemma limits_reading [simp]: "limits (reading d v) = limits d"
  by (simp add: limits_def)

lemma run_assign:
  "assign x v e =
     (case defs e x of
        None \<Rightarrow> (Inl AttributeError, e)
      | Some d \<Rightarrow> (Inr (), e\<lparr>defs := (defs e)(x \<mapsto> reading d (to_float v))\<rparr>))"
  by (auto simp: assign_def validate_def pym_simps reading_def split: option.splits prod.splits)

lemma evolves_update:
  assumes e: "evolves (Some x) e s" and s: "defs s x = Some d" and l: "limits d' = limits d"
  shows "evolves (Some x) e (s\<lparr>defs := (defs s)(x \<mapsto> d')\<rparr>)"
proof -
  have other: "rel_option (\<lambda>d d'. limits d' = limits d \<and> (Some x \<noteq> Some y \<longrightarrow> d' = d)) (defs e y) (defs s y)" for y
    using e unfolding evolves_def by blast
  from other [of x] s obtain d0 where d0: "defs e x = Some d0" and "limits d = limits d0"
    by (auto simp: option_rel_Some2)
  have "rel_option (\<lambda>d d'. limits d' = limits d \<and> (Some x \<noteq> Some y \<longrightarrow> d' = d)) (defs e y)
      (if y = x then Some d' else defs s y)" for y
    using other [of y] d0 l \<open>limits d = limits d0\<close> by (cases "y = x") simp_all
  moreover have "kind s = kind e" using e unfolding evolves_def by blast
  ultimately show ?thesis by (simp add: evolves_def)
qed

lemma evolves_assign: "preserves (evolves (Some x) e) (assign x v)"
proof (rule preservesI)
  fix s assume s: "evolves (Some x) e s"
  show "evolves (Some x) e (snd (assign x v s))"
    using evolves_update [OF s] s by (cases "defs s x") (simp_all add: run_assign)
qed

lemma evolves_modify:
  "(\<And>s. evolves t e s \<Longrightarrow> evolves t e (f s)) \<Longrightarrow> preserves (evolves t e) (modify f)"
  by (rule preserves_modify)

lemma evolves_set_extra: "preserves (evolves t e) (set_extra a v)"
  unfolding set_extra_def by (intro evolves_modify) simp

lemma evolves_derive_state: "preserves (evolves t e) (derive_state th v)"
  unfolding derive_state_def by (intro evolves_modify) simp

lemma evolves_set_mcurrent: "preserves (evolves (Some V_mcurrent) e) (set_mcurrent v)"
  unfolding set_mcurrent_def battery_set_mcurrent_def set_power_mcurrent_def
  by (intro preserves_dispatch pres evolves_assign) (auto intro: evolves_assign evolves_derive_state)

lemma evolves_set_current: "preserves (evolves (Some V_mcurrent) e) (set_current v)"
  unfolding set_current_def battery_set_current_def set_power_current_def
  by (intro preserves_dispatch pres evolves_set_mcurrent)
    (auto intro: evolves_set_mcurrent evolves_derive_state)

lemma evolves_set_charge_cycles: "preserves (evolves (Some V_charge_cycles) e) (set_charge_cycles v)"
proof -
  have "preserves (evolves (Some V_charge_cycles) e) (modify (\<lambda>e. e\<lparr>health_val := x\<rparr>))" for x
    by (intro evolves_modify) simp
  then show ?thesis
    unfolding set_charge_cycles_def
    by (intro preserves_dispatch pres evolves_set_extra) (auto intro!: evolves_assign preserves_whenp)
qed

lemma evolves_capacities:
  "preserves (evolves (Some V_max_capacity) e) (set_max_capacity v)"
  "preserves (evolves (Some V_exp_capacity) e) (set_exp_capacity v)"
  unfolding set_max_capacity_def set_exp_capacity_def
  by (intro preserves_dispatch evolves_assign evolves_set_extra)+

lemma evolves_set_attr: "preserves (evolves (target a) e) (set_attr a v)"
proof -
  have fail: "preserves (evolves t e) (\<lambda>s. if kind s = Battery then (Inl AttributeError, s) else set_extra b w s)" for t b w
    using evolves_set_extra [of t e b w] by (simp add: preserves_def)
  have switch: "preserves (evolves t e) (modify (\<lambda>e. snd (set_power_switch w e)))" for t w
    by (intro evolves_modify) (simp add: set_power_switch_def Let_def)
  have fields: "preserves (evolves t e) (modify (\<lambda>e. e\<lparr>msg_val := w\<rparr>))"
    "preserves (evolves t e) (modify (\<lambda>e. e\<lparr>status_val := w\<rparr>))" for t w
    by (intro evolves_modify; simp)+
  show ?thesis
    by (cases a) (simp_all only: set_attr.simps target.simps setter_defs fail switch fields evolves_assign
        evolves_set_mcurrent evolves_set_current evolves_set_charge_cycles evolves_capacities evolves_set_extra)
qed

text \<open>
  A run of assignments, as the parsing of one notification after the other makes them: one
  that raises leaves what it stored before.
\<close>

definition assignments :: "(attr \<times> pynum) list \<Rightarrow> entities \<Rightarrow> entities" where
  "assignments avs e = foldl (\<lambda>e (a, v). snd (set_attr a v e)) e avs"

lemma assignments_simps [simp]:
  "assignments [] e = e"
  "assignments ((a, v) # avs) e = assignments avs (snd (set_attr a v e))"
  by (simp_all add: assignments_def)

lemma wf_assignments: "wf_entities e \<Longrightarrow> wf_entities (assignments avs e)"
  by (induction avs arbitrary: e) (auto simp: preservesD [OF wf_set_attr])

definition same_limits :: "entities \<Rightarrow> entities \<Rightarrow> bool" where
  "same_limits e e' \<longleftrightarrow> kind e' = kind e \<and> (\<forall>x. map_option limits (defs e' x) = map_option limits (defs e x))"

lemma rel_limits:
  "rel_option (\<lambda>d d'. limits d' = limits d \<and> Q d d') r r' \<Longrightarrow> map_option limits r' = map_option limits r"
  by (cases r; cases r') auto

lemma evolves_same_limits:
  assumes "evolves t e e'" shows "same_limits e e'"
  unfolding same_limits_def
proof (intro conjI allI)
  show "kind e' = kind e" using assms by (simp add: evolves_def)
  show "map_option limits (defs e' x) = map_option limits (defs e x)" for x
    using assms unfolding evolves_def
    by (intro rel_limits [where Q = "\<lambda>d d'. t \<noteq> Some x \<longrightarrow> d' = d"]) blast
qed

lemma same_limits_assignments: "same_limits e (assignments avs e)"
proof (induction avs arbitrary: e)
  case (Cons av avs)
  obtain a v where av: "av = (a, v)" by force
  have "same_limits e (snd (set_attr a v e))"
    using preservesD [OF evolves_set_attr [of a e v], of e] by (simp add: evolves_same_limits)
  with Cons.IH [of "snd (set_attr a v e)"] show ?case
    by (simp add: av same_limits_def)
qed (simp add: same_limits_def)

text \<open>Overrides change bounds only, and before anything is stored they are harmless.\<close>

lemma wf_fresh:
  assumes "wf_entities e" and "\<And>x d. defs e x = Some d \<Longrightarrow> num_val (dval d) = initial_val x"
  shows "wf_entities (apply_limit_overrides section e)"
proof (cases "section")
  case (Some config)
  have "wf_defn (initial_val x) (override_defn config x d)" if "defs e x = Some d" for x d
    using assms(1) assms(2) [OF that] that by (simp add: wf_entities_def wf_defn_def override_defn_def)
  with assms(1) Some show ?thesis
    by (auto simp: apply_limit_overrides_def wf_entities_def dom_def set_eq_iff)
qed (simp add: apply_limit_overrides_def assms)

lemma fresh_entities_for: "defs (entities_for name) x = Some d \<Longrightarrow> num_val (dval d) = initial_val x"
proof -
  have power: "num_val (dval d) = initial_val x" if "power_defs x = Some d" for x d
    using that by (cases x) (auto simp: mk_defn_def initial_val_def)
  show "defs (entities_for name) x = Some d \<Longrightarrow> num_val (dval d) = initial_val x"
    using power [of x d]
    by (simp add: entities_for_def battery_device_def regulator_device_def inverter_device_def
        rectifier_device_def power_device_def split: if_splits)
      (auto simp: mk_defn_def initial_val_def split: if_splits)
qed

lemma wf_created: "wf_entities (apply_limit_overrides section (entities_for name))"
  by (intro wf_fresh wf_entities_for) (rule fresh_entities_for)

subsection \<open>Properties of a device's values\<close>


text \<open>
  assigning an attribute changes no other value: of the definitions only the one behind
  the attribute can differ afterwards.
\<close>

theorem assignment_frame:
  assumes "target a \<noteq> Some x"
  shows "defs (snd (set_attr a v e)) x = defs e x"
proof -
  have "evolves (target a) e (snd (set_attr a v e))"
    using preservesD [OF evolves_set_attr [of a e v], of e] by simp
  then have "rel_option (\<lambda>d d'. limits d' = limits d \<and> (target a \<noteq> Some x \<longrightarrow> d' = d))
      (defs e x) (defs (snd (set_attr a v e)) x)"
    unfolding evolves_def by blast
  with assms show ?thesis
    by (cases "defs e x"; cases "defs (snd (set_attr a v e)) x") auto
qed

theorem assignment_frame_witness:
  "defs (snd (set_attr A_current (PInt 12) battery_device)) V_dsoc = Some (mk_defn 0 1 1000 100)"
  using assignment_frame [of A_current V_dsoc "PInt 12" battery_device]
  by (simp add: battery_device_def power_device_def)

lemma assign_returns: "wf_entities e \<Longrightarrow> x \<in> vars_of (kind e) \<Longrightarrow> fst (assign x v e) = Inr ()"
  by (auto simp: run_assign wf_entities_def split: option.splits)

lemma kind_assign: "kind (snd (assign x v e)) = kind e"
  by (auto simp: run_assign split: option.splits)

lemma derive_state_returns: "fst (derive_state t v e) = Inr ()"
  by (simp add: derive_state_def pym_simps)

lemma block2: "fst (block [m, n] e) = Inr () \<longleftrightarrow> fst (m e) = Inr () \<and> fst (n (snd (m e))) = Inr ()"
  by (auto simp: pym_simps split: prod.splits sum.splits)

lemma set_mcurrent_returns: "wf_entities e \<Longrightarrow> fst (set_mcurrent v e) = Inr ()"
  by (auto simp: set_mcurrent_def battery_set_mcurrent_def set_power_mcurrent_def block2 vars_of_def
      assign_returns derive_state_returns simp del: block.simps)

lemma set_current_returns: "wf_entities e \<Longrightarrow> fst (set_current v e) = Inr ()"
  by (auto simp: set_current_def battery_set_current_def set_power_current_def block2
      set_mcurrent_returns derive_state_returns simp del: block.simps)

lemma set_charge_cycles_returns: "wf_entities e \<Longrightarrow> fst (set_charge_cycles v e) = Inr ()"
  by (auto simp: set_charge_cycles_def block2 vars_of_def assign_returns pym_simps set_extra_def
      simp del: block.simps)

lemma set_capacities_return:
  "wf_entities e \<Longrightarrow> fst (set_max_capacity v e) = Inr ()"
  "wf_entities e \<Longrightarrow> fst (set_exp_capacity v e) = Inr ()"
  by (auto simp: set_max_capacity_def set_exp_capacity_def vars_of_def assign_returns pym_simps set_extra_def)

lemma set_attr_raises_only:
  assumes "wf_entities e"
  shows "isl (fst (set_attr a v e)) \<longleftrightarrow> kind e = Battery \<and> a \<in> {A_state, A_health}"
proof -
  have power: "isl (fst (assign x w e)) = False" if "x \<notin> {V_max_capacity, V_exp_capacity, V_charge_cycles}" for x w
    using assign_returns [OF assms, of x w] that by (cases "kind e = Battery") (auto simp: vars_of_def)
  note rest = set_mcurrent_returns [OF assms] set_current_returns [OF assms]
    set_charge_cycles_returns [OF assms] set_capacities_return [OF assms]
  show ?thesis
    by (cases a) (simp_all add: setter_defs power rest set_extra_def pym_simps)
qed

text \<open>
  of all the assignments a plugin can make only those to a battery's \<open>state\<close> and
  \<open>health\<close>, which have no setter, raise.
\<close>

theorem assignment_raises_iff:
  assumes "wf_entities e"
  shows "isl (fst (set_attr a v e)) \<longleftrightarrow> kind e = Battery \<and> a \<in> {A_state, A_health}"
  using assms by (rule set_attr_raises_only)

theorem assignment_raises_iff_witness:
  "\<not> isl (fst (set_attr A_charge_cycles (PInt 2400) battery_device)) \<and>
   isl (fst (set_attr A_health (PInt 1) battery_device))"
  using assignment_raises_iff [OF wf_battery_device, of A_charge_cycles]
    assignment_raises_iff [OF wf_battery_device, of A_health]
  by (simp add: battery_device_def power_device_def)

subsection \<open>A battery's state and voltage\<close>

lemma num_val_milli_bounds:
  assumes "10000 \<le> num_val n" and "num_val n \<le> 15000"
  shows "10 \<le> num_val (milli n)" and "num_val (milli n) \<le> 15"
proof -
  obtain q where q: "num_quot n (PInt 1000) = PFloat (fl q)" and "10 \<le> q" and "q \<le> 15"
  proof (cases n)
    case (PInt k)
    with assms show thesis by (intro that [of "of_int k / 1000"]) simp_all
  next
    case (PFloat r)
    with assms show thesis by (intro that [of "r / 1000"]) simp_all
  qed
  then have "fl 10 \<le> fl q" and "fl q \<le> fl 15" using fl_mono [of 10 q] fl_mono [of q 15] by auto
  then have "num_val (round1 (PFloat 10)) \<le> num_val (round1 (PFloat (fl q)))"
    and "num_val (round1 (PFloat (fl q))) \<le> num_val (round1 (PFloat 15))"
    by (auto intro: round1_mono simp del: round1.simps)
  moreover have "num_val (round1 (PFloat 10)) = 10" and "num_val (round1 (PFloat 15)) = 15"
    using round_even_of_int [of 100] round_even_of_int [of 150] by simp_all
  ultimately show "10 \<le> num_val (milli n)" and "num_val (milli n) \<le> 15"
    by (simp_all add: milli_def q del: round1.simps)
qed

lemma milli_zero: "num_val n = 0 \<Longrightarrow> num_val (milli n) = 0"
  by (cases n) (simp_all add: milli_def round_even_of_int [of 0, simplified])

text \<open>
  a battery without overrides never publishes an impossible voltage: whatever its plugin
  assigns, \<open>voltage\<close> reads 0 (nothing believed yet) or between 10 and 15 volts.
\<close>

theorem battery_voltage_published:
  "\<exists>n. get_attr A_voltage (assignments avs battery_device) = Inr (PNum n) \<and>
       (num_val n = 0 \<or> 10 \<le> num_val n \<and> num_val n \<le> 15)"
proof -
  let ?e = "assignments avs battery_device"
  have init: "defs battery_device V_mvoltage = Some (mk_defn 0 10000 15000 12000)"
    by (simp add: battery_device_def power_device_def)
  have "map_option limits (defs ?e V_mvoltage) = map_option limits (defs battery_device V_mvoltage)"
    using same_limits_assignments [of battery_device avs] by (simp add: same_limits_def)
  with init obtain d where d: "defs ?e V_mvoltage = Some d" "dmin d = Fin 10000" "dmax d = Fin 15000"
    by (auto simp: limits_def mk_defn_def)
  have "wf_entities ?e" by (intro wf_assignments wf_battery_device)
  with d(1) have "wf_defn (initial_val V_mvoltage) d" by (simp add: wf_entities_def)
  then have "num_val (dval d) = 0 \<or> acceptable d (num_val (dval d))"
    by (simp add: wf_defn_def initial_val_def)
  with d have "num_val (dval d) = 0 \<or> 10000 \<le> num_val (dval d) \<and> num_val (dval d) \<le> 15000"
    by (auto simp: acceptable_def)
  with d num_val_milli_bounds [of "dval d"] milli_zero [of "dval d"] show ?thesis
    by (auto simp: scaled_def value_of_def)
qed

lemma run_derive_state:
  "derive_state t v e =
     (Inr (), if spurious_zero v e then e else e\<lparr>state_val := PStr (battery_state t v)\<rparr>)"
  by (simp add: derive_state_def pym_simps)

lemma run_block2:
  "fst (m e) = Inr () \<Longrightarrow> fst (n (snd (m e))) = Inr () \<Longrightarrow> snd (block [m, n] e) = snd (n (snd (m e)))"
  by (auto simp: pym_simps split: prod.splits)

text \<open>
  a battery's state follows the current it reported: after \<open>current = v\<close> with a reading
  that is not zero it is charging above 0.02 A, discharging below -0.02 A and otherwise on
  standby.
\<close>

theorem battery_state_follows_current:
  assumes "wf_entities e" and "kind e = Battery" and "num_val v \<noteq> 0"
  shows "state_val (snd (set_current v e)) =
    PStr (if num_val v > fl (2/100) then ''charging''
          else if num_val v < - fl (2/100) then ''discharging'' else ''standby'')"
proof -
  let ?s = "snd (set_power_current v e)"
  have first: "fst (set_power_current v e) = Inr ()"
    using assms(1) by (simp add: set_power_current_def set_mcurrent_returns)
  have "snd (set_current v e) = snd (derive_state (flit (2/100)) v ?s)"
    using assms(2) first by (simp add: set_current_def battery_set_current_def run_block2 run_derive_state del: block.simps)
  then show ?thesis
    using assms(3) by (simp add: run_derive_state spurious_zero_def battery_state_def num_lt_def flit_def fl_minus)
qed

theorem battery_state_follows_current_witness:
  "state_val (snd (set_current (PInt (- 3)) battery_device)) = PStr ''discharging''"
proof -
  have "kind battery_device = Battery" by (simp add: battery_device_def power_device_def)
  moreover have "0 \<le> fl (2/100)" by (rule fl_nonneg) simp
  moreover have "fl (2/100) \<le> of_int 1" by (rule fl_le_int) simp_all
  ultimately show ?thesis
    using battery_state_follows_current [OF wf_battery_device, of "PInt (- 3)"] by simp
qed

text \<open>
  the state can contradict the stored current: it is derived from the reading also when
  \<open>validate\<close> turned the reading down. A reading beyond the battery's limits leaves the
  stored current as it was and still switches the state.
\<close>

theorem state_from_rejected_reading:
  assumes "kind e = Battery" and "defs e V_mcurrent = Some d"
    and "to_float v \<noteq> num_val (dval d)" and "\<not> acceptable d (to_float v)" and "num_val v > 20"
  shows "value_of V_mcurrent (snd (set_mcurrent v e)) = value_of V_mcurrent e \<and>
         state_val (snd (set_mcurrent v e)) = PStr ''charging''"
proof -
  have "assign V_mcurrent v e = (Inr (), e\<lparr>defs := (defs e)(V_mcurrent \<mapsto> d)\<rparr>)"
    using assms(2-4) by (simp add: run_assign reading_out_of_band)
  then have "assign V_mcurrent v e = (Inr (), e)" using assms(2) by (simp add: fun_upd_idem)
  then have "snd (set_mcurrent v e) = e\<lparr>state_val := PStr ''charging''\<rparr>"
    using assms(1,5)
    by (simp add: set_mcurrent_def battery_set_mcurrent_def set_power_mcurrent_def run_block2
        run_derive_state spurious_zero_def battery_state_def num_lt_def del: block.simps)
  then show ?thesis by (simp add: value_of_def)
qed

theorem state_from_rejected_reading_witness:
  "value_of V_mcurrent (snd (set_mcurrent (PInt 600000) battery_device)) = Inr (PInt 0) \<and>
   state_val (snd (set_mcurrent (PInt 600000) battery_device)) = PStr ''charging''"
proof -
  have "defs battery_device V_mcurrent = Some (mk_defn 0 (- 500000) 500000 400000)"
    and "kind battery_device = Battery"
    by (simp_all add: battery_device_def power_device_def)
  then show ?thesis
    using state_from_rejected_reading [of battery_device "mk_defn 0 (- 500000) 500000 400000" "PInt 600000"]
    by (simp add: mk_defn_def acceptable_def value_of_def)
qed

end
