(* ===== verification/Supervisor.thy ===== *)
theory Supervisor
  imports PyNumbers "HOL-Library.Sublist"
begin

section \<open>supervisor.py: the queue, the consumer loop, liveness and the watchdog\<close>

text \<open>
  The bounded queue between the notification handlers and the consumer (\<open>try_put\<close>), the
  consumer loop (\<open>run_logger\<close>), the record of who reported when (\<open>LivenessTracker\<close>) and the
  watchdog over both (\<open>supervise\<close>). The two loops run until an event is set, so they are
  functions of the schedule the environment gives them: one entry per pass round the loop,
  with what the other threads did before it. \<open>log_sink\<close> is the interface of the object the
  consumer feeds; the datalogger implements it.
\<close>

subsection \<open>queue.Queue and try_put\<close>

text \<open>A \<open>maxsize\<close> of zero means no bound.\<close>

record 'a pyqueue =
  items :: "'a list"
  maxsize :: nat

definition queue_full :: "'a pyqueue \<Rightarrow> bool" where
  "queue_full q \<longleftrightarrow> 0 < maxsize q \<and> maxsize q \<le> length (items q)"

definition put_nowait :: "'a \<Rightarrow> ('a pyqueue, unit) pym" where
  "put_nowait x = (\<lambda>q. if queue_full q then (Inl QueueFull, q) else (Inr (), q\<lparr>items := items q @ [x]\<rparr>))"

definition try_put :: "'a \<Rightarrow> ('a pyqueue, bool) pym" where
  "try_put x =
     try_except (bind (put_nowait x) (\<lambda>_. ret True))
       (\<lambda>e. if e = QueueFull then ret False else throw e)"

lemma run_try_put:
  "try_put x q = (if queue_full q then (Inr False, q) else (Inr True, q\<lparr>items := items q @ [x]\<rparr>))"
  by (simp add: try_put_def put_nowait_def pym_simps)

definition within_bound :: "'a pyqueue \<Rightarrow> bool" where
  "within_bound q \<longleftrightarrow> maxsize q = 0 \<or> length (items q) \<le> maxsize q"

lemma within_bound_try_put: "within_bound q \<Longrightarrow> within_bound (snd (try_put x q))"
  by (auto simp: run_try_put within_bound_def queue_full_def)

subsection \<open>run_logger\<close>

type_synonym sample = "string \<times> string \<times> pyval"

text \<open>
  One pass of the loop: the producers' work before it, whether the stop event is set when it
  is tested, and the clock when it is read. The queue hands out its head, or \<open>get\<close> times
  out on an empty one.
\<close>

record pass =
  arrivals :: "sample list"
  stopping :: bool
  clock :: rat

record 's consumer =
  pending :: "sample pyqueue"
  sink :: 's
  last_report :: rat

definition handle_item :: "(sample \<Rightarrow> ('s, unit) pym) \<Rightarrow> (string \<Rightarrow> ('s, unit) pym) option \<Rightarrow>
    sample \<Rightarrow> ('s, unit) pym" where
  "handle_item sink_log on_item it =
     try_except
       (block [sink_log it, (case on_item of None \<Rightarrow> ret () | Some f \<Rightarrow> f (fst it))])
       (\<lambda>_. ret ())"

definition producers :: "sample list \<Rightarrow> sample pyqueue \<Rightarrow> sample pyqueue" where
  "producers xs q = foldl (\<lambda>q x. snd (try_put x q)) q xs"

definition logger_pass :: "(sample \<Rightarrow> ('s, unit) pym) \<Rightarrow> (string \<Rightarrow> ('s, unit) pym) option \<Rightarrow>
    rat \<Rightarrow> 's consumer \<Rightarrow> 's consumer" where
  "logger_pass sink_log on_item now c =
     (case items (pending c) of
        [] \<Rightarrow> c
      | it # rest \<Rightarrow>
          (let c' = c\<lparr>pending := (pending c)\<lparr>items := rest\<rparr>, sink := snd (handle_item sink_log on_item it (sink c))\<rparr>
           in if now > fl (last_report c' + 1) \<and> rest \<noteq> [] then c'\<lparr>last_report := now\<rparr> else c'))"

fun run_logger :: "(sample \<Rightarrow> ('s, unit) pym) \<Rightarrow> (string \<Rightarrow> ('s, unit) pym) option \<Rightarrow>
    pass list \<Rightarrow> 's consumer \<Rightarrow> 's consumer" where
  "run_logger sink_log on_item [] c = c"
| "run_logger sink_log on_item (p # ps) c =
     (let c' = c\<lparr>pending := producers (arrivals p) (pending c)\<rparr> in
      if stopping p then c'
      else run_logger sink_log on_item ps (logger_pass sink_log on_item (clock p) c'))"

subsection \<open>LivenessTracker\<close>

text \<open>The dictionary of the last readings, in insertion order.\<close>

type_synonym tracker = "(string \<times> rat) list"

definition expect :: "string \<Rightarrow> rat \<Rightarrow> tracker \<Rightarrow> tracker" where
  "expect name now t = (if name \<in> fst ` set t then t else t @ [(name, now)])"

fun record_time :: "string \<Rightarrow> rat \<Rightarrow> tracker \<Rightarrow> tracker" where
  "record_time name now [] = [(name, now)]"
| "record_time name now ((n, x) # t) =
     (if n = name then (n, now) # t else (n, x) # record_time name now t)"

definition stale :: "rat \<Rightarrow> rat \<Rightarrow> tracker \<Rightarrow> string list" where
  "stale timeout now t = map fst (filter (\<lambda>(n, x). fl (now - x) > timeout) t)"

definition any_expected :: "tracker \<Rightarrow> bool" where
  "any_expected t \<longleftrightarrow> t \<noteq> []"

definition expected_count :: "tracker \<Rightarrow> nat" where
  "expected_count t = length t"

subsection \<open>supervise\<close>

text \<open>
  One pass of the watchdog: whether \<open>stop_event.wait\<close> reported the event, the consumer's
  future (\<open>None\<close> when there is none, otherwise whether it is done), the tracker and the
  clock. The result is the exit code, or \<open>None\<close> while the watchdog is still running, with
  the number of calls of \<open>device_manager.stop\<close> and of \<open>on_tick\<close>.
\<close>

record watch =
  stop_set :: bool
  logger_done :: "bool option"
  liveness :: tracker
  checked_at :: rat

definition all_stale :: "rat \<Rightarrow> watch \<Rightarrow> bool" where
  "all_stale timeout w \<longleftrightarrow>
     any_expected (liveness w) \<and>
     length (stale timeout (checked_at w) (liveness w)) = expected_count (liveness w)"

fun supervise :: "rat \<Rightarrow> watch list \<Rightarrow> nat \<Rightarrow> nat \<Rightarrow> int option \<times> nat \<times> nat" where
  "supervise timeout [] stops ticks = (None, stops, ticks)"
| "supervise timeout (w # ws) stops ticks =
     (if stop_set w then (Some 0, stops, ticks)
      else if logger_done w = Some True then (Some 1, stops + 1, ticks + 1)
      else if all_stale timeout w then (Some 1, stops + 1, ticks + 1)
      else supervise timeout ws stops (ticks + 1))"

subsection \<open>The queue never blocks and never grows past its bound\<close>

text \<open>
  enqueueing never raises and never blocks: it appends the item, or on a full queue
  reports that it did not and leaves the queue as it is; a queue within its bound stays so.
\<close>

theorem try_put_bounded:
  assumes "within_bound q"
  shows "\<exists>ok. fst (try_put x q) = Inr ok \<and> within_bound (snd (try_put x q)) \<and>
    items (snd (try_put x q)) = (if ok then items q @ [x] else items q) \<and> (ok \<longleftrightarrow> \<not> queue_full q)"
  using assms within_bound_try_put [of q x] by (auto simp: run_try_put)

theorem try_put_bounded_witness:
  "\<exists>ok. fst (try_put (3::int) \<lparr>items = [1, 2], maxsize = 2\<rparr>) = Inr ok \<and>
    within_bound (snd (try_put (3::int) \<lparr>items = [1, 2], maxsize = 2\<rparr>)) \<and>
    items (snd (try_put (3::int) \<lparr>items = [1, 2], maxsize = 2\<rparr>)) =
      (if ok then items \<lparr>items = [1, 2], maxsize = 2\<rparr> @ [3] else items \<lparr>items = [1, 2], maxsize = 2\<rparr>) \<and>
    (ok \<longleftrightarrow> \<not> queue_full \<lparr>items = [1, 2::int], maxsize = 2\<rparr>)"
  by (rule try_put_bounded) (simp add: within_bound_def)

subsection \<open>The consumer loop\<close>

definition handle_all :: "(sample \<Rightarrow> ('s, unit) pym) \<Rightarrow> (string \<Rightarrow> ('s, unit) pym) option \<Rightarrow>
    sample list \<Rightarrow> 's \<Rightarrow> 's" where
  "handle_all sink_log on_item its s = foldl (\<lambda>s it. snd (handle_item sink_log on_item it s)) s its"

lemma handle_all_simps [simp]:
  "handle_all l f [] s = s"
  "handle_all l f (it # its) s = handle_all l f its (snd (handle_item l f it s))"
  "handle_all l f (its @ its') s = handle_all l f its' (handle_all l f its s)"
  by (simp_all add: handle_all_def)

lemma handle_item_returns: "fst (handle_item l f it s) = Inr ()"
  by (auto simp: handle_item_def pym_simps split: sum.splits prod.splits option.splits)

lemma producers_simps [simp]:
  "producers [] q = q"
  "producers (x # xs) q = producers xs (snd (try_put x q))"
  by (simp_all add: producers_def)

lemma producers_admit: "\<exists>adm. items (producers xs q) = items q @ adm \<and> subseq adm xs"
proof (induction xs arbitrary: q)
  case (Cons x xs)
  obtain adm where "items (producers xs (snd (try_put x q))) = items (snd (try_put x q)) @ adm" "subseq adm xs"
    using Cons.IH by blast
  then show ?case
    by (cases "queue_full q") (auto simp: run_try_put intro: exI [of _ adm] exI [of _ "x # adm"])
qed simp

lemma within_bound_producers: "within_bound q \<Longrightarrow> within_bound (producers xs q)"
  by (induction xs arbitrary: q) (auto intro: within_bound_try_put)

lemma logger_pass_cases:
  "items (pending c) = [] \<Longrightarrow> logger_pass l f t c = c"
  "items (pending c) = it # rest \<Longrightarrow>
     items (pending (logger_pass l f t c)) = rest \<and>
     maxsize (pending (logger_pass l f t c)) = maxsize (pending c) \<and>
     sink (logger_pass l f t c) = snd (handle_item l f it (sink c))"
  by (simp_all add: logger_pass_def Let_def)

lemma logger_pass_step:
  "\<exists>done. done @ items (pending (logger_pass l f t c)) = items (pending c) \<and>
     sink (logger_pass l f t c) = handle_all l f done (sink c)"
proof (cases "items (pending c)")
  case Nil
  then show ?thesis by (intro exI [of _ "[]"]) (simp add: logger_pass_cases)
next
  case (Cons it rest)
  then show ?thesis using logger_pass_cases(2) [OF Cons, of l f t] by (intro exI [of _ "[it]"]) simp
qed

lemma consumer_accounts:
  "\<exists>done adm.
     done @ items (pending (run_logger l f ps c)) = items (pending c) @ adm \<and>
     subseq adm (concat (map arrivals ps)) \<and>
     sink (run_logger l f ps c) = handle_all l f done (sink c)"
proof (induction ps arbitrary: c)
  case Nil
  show ?case by (intro exI [of _ "[]"]) simp
next
  case (Cons p ps)
  let ?c = "c\<lparr>pending := producers (arrivals p) (pending c)\<rparr>"
  obtain adm where adm: "items (pending ?c) = items (pending c) @ adm" "subseq adm (arrivals p)"
    using producers_admit [of "arrivals p" "pending c"] by auto
  show ?case
  proof (cases "stopping p")
    case True
    then show ?thesis using adm
      by (intro exI [of _ "[]"] exI [of _ adm]) (auto simp: Let_def intro: list_emb_append2)
  next
    case False
    let ?d = "logger_pass l f (clock p) ?c"
    obtain d1 where d1: "d1 @ items (pending ?d) = items (pending ?c)" "sink ?d = handle_all l f d1 (sink c)"
      using logger_pass_step [of l f "clock p" ?c] by auto
    obtain d2 adm2 where d2: "d2 @ items (pending (run_logger l f ps ?d)) = items (pending ?d) @ adm2"
        "subseq adm2 (concat (map arrivals ps))" "sink (run_logger l f ps ?d) = handle_all l f d2 (sink ?d)"
      using Cons.IH by blast
    have run: "run_logger l f (p # ps) c = run_logger l f ps ?d" using False by (simp add: Let_def)
    have "(d1 @ d2) @ items (pending (run_logger l f (p # ps) c)) = items (pending c) @ adm @ adm2"
      unfolding run using d1(1) d2(1) adm(1) by (metis append.assoc)
    moreover have "subseq (adm @ adm2) (concat (map arrivals (p # ps)))"
      using adm(2) d2(2) by (simp add: list_emb_append_mono)
    moreover have "sink (run_logger l f (p # ps) c) = handle_all l f (d1 @ d2) (sink c)"
      unfolding run using d1(2) d2(3) by simp
    ultimately show ?thesis by blast
  qed
qed


lemma consumer_drained:
  assumes "\<forall>p \<in> set ps. \<not> stopping p \<and> arrivals p = []"
    and "length (items (pending c)) \<le> length ps"
  shows "items (pending (run_logger l f ps c)) = [] \<and>
         sink (run_logger l f ps c) = handle_all l f (items (pending c)) (sink c)"
  using assms
proof (induction ps arbitrary: c)
  case (Cons p ps)
  have c: "c\<lparr>pending := producers (arrivals p) (pending c)\<rparr> = c" using Cons.prems by simp
  then have run: "run_logger l f (p # ps) c = run_logger l f ps (logger_pass l f (clock p) c)"
    using Cons.prems by (simp only: run_logger.simps Let_def c) simp
  show ?case
  proof (cases "items (pending c)")
    case Nil
    then have stay: "logger_pass l f (clock p) c = c" by (rule logger_pass_cases(1))
    have "items (pending (run_logger l f ps c)) = [] \<and>
        sink (run_logger l f ps c) = handle_all l f (items (pending c)) (sink c)"
      using Cons.prems Nil by (intro Cons.IH) simp_all
    then show ?thesis unfolding run stay .
  next
    case (Cons it rest)
    let ?d = "logger_pass l f (clock p) c"
    have d: "items (pending ?d) = rest" "sink ?d = snd (handle_item l f it (sink c))"
      using logger_pass_cases(2) [OF Cons, of l f "clock p"] by simp_all
    have "items (pending (run_logger l f ps ?d)) = [] \<and>
        sink (run_logger l f ps ?d) = handle_all l f (items (pending ?d)) (sink ?d)"
      using Cons.prems Cons d by (intro Cons.IH) simp_all
    then show ?thesis unfolding run using Cons d by simp
  qed
qed simp

text \<open>
  and it always makes progress: with as many passes as there are samples queued, the
  queue is empty and every sample was handed over, also when each call of the sink fails.
\<close>

theorem consumer_drains:
  assumes "\<forall>p \<in> set ps. \<not> stopping p \<and> arrivals p = []"
    and "length (items (pending c)) \<le> length ps"
  shows "items (pending (run_logger l f ps c)) = [] \<and>
         sink (run_logger l f ps c) = handle_all l f (items (pending c)) (sink c)"
  using assms by (rule consumer_drained)

theorem consumer_drains_witness:
  "sink (run_logger (\<lambda>it. bind (modify ((#) (fst it))) (\<lambda>_. throw OSError)) None
     [\<lparr>arrivals = [], stopping = False, clock = 5\<rparr>, \<lparr>arrivals = [], stopping = False, clock = 6\<rparr>]
     \<lparr>pending = \<lparr>items = [(''a'', ''soc'', PNone), (''b'', ''soc'', PNone)], maxsize = 10\<rparr>, sink = [], last_report = 0\<rparr>)
   = [''b'', ''a'']"
  using consumer_drains [of "[\<lparr>arrivals = [], stopping = False, clock = 5\<rparr>, \<lparr>arrivals = [], stopping = False, clock = 6\<rparr>]"
      "\<lparr>pending = \<lparr>items = [(''a'', ''soc'', PNone), (''b'', ''soc'', PNone)], maxsize = 10\<rparr>, sink = [], last_report = 0\<rparr>"
      "\<lambda>it. bind (modify ((#) (fst it))) (\<lambda>_. throw OSError)" None]
  by (simp add: handle_item_def pym_simps)

subsection \<open>The sink as an interface\<close>

text \<open>
  What the consumer relies on is little: whatever a call does, the sink's own invariant
  holds afterwards, returned or raised.
\<close>

locale log_sink =
  fixes sink_log :: "sample \<Rightarrow> ('s, unit) pym"
    and sink_inv :: "'s \<Rightarrow> bool"
  assumes log_keeps: "preserves sink_inv (sink_log it)"
begin

lemma handle_item_keeps:
  assumes "\<And>n f. on_item = Some f \<Longrightarrow> preserves sink_inv (f n)"
  shows "preserves sink_inv (handle_item sink_log on_item it)"
  unfolding handle_item_def
  by (intro preserves_try preserves_block preserves_ret)
    (use assms in \<open>cases on_item; auto intro: preserves_ret log_keeps\<close>)

lemma handle_all_keeps:
  assumes "\<And>n f. on_item = Some f \<Longrightarrow> preserves sink_inv (f n)"
    and "sink_inv s"
  shows "sink_inv (handle_all sink_log on_item its s)"
proof -
  have item: "preserves sink_inv (handle_item sink_log on_item it)" for it
    using assms(1) by (rule handle_item_keeps)
  show ?thesis
    using assms(2) by (induction its arbitrary: s) (auto intro: preservesD [OF item])
qed

lemma consumer_keeps:
  assumes "\<And>n f. on_item = Some f \<Longrightarrow> preserves sink_inv (f n)" and "sink_inv (sink c)"
  shows "sink_inv (sink (run_logger sink_log on_item ps c))"
proof -
  have "sink_inv (handle_all sink_log on_item its (sink c))" for its
    using assms by (rule handle_all_keeps)
  then show ?thesis using consumer_accounts [of sink_log on_item ps c] by auto
qed

end

subsection \<open>Liveness\<close>

lemma map_of_record_time [simp]: "map_of (record_time n x t) = (map_of t)(n \<mapsto> x)"
  by (induction n x t rule: record_time.induct) auto

lemma fst_record_time: "fst ` set (record_time n x t) = insert n (fst ` set t)"
  by (induction n x t rule: record_time.induct) auto

lemma distinct_record_time [simp]: "distinct (map fst t) \<Longrightarrow> distinct (map fst (record_time n x t))"
  by (induction n x t rule: record_time.induct) (auto simp: fst_record_time)

lemma map_of_expect: "map_of (expect n x t) m = (if m = n \<and> map_of t n = None then Some x else map_of t m)"
proof (cases "n \<in> fst ` set t")
  case True
  then have "map_of t n \<noteq> None" by (simp add: map_of_eq_None_iff)
  with True show ?thesis by (simp add: expect_def)
next
  case False
  then have "map_of t n = None" by (simp add: map_of_eq_None_iff)
  with False show ?thesis by (simp add: expect_def map_add_def split: option.splits)
qed

lemma distinct_expect [simp]: "distinct (map fst t) \<Longrightarrow> distinct (map fst (expect n x t))"
  by (auto simp: expect_def)

lemma stale_iff:
  assumes "distinct (map fst t)"
  shows "n \<in> set (stale timeout now t) \<longleftrightarrow> (\<exists>x. map_of t n = Some x \<and> fl (now - x) > timeout)"
proof -
  have "n \<in> set (stale timeout now t) \<longleftrightarrow> (\<exists>x. (n, x) \<in> set t \<and> fl (now - x) > timeout)"
    by (force simp: stale_def)
  also have "\<dots> \<longleftrightarrow> (\<exists>x. map_of t n = Some x \<and> fl (now - x) > timeout)"
    using assms by (metis map_of_eq_Some_iff)
  finally show ?thesis .
qed

lemma length_stale: "length (stale timeout now t) = expected_count t \<longleftrightarrow> (\<forall>(n, x) \<in> set t. fl (now - x) > timeout)"
proof -
  have "length (filter P xs) = length xs \<longleftrightarrow> (\<forall>x \<in> set xs. P x)" for P and xs :: "(string \<times> rat) list"
    by (induction xs) (auto simp: le_imp_less_Suc less_imp_neq length_filter_le)
  then show ?thesis by (simp add: stale_def expected_count_def case_prod_beta)
qed

text \<open>A history of the tracker: what was expected and what reported, each with its time.\<close>

datatype liveness_event = Expect string rat | Reading string rat

fun track :: "liveness_event \<Rightarrow> tracker \<Rightarrow> tracker" where
  "track (Expect n x) t = expect n x t"
| "track (Reading n x) t = record_time n x t"

fun last_seen :: "string \<Rightarrow> liveness_event list \<Rightarrow> rat option \<Rightarrow> rat option" where
  "last_seen n [] r = r"
| "last_seen n (Expect m x # es) r = last_seen n es (if m = n \<and> r = None then Some x else r)"
| "last_seen n (Reading m x # es) r = last_seen n es (if m = n then Some x else r)"

lemma track_last_seen:
  "distinct (map fst t) \<Longrightarrow> distinct (map fst (fold track es t)) \<and>
     map_of (fold track es t) n = last_seen n es (map_of t n)"
proof (induction es arbitrary: t)
  case (Cons e es)
  show ?case
  proof (cases e)
    case (Expect m x)
    then show ?thesis using Cons.IH [of "expect m x t"] Cons.prems by (auto simp: map_of_expect)
  next
    case (Reading m x)
    then show ?thesis using Cons.IH [of "record_time m x t"] Cons.prems by auto
  qed
qed simp

text \<open>
  a device is reported stale exactly when its latest reading, or the moment it was first
  expected if it has had none, is longer ago than the timeout; registering it again does not
  refresh it.
\<close>

theorem stale_exactly_silent:
  "n \<in> set (stale timeout now (fold track es [])) \<longleftrightarrow>
   (\<exists>x. last_seen n es None = Some x \<and> fl (now - x) > timeout)"
proof -
  have "distinct (map fst (fold track es []))" and last: "map_of (fold track es []) n = last_seen n es None"
    using track_last_seen [of "[]" es n] by simp_all
  from stale_iff [OF this(1), of n] show ?thesis by (simp only: last)
qed

subsection \<open>The watchdog\<close>

definition failing :: "rat \<Rightarrow> watch \<Rightarrow> bool" where
  "failing timeout w \<longleftrightarrow> logger_done w = Some True \<or> all_stale timeout w"

lemma supervise_cases:
  "supervise timeout (w # ws) s k =
     (if stop_set w then (Some 0, s, k)
      else if failing timeout w then (Some 1, s + 1, k + 1)
      else supervise timeout ws s (k + 1))"
  by (simp add: failing_def)




end
