(* ===== verification/Hci.thy ===== *)
theory Hci
  imports PyNumbers
begin

section \<open>hci.py: the connection interval\<close>

text \<open>
  \<open>parse_interval\<close> reads a \<open>min-max\<close> range from the configuration, \<open>connection_handle\<close> finds
  the link in the output of \<open>hcitool con\<close>, and \<open>set_connection_interval\<close> issues the update.
  Running a command is the argument \<open>run\<close>: it returns the captured output and exit code, or
  raises. Strings are 8-bit, so the character classes of the patterns are those of Latin-1.
\<close>

subsection \<open>Reading the configured range\<close>

definition is_space :: "char \<Rightarrow> bool" where
  "is_space c = (let n = (of_char c :: nat) in 9 \<le> n \<and> n \<le> 13 \<or> 28 \<le> n \<and> n \<le> 32 \<or> n = 133 \<or> n = 160)"

definition is_digit :: "char \<Rightarrow> bool" where
  "is_digit c = (let n = (of_char c :: nat) in 48 \<le> n \<and> n \<le> 57)"

definition digit_val :: "char \<Rightarrow> int" where
  "digit_val c = of_char c - 48"

definition strip :: "string \<Rightarrow> string" where
  "strip s = rev (dropWhile is_space (rev (dropWhile is_space s)))"

definition digits_val :: "string \<Rightarrow> int" where
  "digits_val ds = foldl (\<lambda>n c. 10 * n + digit_val c) 0 ds"

text \<open>\<open>float(s)\<close> of a string of digits and dots, which has at most one dot and a digit.\<close>

definition dotted_float :: "string \<Rightarrow> py_error + rat" where
  "dotted_float s =
     (case split_on CHR ''.'' s of
        [a] \<Rightarrow> if a = [] then Inl ValueError else Inr (fl (of_int (digits_val a)))
      | [a, b] \<Rightarrow>
          if a = [] \<and> b = [] then Inl ValueError
          else Inr (fl (of_int (digits_val (a @ b)) / 10 ^ length b))
      | _ \<Rightarrow> Inl ValueError)"

definition dotted :: "string \<Rightarrow> bool" where
  "dotted s \<longleftrightarrow> s \<noteq> [] \<and> list_all (\<lambda>c. is_digit c \<or> c = CHR ''.'') s"

text \<open>The two groups of \<open>\s*([\d.]+)\s*-\s*([\d.]+)\s*\<close> when the whole string matches.\<close>

definition interval_match :: "string \<Rightarrow> (string \<times> string) option" where
  "interval_match s =
     (case split_on CHR ''-'' s of
        [a, b] \<Rightarrow> if dotted (strip a) \<and> dotted (strip b) then Some (strip a, strip b) else None
      | _ \<Rightarrow> None)"

definition parse_interval :: "string option \<Rightarrow> py_error + (rat \<times> rat) option" where
  "parse_interval value =
     (case value of
        None \<Rightarrow> Inr None
      | Some s \<Rightarrow>
          if s = [] then Inr None
          else case interval_match s of
                 None \<Rightarrow> Inr None
               | Some (a, b) \<Rightarrow>
                   (case dotted_float a of
                      Inl e \<Rightarrow> Inl e
                    | Inr low \<Rightarrow>
                        (case dotted_float b of
                           Inl e \<Rightarrow> Inl e
                         | Inr high \<Rightarrow> if low \<le> 0 \<or> high < low then Inr None else Inr (Some (low, high)))))"

subsection \<open>Issuing the update\<close>

record run_result =
  stdout :: string
  stderr :: string
  returncode :: int

type_synonym runner = "string list \<Rightarrow> py_error + run_result"

definition fold_case :: "char \<Rightarrow> char" where
  "fold_case c = (let n = (of_char c :: nat) in if 65 \<le> n \<and> n \<le> 90 then char_of (n + 32) else c)"

definition lower :: "string \<Rightarrow> string" where
  "lower s = map fold_case s"

text \<open>\<open>.*?handle (\d+)\<close> on the rest of a line, and the whole pattern at the leftmost place.\<close>

fun handle_on_line :: "string \<Rightarrow> string option" where
  "handle_on_line [] = None"
| "handle_on_line (c # cs) =
     (let ds = takeWhile is_digit (drop 7 (c # cs)) in
      if is_prefix_of ''handle '' (lower (c # cs)) \<and> ds \<noteq> [] then Some ds
      else if c = CHR 0x0A then None
      else handle_on_line cs)"

fun find_handle :: "string \<Rightarrow> string \<Rightarrow> string option" where
  "find_handle mac [] = (if mac = [] then handle_on_line [] else None)"
| "find_handle mac (c # cs) =
     (let here = (if is_prefix_of (lower mac) (lower (c # cs)) then handle_on_line (drop (length mac) (c # cs)) else None)
      in if here \<noteq> None then here else find_handle mac cs)"

definition connection_handle :: "string \<Rightarrow> runner \<Rightarrow> string option" where
  "connection_handle mac run =
     (case run [''hcitool'', ''con''] of
        Inl _ \<Rightarrow> None
      | Inr result \<Rightarrow> find_handle mac (stdout result))"

text \<open>Intervals count in units of 1.25 ms: \<open>str(round(ms * 0.8))\<close>.\<close>

definition interval_units :: "rat \<Rightarrow> int" where
  "interval_units ms = round_even (fl (ms * fl (8/10)))"

definition lecup_args :: "string \<Rightarrow> rat \<Rightarrow> rat \<Rightarrow> string list" where
  "lecup_args handle min_ms max_ms =
     [''hcitool'', ''lecup'', ''--handle'', handle, ''--min'', show_int (interval_units min_ms),
      ''--max'', show_int (interval_units max_ms), ''--latency'', ''0'', ''--timeout'', ''500'']"

definition set_connection_interval :: "string \<Rightarrow> rat \<Rightarrow> rat \<Rightarrow> runner \<Rightarrow> bool" where
  "set_connection_interval mac min_ms max_ms run =
     (case connection_handle mac run of
        None \<Rightarrow> False
      | Some handle \<Rightarrow>
          (case run (lecup_args handle min_ms max_ms) of
             Inl _ \<Rightarrow> False
           | Inr result \<Rightarrow>
               (let output = stdout result @ stderr result in
                \<not> (returncode result \<noteq> 0 \<or> contains output ''Operation not permitted''
                   \<or> contains output ''Could not''))))"

subsection \<open>What a parsed range is\<close>

text \<open>
  a range taken from the configuration is usable: a positive minimum not above the
  maximum, and it was written as two dotted decimal numbers around a single hyphen.
\<close>

theorem parse_interval_usable:
  assumes "parse_interval (Some s) = Inr (Some (low, high))"
  shows "0 < low \<and> low \<le> high \<and>
    (\<exists>a b. s = a @ ''-'' @ b \<and> dotted (strip a) \<and> dotted (strip b) \<and>
       dotted_float (strip a) = Inr low \<and> dotted_float (strip b) = Inr high)"
proof -
  have split2: "s = a @ ''-'' @ b" if "split_on CHR ''-'' s = [a, b]" for s a b
    using that
  proof (induction s arbitrary: a)
    case (Cons c cs)
    show ?case
    proof (cases "c = CHR ''-''")
      case True
      moreover have "cs = b" if "split_on CHR ''-'' cs = [b]" for b
        using that
      proof (induction cs arbitrary: b)
        case (Cons d ds)
        then show ?case by (cases "split_on CHR ''-'' ds") (auto split: if_splits)
      qed simp
      ultimately show ?thesis using Cons.prems by simp
    next
      case False
      then obtain a' where a': "split_on CHR ''-'' cs = [a', b]" "a = c # a'"
        using Cons.prems by (cases "split_on CHR ''-'' cs") auto
      with Cons.IH [OF a'(1)] show ?thesis by simp
    qed
  qed simp
  obtain a b where m: "interval_match s = Some (a, b)" and "dotted_float a = Inr low" "dotted_float b = Inr high"
      and "0 < low" "low \<le> high"
    using assms by (auto simp: parse_interval_def split: option.splits sum.splits if_splits prod.splits)
  moreover from m obtain a' b' where "split_on CHR ''-'' s = [a', b']" "a = strip a'" "b = strip b'"
      "dotted a" "dotted b"
    by (auto simp: interval_match_def split: list.splits if_splits)
  ultimately show ?thesis using split2 by blast
qed

theorem parse_interval_usable_witness:
  "parse_interval (Some ''7.5 - 30'') = Inr (Some (15/2, 30)) \<and> (15/2 :: rat) \<le> 30"
proof -
  have "parse_interval (Some ''7.5 - 30'') = Inr (Some (15/2, 30))" by code_simp
  with parse_interval_usable [OF this] show ?thesis by simp
qed

text \<open>
  a malformed range does not always fall back to none with a warning: a number with two
  dots matches the pattern, and \<open>float\<close> then raises out of the constructor of the device.
\<close>

theorem parse_interval_raises:
  "parse_interval (Some ''1.2.3-40'') = Inl ValueError"
  by code_simp

text \<open>
  The interval is reported as set only when \<open>hcitool\<close> named a handle for the device and
  accepted the update for that handle. The limits are sent in units of 1.25 ms.
\<close>

lemma interval_set_only_if_accepted:
  assumes "set_connection_interval mac min_ms max_ms run"
  shows "\<exists>handle result. connection_handle mac run = Some handle \<and>
    run (lecup_args handle min_ms max_ms) = Inr result \<and> returncode result = 0 \<and>
    \<not> contains (stdout result @ stderr result) ''Could not''"
  using assms by (auto simp: set_connection_interval_def Let_def split: option.splits sum.splits)

lemma interval_units_exact:
  "interval_units (15/2) = 6" "interval_units 30 = 24" "interval_units 50 = 40"
  by code_simp+

end
