(* ===== verification/Device.thy ===== *)
theory Device
  imports EntityProps Supervisor Hci
begin

section \<open>solardevice.py: SolarDevice\<close>

text \<open>
  The device object between the transport, the plugin and the loggers. Its fields here are
  those its methods read and change; the writes scheduled on the event loop are the list
  \<open>writes\<close>. A plugin's \<open>Util\<close> keeps a state of its own and reaches the device through
  \<open>self.PowerDevice\<close>, so a plugin's method is a computation on the pair of both
  (\<open>on_device\<close> runs a method of the device there). The plugin is the record \<open>plugin\<close> of its
  operations; the locale \<open>plugin_contract\<close> states what a plugin owes the device, and every
  plugin theory discharges it.
\<close>

subsection \<open>The state\<close>

text \<open>What a plugin hands over for a write: bytes, a list of integers, or nothing.\<close>

datatype payload = Bytes bytes | Ints "int list" | NoData

record device =
  logger_name :: string
  alias_name :: string
  ents :: entities
  queue :: "sample pyqueue option"
  dropped :: nat
  connected :: bool
  loop_alive :: bool
  writes :: "(bytes \<times> uuid) list"
  device_id :: "int option"
  send_ack :: bool
  need_polling :: bool
  write_polling :: "uuid option"
  write_commands :: "uuid option"
  notify_uuids :: "uuid list"
  connection_interval :: "(rat \<times> rat) option"

text \<open>The constants of a plugin's \<open>Config\<close> class, and the constructor.\<close>

record plugin_config =
  cfg_notify_chars :: "uuid list"
  cfg_write_polling :: "uuid option"
  cfg_write_commands :: "uuid option"
  cfg_device_id :: "int option"
  cfg_need_polling :: bool
  cfg_send_ack :: bool

definition new_device :: "plugin_config \<Rightarrow> string \<Rightarrow> limit_section option \<Rightarrow> string option \<Rightarrow>
    sample pyqueue option \<Rightarrow> py_error + device" where
  "new_device cfg name section interval_option q =
     (case parse_interval interval_option of
        Inl e \<Rightarrow> Inl e
      | Inr interval \<Rightarrow>
          Inr \<lparr>logger_name = name, alias_name = name,
               ents = apply_limit_overrides section (entities_for name),
               queue = q, dropped = 0, connected = False, loop_alive = True, writes = [],
               device_id = cfg_device_id cfg, send_ack = cfg_send_ack cfg, need_polling = cfg_need_polling cfg,
               write_polling = cfg_write_polling cfg, write_commands = cfg_write_commands cfg,
               notify_uuids = filter (\<lambda>u. u \<noteq> []) (cfg_notify_chars cfg), connection_interval = interval\<rparr>)"

text \<open>\<open>message[i]\<close>, which may raise, and the bytes a log line reads.\<close>

definition byte_at :: "bytes \<Rightarrow> int \<Rightarrow> ('s, int) pym" where
  "byte_at message i = lift (py_get message i)"

text \<open>\<open>message[i]*256 + message[j]\<close>\<close>

definition word_at :: "bytes \<Rightarrow> int \<Rightarrow> int \<Rightarrow> ('s, int) pym" where
  "word_at message i j = bind (byte_at message i) (\<lambda>a. bind (byte_at message j) (\<lambda>b. ret (a * 256 + b)))"

definition touch :: "bytes \<Rightarrow> int list \<Rightarrow> ('s, unit) pym" where
  "touch message ks = block (map (\<lambda>k. bind (byte_at message k) (\<lambda>_. ret ())) ks)"

lemma preserves_byte_at [pres]: "preserves P (byte_at m i)"
  by (simp add: byte_at_def preserves_lift)

lemma preserves_word_at [pres]: "preserves P (word_at m i j)"
  unfolding word_at_def by (intro pres)

lemma preserves_touch [pres]: "preserves P (touch message ks)"
  unfolding touch_def by (rule preserves_block) (auto intro!: preserves_bind preserves_byte_at preserves_ret)

definition set_alias :: "string option \<Rightarrow> (device, unit) pym" where
  "set_alias name = modify (\<lambda>d. case name of
       None \<Rightarrow> d
     | Some n \<Rightarrow> if n = [] then d else d\<lparr>alias_name := strip n\<rparr>)"

type_synonym ('u, 'a) util = "('u \<times> device, 'a) pym"

definition on_device :: "(device, 'a) pym \<Rightarrow> ('u, 'a) util" where
  "on_device m = (\<lambda>(u, d). let (r, d') = m d in (r, (u, d')))"

definition on_util :: "('u, 'a) pym \<Rightarrow> ('u, 'a) util" where
  "on_util m = (\<lambda>(u, d). let (r, u') = m u in (r, (u', d)))"

definition on_ents :: "(entities, 'a) pym \<Rightarrow> (device, 'a) pym" where
  "on_ents m = (\<lambda>d. let (r, e) = m (ents d) in (r, d\<lparr>ents := e\<rparr>))"

definition util_state :: "('u, 'u) util" where
  "util_state = gets fst"

record 'u plugin =
  notification :: "bytes \<Rightarrow> uuid \<Rightarrow> ('u, bool) util"
  poll_request :: "('u, payload) util"
  cmd_request :: "(string \<Rightarrow> string \<Rightarrow> ('u, payload list) util) option"
  ack_data :: "bytes \<Rightarrow> ('u, payload) util"

subsection \<open>The queue\<close>

definition enqueue :: "sample \<Rightarrow> (device, unit) pym" where
  "enqueue x = (\<lambda>d.
     case queue d of
       None \<Rightarrow> (Inl AttributeError, d)
     | Some q \<Rightarrow>
         (case try_put x q of
            (Inl e, q') \<Rightarrow> (Inl e, d\<lparr>queue := Some q'\<rparr>)
          | (Inr ok, q') \<Rightarrow>
              (Inr (), d\<lparr>queue := Some q', dropped := (if ok then dropped d else dropped d + 1)\<rparr>)))"

text \<open>The setter of \<open>power_switch\<close>, which publishes a change at once.\<close>

definition assign_switch :: "pyval \<Rightarrow> (device, unit) pym" where
  "assign_switch v = (\<lambda>d.
     case set_power_switch v (ents d) of
       (None, e) \<Rightarrow> (Inr (), d\<lparr>ents := e\<rparr>)
     | (Some w, e) \<Rightarrow>
         try_except (enqueue (logger_name d, ''power_switch'', w)) (\<lambda>_. ret ()) (d\<lparr>ents := e\<rparr>))"

definition assign_attr :: "attr \<Rightarrow> pynum \<Rightarrow> (device, unit) pym" where
  "assign_attr a v = (if a = A_power_switch then assign_switch (PNum v) else on_ents (set_attr a v))"

definition assign_cell :: "int \<Rightarrow> pynum \<Rightarrow> (device, unit) pym" where
  "assign_cell i v = on_ents (set_cell_mvoltage i v)"

definition assign_msg :: "bytes \<Rightarrow> (device, unit) pym" where
  "assign_msg m = on_ents (modify (\<lambda>e. e\<lparr>msg_val := PBytes m\<rparr>))"

subsection \<open>Writes\<close>

fun to_bytes :: "payload \<Rightarrow> py_error + bytes" where
  "to_bytes (Bytes bs) = Inr bs"
| "to_bytes (Ints xs) = (if is_bytes xs then Inr xs else Inl ValueError)"
| "to_bytes NoData = Inl TypeError"

text \<open>A schedule that fails (\<open>loop_alive\<close> false) is logged and otherwise ignored.\<close>

definition characteristic_write_value :: "payload \<Rightarrow> uuid option \<Rightarrow> (device, unit) pym" where
  "characteristic_write_value value char_uuid = (\<lambda>d.
     case char_uuid of
       None \<Rightarrow> (Inr (), d)
     | Some c \<Rightarrow>
         if \<not> connected d then (Inr (), d)
         else case to_bytes value of
                Inl e \<Rightarrow> (Inl e, d)
              | Inr bs \<Rightarrow> (Inr (), if loop_alive d then d\<lparr>writes := writes d @ [(bs, c)]\<rparr> else d))"

definition write_to_polling :: "payload \<Rightarrow> (device, unit) pym" where
  "write_to_polling value = (\<lambda>d. characteristic_write_value value (write_polling d) d)"

definition write_to_commands :: "payload \<Rightarrow> (device, unit) pym" where
  "write_to_commands value = (\<lambda>d. characteristic_write_value value (write_commands d) d)"

definition run_command :: "'u plugin \<Rightarrow> string \<Rightarrow> string \<Rightarrow> ('u, unit) util" where
  "run_command p var message =
     (case cmd_request p of
        None \<Rightarrow> ret ()
      | Some cmd \<Rightarrow>
          bind (cmd var message) (\<lambda>datas. block (map (\<lambda>x. on_device (write_to_commands x)) datas)))"

definition get_poll_data :: "'u plugin \<Rightarrow> ('u, payload) util" where
  "get_poll_data p = poll_request p"

subsection \<open>Publishing\<close>

definition published_items :: "(attr \<times> string) list" where
  "published_items =
     [(A_current, ''current''), (A_input_current, ''input_current''), (A_charge_current, ''charge_current''),
      (A_voltage, ''voltage''), (A_input_voltage, ''input_voltage''), (A_charge_voltage, ''charge_voltage''),
      (A_power, ''power''), (A_input_power, ''input_power''), (A_charge_power, ''charge_power''),
      (A_soc, ''soc''), (A_capacity, ''capacity''), (A_exp_capacity, ''exp_capacity''),
      (A_max_capacity, ''max_capacity''), (A_charge_cycles, ''charge_cycles''), (A_state, ''state''),
      (A_health, ''health''), (A_power_switch, ''power_switch'')]"

definition enqueue_attr :: "attr \<Rightarrow> string \<Rightarrow> (device, unit) pym" where
  "enqueue_attr a item =
     bind (\<lambda>d. (get_attr a (ents d), d)) (\<lambda>v. (\<lambda>d. enqueue (logger_name d, item, v) d))"

definition silently :: "('s, unit) pym \<Rightarrow> ('s, unit) pym" where
  "silently m = try_except m (\<lambda>_. ret ())"

definition enqueue_cells :: "(entities \<Rightarrow> py_error + (int \<times> pynum) list) \<Rightarrow> string \<Rightarrow> (device, unit) pym" where
  "enqueue_cells get ending =
     bind (\<lambda>d. (get (ents d), d))
       (\<lambda>cs. block (map (\<lambda>(i, v). whenp (num_val v > 0)
          (\<lambda>d. enqueue (logger_name d, ''cell_'' @ show_int i @ ending, PNum v) d)) cs))"

definition publish :: "(device, unit) pym" where
  "publish =
     block
       (map (\<lambda>(a, item). silently (enqueue_attr a item)) published_items @
        [silently (block [enqueue_attr A_temperature_celsius ''temperature'',
                          enqueue_attr A_battery_temperature_celsius ''battery_temperature'']),
         silently (enqueue_cells cell_mvoltages ''''),
         silently (enqueue_cells cell_voltages ''_voltage'')])"

definition on_notification :: "'u plugin \<Rightarrow> uuid \<Rightarrow> bytes \<Rightarrow> ('u, unit) util" where
  "on_notification p uuid value =
     bind (gets (\<lambda>(u, d). send_ack d))
       (\<lambda>ack. block
          [whenp ack (bind (ack_data p value) (\<lambda>x. on_device (write_to_polling x))),
           bind (notification p value uuid) (\<lambda>updated. whenp updated (on_device publish))])"

definition notify_callback :: "'u plugin \<Rightarrow> uuid \<Rightarrow> bytes \<Rightarrow> ('u, unit) util" where
  "notify_callback p uuid value = try_except (on_notification p uuid value) (\<lambda>_. ret ())"

subsection \<open>Connection callbacks\<close>

text \<open>
  What the device tells the datalogger when the link comes up or goes down; the datalogger
  is an argument, a computation on its own state, and \<open>None\<close> when the device has none.
\<close>

datatype dl_call = SetDeviceAlias string string | SetAvailable string bool

definition on_connected :: "(dl_call \<Rightarrow> ('l, unit) pym) option \<Rightarrow> ('l, unit) util" where
  "on_connected dl =
     block
       [on_device (modify (\<lambda>d. d\<lparr>connected := True\<rparr>)),
        (case dl of
           None \<Rightarrow> ret ()
         | Some call \<Rightarrow>
             bind (gets snd) (\<lambda>d. silently (block
               [on_util (call (SetDeviceAlias (logger_name d) (alias_name d))),
                on_util (call (SetAvailable (logger_name d) True))])))]"

definition on_disconnected :: "(dl_call \<Rightarrow> ('l, unit) pym) option \<Rightarrow> ('l, unit) util" where
  "on_disconnected dl =
     block
       [(case dl of
           None \<Rightarrow> ret ()
         | Some call \<Rightarrow>
             bind (gets snd) (\<lambda>d. silently (on_util (call (SetAvailable (logger_name d) False))))),
        on_device (modify (\<lambda>d. d\<lparr>connected := False\<rparr>))]"

subsection \<open>What is published\<close>

definition attr_samples :: "string \<Rightarrow> entities \<Rightarrow> (attr \<times> string) list \<Rightarrow> sample list" where
  "attr_samples name e its =
     concat (map (\<lambda>(a, item). case get_attr a e of Inl _ \<Rightarrow> [] | Inr v \<Rightarrow> [(name, item, v)]) its)"

definition cell_samples :: "string \<Rightarrow> py_error + (int \<times> pynum) list \<Rightarrow> string \<Rightarrow> sample list" where
  "cell_samples name r ending =
     (case r of
        Inl _ \<Rightarrow> []
      | Inr cs \<Rightarrow> map (\<lambda>(i, v). (name, ''cell_'' @ show_int i @ ending, PNum v))
                   (filter (\<lambda>(i, v). num_val v > 0) cs))"

definition temperature_samples :: "string \<Rightarrow> entities \<Rightarrow> sample list" where
  "temperature_samples name e =
     (case get_attr A_temperature_celsius e of
        Inl _ \<Rightarrow> []
      | Inr v \<Rightarrow> (name, ''temperature'', v) # attr_samples name e [(A_battery_temperature_celsius, ''battery_temperature'')])"

definition samples :: "device \<Rightarrow> sample list" where
  "samples d =
     attr_samples (logger_name d) (ents d) published_items @
     temperature_samples (logger_name d) (ents d) @
     cell_samples (logger_name d) (cell_mvoltages (ents d)) '''' @
     cell_samples (logger_name d) (cell_voltages (ents d)) ''_voltage''"

definition enqueue_all :: "sample list \<Rightarrow> device \<Rightarrow> device" where
  "enqueue_all xs d = foldl (\<lambda>d x. snd (enqueue x d)) d xs"

lemma enqueue_all_simps [simp]:
  "enqueue_all [] d = d"
  "enqueue_all (x # xs) d = enqueue_all xs (snd (enqueue x d))"
  "enqueue_all (xs @ ys) d = enqueue_all ys (enqueue_all xs d)"
  by (simp_all add: enqueue_all_def)

lemma run_enqueue:
  "queue d = Some q \<Longrightarrow> enqueue x d =
     (Inr (), if queue_full q then d\<lparr>queue := Some q, dropped := dropped d + 1\<rparr>
              else d\<lparr>queue := Some (q\<lparr>items := items q @ [x]\<rparr>), dropped := dropped d\<rparr>)"
  by (simp add: enqueue_def run_try_put)

lemma enqueue_frame [simp]:
  "ents (snd (enqueue x d)) = ents d"
  "logger_name (snd (enqueue x d)) = logger_name d"
  "queue (snd (enqueue x d)) = None \<longleftrightarrow> queue d = None"
  by (auto simp: enqueue_def run_try_put split: option.splits)

lemma enqueue_all_frame [simp]:
  "ents (enqueue_all xs d) = ents d"
  "logger_name (enqueue_all xs d) = logger_name d"
  "queue (enqueue_all xs d) = None \<longleftrightarrow> queue d = None"
  by (induction xs arbitrary: d) auto

lemma enqueue_returns: "queue d \<noteq> None \<Longrightarrow> fst (enqueue x d) = Inr ()"
  by (auto simp: run_enqueue)

text \<open>A statement that enqueues the samples \<open>xs\<close> and does nothing else.\<close>

definition enqueues :: "(device, unit) pym \<Rightarrow> device \<Rightarrow> sample list \<Rightarrow> bool" where
  "enqueues m d xs \<longleftrightarrow> m d = (Inr (), enqueue_all xs d)"

lemma enqueues_one: "queue d \<noteq> None \<Longrightarrow> x = (logger_name d, item, v) \<Longrightarrow>
    enqueues (\<lambda>d. enqueue (logger_name d, item, v) d) d [x]"
  using enqueue_returns [of d x] by (cases "enqueue x d") (simp add: enqueues_def)

lemma enqueues_nil: "enqueues (ret ()) d []"
  by (simp add: enqueues_def ret_def)

lemma enqueues_block:
  assumes "list_all2 (\<lambda>m xs. \<forall>e. queue e \<noteq> None \<longrightarrow> ents e = ents d \<longrightarrow> logger_name e = logger_name d \<longrightarrow>
      enqueues m e xs) ms xss" and "queue d \<noteq> None"
  shows "enqueues (block ms) d (concat xss)"
proof -
  have "enqueues (block ms) e (concat xss)"
    if "queue e \<noteq> None" "ents e = ents d" "logger_name e = logger_name d" for e
    using assms(1) that
  proof (induction ms xss arbitrary: e rule: list_all2_induct)
    case Nil
    show ?case by (simp add: enqueues_def ret_def)
  next
    case (Cons m ms xs xss)
    then have "m e = (Inr (), enqueue_all xs e)" by (simp add: enqueues_def)
    moreover have "enqueues (block ms) (enqueue_all xs e) (concat xss)"
      using Cons.prems by (intro Cons.IH) simp_all
    ultimately show ?case by (simp add: enqueues_def bind_def)
  qed
  then show ?thesis using assms(2) by blast
qed


lemma enqueues_attr:
  assumes "queue d \<noteq> None"
  shows "enqueues (silently (enqueue_attr a item)) d (attr_samples (logger_name d) (ents d) [(a, item)])"
proof (cases "get_attr a (ents d)")
  case (Inl e)
  then show ?thesis by (simp add: enqueues_def silently_def enqueue_attr_def attr_samples_def pym_simps)
next
  case (Inr v)
  have "fst (enqueue (logger_name d, item, v) d) = Inr ()" using assms by (rule enqueue_returns)
  with Inr show ?thesis
    by (cases "enqueue (logger_name d, item, v) d")
      (simp add: enqueues_def silently_def enqueue_attr_def attr_samples_def pym_simps)
qed

lemma enqueues_temperatures:
  assumes "queue d \<noteq> None"
  shows "enqueues (silently (block [enqueue_attr A_temperature_celsius ''temperature'',
      enqueue_attr A_battery_temperature_celsius ''battery_temperature''])) d
    (temperature_samples (logger_name d) (ents d))"
proof (cases "get_attr A_temperature_celsius (ents d)")
  case (Inl e)
  then show ?thesis
    by (simp add: enqueues_def silently_def enqueue_attr_def temperature_samples_def pym_simps del: get_attr.simps)
next
  case (Inr v)
  let ?x = "(logger_name d, ''temperature'', v)"
  obtain d1 where one: "enqueue ?x d = (Inr (), d1)"
    using enqueue_returns [OF assms, of ?x] by (cases "enqueue ?x d") simp
  then have d1: "ents d1 = ents d" "logger_name d1 = logger_name d" "queue d1 \<noteq> None"
    using enqueue_frame [of ?x d] assms by simp_all
  show ?thesis
  proof (cases "get_attr A_battery_temperature_celsius (ents d)")
    case (Inl e)
    with Inr one d1 show ?thesis
      by (simp add: enqueues_def silently_def temperature_samples_def attr_samples_def pym_simps
          enqueue_attr_def del: get_attr.simps)
  next
    case (Inr w)
    let ?y = "(logger_name d, ''battery_temperature'', w)"
    obtain d2 where "enqueue ?y d1 = (Inr (), d2)"
      using enqueue_returns [OF d1(3), of ?y] by (cases "enqueue ?y d1") simp
    with one Inr d1 \<open>get_attr A_temperature_celsius (ents d) = Inr v\<close> show ?thesis
      by (simp add: enqueues_def silently_def temperature_samples_def attr_samples_def pym_simps
          enqueue_attr_def del: get_attr.simps)
  qed
qed

lemma enqueues_cells:
  assumes "queue d \<noteq> None"
  shows "enqueues (silently (enqueue_cells get ending)) d (cell_samples (logger_name d) (get (ents d)) ending)"
proof (cases "get (ents d)")
  case (Inl e)
  then show ?thesis by (simp add: enqueues_def silently_def enqueue_cells_def cell_samples_def pym_simps)
next
  case (Inr cs)
  let ?m = "\<lambda>(i, v). whenp (num_val v > 0) (\<lambda>d. enqueue (logger_name d, ''cell_'' @ show_int i @ ending, PNum v) d)"
  let ?xs = "\<lambda>(i, v). if num_val v > 0 then [(logger_name d, ''cell_'' @ show_int i @ ending, PNum v)] else []"
  have "enqueues (block (map ?m cs)) d (concat (map ?xs cs))"
  proof (rule enqueues_block [OF _ assms])
    show "list_all2 (\<lambda>m xs. \<forall>e. queue e \<noteq> None \<longrightarrow> ents e = ents d \<longrightarrow> logger_name e = logger_name d \<longrightarrow>
        enqueues m e xs) (map ?m cs) (map ?xs cs)"
      by (induction cs) (auto simp: whenp_def enqueues_nil intro!: enqueues_one)
  qed
  moreover have "concat (map ?xs cs) = cell_samples (logger_name d) (Inr cs) ending"
    by (induction cs) (auto simp: cell_samples_def)
  ultimately show ?thesis
    using Inr by (simp add: enqueues_def silently_def enqueue_cells_def pym_simps)
qed

lemma attr_samples_concat: "attr_samples n e its = concat (map (\<lambda>(a, item). attr_samples n e [(a, item)]) its)"
  by (simp add: attr_samples_def)

text \<open>
  C23: one publication: it never raises, and it offers the queue exactly the samples of the
  device's values, in a fixed order, each with the device's own name.
\<close>

theorem publish_enqueues:
  assumes "queue d \<noteq> None"
  shows "publish d = (Inr (), enqueue_all (samples d) d) \<and> (\<forall>x \<in> set (samples d). fst x = logger_name d)"
proof
  let ?xss = "map (\<lambda>(a, item). attr_samples (logger_name d) (ents d) [(a, item)]) published_items @
    [temperature_samples (logger_name d) (ents d),
     cell_samples (logger_name d) (cell_mvoltages (ents d)) '''',
     cell_samples (logger_name d) (cell_voltages (ents d)) ''_voltage'']"
  have attrs: "list_all2 (\<lambda>m xs. \<forall>e. queue e \<noteq> None \<longrightarrow> ents e = ents d \<longrightarrow> logger_name e = logger_name d \<longrightarrow> enqueues m e xs)
      (map (\<lambda>(a, item). silently (enqueue_attr a item)) its)
      (map (\<lambda>(a, item). attr_samples (logger_name d) (ents d) [(a, item)]) its)" for its
  proof (induction its)
    case (Cons it its)
    have "enqueues (silently (enqueue_attr a item)) e (attr_samples (logger_name d) (ents d) [(a, item)])"
      if "queue e \<noteq> None" "ents e = ents d" "logger_name e = logger_name d" for e a item
      using enqueues_attr [of e a item] that by simp
    then show ?case using Cons by (cases it) auto
  qed simp
  have temps: "enqueues (silently (block [enqueue_attr A_temperature_celsius ''temperature'',
      enqueue_attr A_battery_temperature_celsius ''battery_temperature''])) e
      (temperature_samples (logger_name d) (ents d))"
    if "queue e \<noteq> None" "ents e = ents d" "logger_name e = logger_name d" for e
    using enqueues_temperatures [of e] that by simp
  have cells: "enqueues (silently (enqueue_cells get ending)) e (cell_samples (logger_name d) (get (ents d)) ending)"
    if "queue e \<noteq> None" "ents e = ents d" "logger_name e = logger_name d" for e get ending
    using enqueues_cells [of e get ending] that by simp
  have "enqueues publish d (concat ?xss)"
    unfolding publish_def
  proof (rule enqueues_block [OF _ assms], rule list_all2_appendI [OF attrs])
    show "list_all2 (\<lambda>m xs. \<forall>e. queue e \<noteq> None \<longrightarrow> ents e = ents d \<longrightarrow> logger_name e = logger_name d \<longrightarrow> enqueues m e xs)
        [silently (block [enqueue_attr A_temperature_celsius ''temperature'',
                          enqueue_attr A_battery_temperature_celsius ''battery_temperature'']),
         silently (enqueue_cells cell_mvoltages ''''),
         silently (enqueue_cells cell_voltages ''_voltage'')]
        [temperature_samples (logger_name d) (ents d),
         cell_samples (logger_name d) (cell_mvoltages (ents d)) '''',
         cell_samples (logger_name d) (cell_voltages (ents d)) ''_voltage'']"
      by (simp add: temps cells del: block.simps)
  qed
  moreover have "concat ?xss = samples d"
    by (simp add: samples_def attr_samples_concat [of _ _ published_items])
  ultimately show "publish d = (Inr (), enqueue_all (samples d) d)" by (simp only: enqueues_def)
  have named: "\<forall>x \<in> set (attr_samples n e its). fst x = n" for n e its
    by (auto simp: attr_samples_def split: sum.splits)
  show "\<forall>x \<in> set (samples d). fst x = logger_name d"
    using named by (auto simp: samples_def temperature_samples_def cell_samples_def split: sum.splits)
qed


text \<open>A device with nothing believed yet, for the examples below.\<close>

definition sample_config :: plugin_config where
  "sample_config =
     \<lparr>cfg_notify_chars = [''ffe4''], cfg_write_polling = Some ''ffe9'', cfg_write_commands = None,
      cfg_device_id = Some 255, cfg_need_polling = True, cfg_send_ack = False\<rparr>"

definition sample_device :: "string \<Rightarrow> sample list \<Rightarrow> nat \<Rightarrow> device" where
  "sample_device name its bound =
     (case new_device sample_config name None None (Some \<lparr>items = its, maxsize = bound\<rparr>) of Inr d \<Rightarrow> d)"

lemma sample_device_simps [simp]:
  "queue (sample_device name its bound) = Some \<lparr>items = its, maxsize = bound\<rparr>"
  "ents (sample_device name its bound) = entities_for name"
  "logger_name (sample_device name its bound) = name"
  "dropped (sample_device name its bound) = 0"
  "send_ack (sample_device name its bound) = False"
  by (simp_all add: sample_device_def new_device_def sample_config_def parse_interval_def apply_limit_overrides_def)

theorem publish_enqueues_witness:
  "publish (sample_device ''battery_1'' [] 10) =
     (Inr (), enqueue_all (samples (sample_device ''battery_1'' [] 10)) (sample_device ''battery_1'' [] 10))"
  using publish_enqueues [of "sample_device ''battery_1'' [] 10"] by simp

subsection \<open>A full queue loses the newest samples, and counts them\<close>

definition room :: "'a pyqueue \<Rightarrow> nat \<Rightarrow> nat" where
  "room q n = (if maxsize q = 0 then n else min n (maxsize q - length (items q)))"

text \<open>
  a publication never blocks: as many samples as there is room for are appended in
  order, the rest are dropped and counted, and nothing already queued is touched.
\<close>

theorem enqueue_all_admits:
  assumes "queue d = Some q"
  shows "queue (enqueue_all xs d) = Some (q\<lparr>items := items q @ take (room q (length xs)) xs\<rparr>) \<and>
    dropped (enqueue_all xs d) = dropped d + (length xs - room q (length xs))"
  using assms
proof (induction xs arbitrary: d q)
  case (Cons x xs)
  show ?case
  proof (cases "queue_full q")
    case True
    then have zero: "room q (length xs) = 0" "room q (length (x # xs)) = 0"
      by (auto simp: room_def queue_full_def)
    have "snd (enqueue x d) = d\<lparr>queue := Some q, dropped := dropped d + 1\<rparr>"
      using True Cons.prems by (simp add: run_enqueue)
    with Cons.IH [of "snd (enqueue x d)" q] zero show ?thesis by simp
  next
    case False
    let ?q = "q\<lparr>items := items q @ [x]\<rparr>"
    have room: "room q (length (x # xs)) = Suc (room ?q (length xs))"
      using False by (auto simp: room_def queue_full_def)
    have "snd (enqueue x d) = d\<lparr>queue := Some ?q, dropped := dropped d\<rparr>"
      using False Cons.prems by (simp add: run_enqueue)
    with Cons.IH [of "snd (enqueue x d)" ?q] room show ?thesis by simp
  qed
qed (simp add: room_def)

theorem enqueue_all_admits_witness:
  "dropped (enqueue_all [(''a'', ''soc'', PNone), (''a'', ''state'', PNone), (''a'', ''health'', PNone)]
     (sample_device ''battery_1'' [(''b'', ''soc'', PNone)] 2)) = 2"
  using enqueue_all_admits [of "sample_device ''battery_1'' [(''b'', ''soc'', PNone)] 2"
      "\<lparr>items = [(''b'', ''soc'', PNone)], maxsize = 2\<rparr>"
      "[(''a'', ''soc'', PNone), (''a'', ''state'', PNone), (''a'', ''health'', PNone)]"]
  by (simp add: room_def del: enqueue_all_simps)

subsection \<open>The contract of a plugin\<close>

text \<open>
  A device is well formed when its entities are and its queue is within its bound. What a
  plugin promises: its operations keep the device well formed and change neither its name
  nor whether it has a queue, whether they return or raise.
\<close>

definition wf_device :: "device \<Rightarrow> bool" where
  "wf_device d \<longleftrightarrow> wf_entities (ents d) \<and> (\<forall>q. queue d = Some q \<longrightarrow> within_bound q)"

lemma wf_device_enqueue: "wf_device d \<Longrightarrow> wf_device (snd (enqueue x d))"
  using within_bound_try_put [of "the (queue d)" x]
  by (auto simp: wf_device_def enqueue_def run_try_put split: option.splits)

lemma wf_on_ents: "preserves wf_entities m \<Longrightarrow> preserves wf_device (on_ents m)"
  by (rule preservesI) (auto simp: on_ents_def wf_device_def split: prod.splits dest: preservesD2)

lemma wf_enqueue [pres]: "preserves wf_device (\<lambda>d. enqueue (f d) d)"
  by (rule preservesI) (rule wf_device_enqueue)

lemma wf_assign_switch [pres]: "preserves wf_device (assign_switch v)"
proof (rule preservesI)
  fix d assume d: "wf_device d"
  have "wf_entities (snd (set_power_switch v (ents d)))"
    using d by (intro wf_set_power_switch) (simp add: wf_device_def)
  with d have e: "wf_device (d\<lparr>ents := snd (set_power_switch v (ents d))\<rparr>)" by (simp add: wf_device_def)
  have send: "preserves wf_device (try_except (enqueue x) (\<lambda>_. ret ()))" for x
    by (intro preserves_try preserves_ret preservesI wf_device_enqueue)
  show "wf_device (snd (assign_switch v d))"
  proof (cases "set_power_switch v (ents d)")
    case (Pair r e')
    then show ?thesis
      using e send [of "(logger_name d, ''power_switch'', the r)"]
      by (cases r) (auto simp: assign_switch_def dest: preservesD)
  qed
qed

lemma wf_assign_attr [pres]: "preserves wf_device (assign_attr a v)"
  by (simp add: assign_attr_def wf_assign_switch wf_on_ents wf_set_attr)

lemma wf_assign_cell [pres]: "preserves wf_device (assign_cell i v)"
  by (simp add: assign_cell_def wf_on_ents wf_set_cell_mvoltage)

lemma wf_assign_msg [pres]: "preserves wf_device (assign_msg m)"
  unfolding assign_msg_def by (intro wf_on_ents preserves_modify) simp

lemma wf_write [pres]: "preserves wf_device (characteristic_write_value x c)"
  by (rule preservesI)
    (auto simp: characteristic_write_value_def wf_device_def split: option.splits sum.splits)

lemma wf_write_to [pres]:
  "preserves wf_device (write_to_polling x)" "preserves wf_device (write_to_commands x)"
  using wf_write by (auto simp: preserves_def write_to_polling_def write_to_commands_def)


definition keeps :: "('u \<Rightarrow> bool) \<Rightarrow> 'u \<times> device \<Rightarrow> bool" where
  "keeps util_inv = (\<lambda>(u, d). util_inv u \<and> wf_device d)"

lemma keeps_on_device [pres]: "preserves wf_device m \<Longrightarrow> preserves (keeps util_inv) (on_device m)"
  by (rule preservesI) (auto simp: keeps_def on_device_def split: prod.splits dest: preservesD2)

lemma keeps_on_util [pres]: "preserves util_inv m \<Longrightarrow> preserves (keeps util_inv) (on_util m)"
  by (rule preservesI) (auto simp: keeps_def on_util_def split: prod.splits dest: preservesD2)

lemma preserves_silently [pres]: "preserves P m \<Longrightarrow> preserves P (silently m)"
  unfolding silently_def by (intro pres)

lemma preserves_read [pres]: "preserves P (\<lambda>s. (f s, s))"
  by (simp add: preserves_def)

lemma preserves_reader:
  assumes "\<And>n. preserves P (g n)" shows "preserves P (\<lambda>s. g (h s) s)"
  using assms by (simp add: preserves_def)

lemma wf_enqueue_attr [pres]: "preserves wf_device (enqueue_attr a item)"
  unfolding enqueue_attr_def by (intro pres)

lemma wf_enqueue_cells [pres]: "preserves wf_device (enqueue_cells get ending)"
proof -
  have "preserves wf_device (block (map (\<lambda>(i, v). whenp (num_val v > 0)
      (\<lambda>d. enqueue (logger_name d, ''cell_'' @ show_int i @ ending, PNum v) d)) cs))" for cs
    by (intro preserves_block) (auto intro!: preserves_whenp wf_enqueue)
  then show ?thesis unfolding enqueue_cells_def by (intro preserves_bind preserves_read)
qed

lemma wf_publish [pres]: "preserves wf_device publish"
  unfolding publish_def
proof (rule preserves_block)
  have temps: "preserves wf_device (block [enqueue_attr A_temperature_celsius ''temperature'',
      enqueue_attr A_battery_temperature_celsius ''battery_temperature''])"
    by (rule preserves_block) (auto intro: wf_enqueue_attr)
  fix m
  assume "m \<in> set (map (\<lambda>(a, item). silently (enqueue_attr a item)) published_items @
        [silently (block [enqueue_attr A_temperature_celsius ''temperature'',
                          enqueue_attr A_battery_temperature_celsius ''battery_temperature'']),
         silently (enqueue_cells cell_mvoltages ''''),
         silently (enqueue_cells cell_voltages ''_voltage'')])"
  then show "preserves wf_device m"
    using temps by (auto intro!: preserves_silently wf_enqueue_attr wf_enqueue_cells simp del: block.simps)
qed

text \<open>What reaches a device while its link is up: notifications, polls, commands.\<close>

datatype link_event = Notified uuid bytes | Polled | Command string string

fun event_ok :: "link_event \<Rightarrow> bool" where
  "event_ok (Notified c value) = is_bytes value"
| "event_ok _ = True"

fun serve_event :: "'u plugin \<Rightarrow> link_event \<Rightarrow> 'u \<times> device \<Rightarrow> 'u \<times> device" where
  "serve_event p (Notified c value) s = snd (notify_callback p c value s)"
| "serve_event p Polled s = snd (get_poll_data p s)"
| "serve_event p (Command var message) s = snd (run_command p var message s)"

definition serve :: "'u plugin \<Rightarrow> link_event list \<Rightarrow> 'u \<times> device \<Rightarrow> 'u \<times> device" where
  "serve p es s = foldl (\<lambda>s e. serve_event p e s) s es"

locale plugin_contract =
  fixes p :: "'u plugin" and util_inv :: "'u \<Rightarrow> bool"
  assumes notification_keeps: "is_bytes value \<Longrightarrow> preserves (keeps util_inv) (notification p value c)"
    and poll_keeps: "preserves (keeps util_inv) (poll_request p)"
    and ack_keeps: "preserves (keeps util_inv) (ack_data p value)"
    and cmd_keeps: "cmd_request p = Some cmd \<Longrightarrow> preserves (keeps util_inv) (cmd var message)"
begin

lemma on_notification_keeps:
  assumes "is_bytes value" shows "preserves (keeps util_inv) (on_notification p c value)"
proof -
  have ack: "preserves (keeps util_inv) (bind (ack_data p value) (\<lambda>x. on_device (write_to_polling x)))"
    by (intro preserves_bind ack_keeps keeps_on_device wf_write_to)
  have upd: "preserves (keeps util_inv) (bind (notification p value c) (\<lambda>updated. whenp updated (on_device publish)))"
    by (intro preserves_bind notification_keeps assms preserves_whenp keeps_on_device wf_publish)
  show ?thesis
    unfolding on_notification_def
    by (intro preserves_bind preserves_gets preserves_block)
      (use ack upd in \<open>auto intro: preserves_whenp\<close>)
qed

lemma notify_keeps: "is_bytes value \<Longrightarrow> preserves (keeps util_inv) (notify_callback p c value)"
  unfolding notify_callback_def by (intro preserves_try preserves_ret on_notification_keeps)

lemma command_keeps: "preserves (keeps util_inv) (run_command p var message)"
proof (cases "cmd_request p")
  case (Some cmd)
  have "preserves (keeps util_inv) (block (map (\<lambda>x. on_device (write_to_commands x)) datas))" for datas
    by (intro preserves_block) (auto intro!: keeps_on_device wf_write_to)
  with Some show ?thesis
    unfolding run_command_def by (auto intro!: preserves_bind cmd_keeps [OF Some])
qed (simp add: run_command_def preserves_ret)

lemma serve_event_keeps: "event_ok e \<Longrightarrow> keeps util_inv s \<Longrightarrow> keeps util_inv (serve_event p e s)"
  by (cases e) (auto intro: preservesD [OF notify_keeps] preservesD [OF command_keeps]
      preservesD [OF poll_keeps] simp: get_poll_data_def)

lemma serve_keeps: "list_all event_ok es \<Longrightarrow> keeps util_inv s \<Longrightarrow> keeps util_inv (serve p es s)"
  by (induction es arbitrary: s) (auto simp: serve_def serve_event_keeps)

lemma serve_device: "list_all event_ok es \<Longrightarrow> util_inv u \<Longrightarrow> wf_device d \<Longrightarrow> wf_device (snd (serve p es (u, d)))"
  using serve_keeps [of es "(u, d)"] by (auto simp: keeps_def)

lemma serve_util: "list_all event_ok es \<Longrightarrow> util_inv u \<Longrightarrow> wf_device d \<Longrightarrow> util_inv (fst (serve p es (u, d)))"
  using serve_keeps [of es "(u, d)"] by (auto simp: keeps_def)

end


definition raising_plugin :: "unit plugin" where
  "raising_plugin = \<lparr>notification = (\<lambda>v c. throw IndexError), poll_request = ret NoData,
     cmd_request = None, ack_data = (\<lambda>v. ret NoData)\<rparr>"


text \<open>The constructor gives a well-formed device.\<close>

lemma wf_new_device:
  "new_device cfg name section interval (Some q) = Inr d \<Longrightarrow> within_bound q \<Longrightarrow> wf_device d"
  by (auto simp: new_device_def wf_device_def wf_created split: sum.splits)


subsection \<open>Assignments on a well-formed device return\<close>

lemma returns_on_device: "never_raises wf_device m \<Longrightarrow> never_raises (keeps util_inv) (on_device m)"
proof (rule never_raisesI)
  assume m: "never_raises wf_device m"
  show "\<not> isl (fst (on_device m s))" if "keeps util_inv s" for s
    using never_raisesD [OF m, of "snd s"] that by (auto simp: keeps_def on_device_def)
  show "keeps util_inv (snd (on_device m s))" if "keeps util_inv s" for s
    using never_raisesD [OF m, of "snd s"] that by (auto simp: keeps_def on_device_def)
qed

lemma returns_on_util:
  "(\<And>u. util_inv u \<Longrightarrow> util_inv (f u)) \<Longrightarrow> never_raises (keeps util_inv) (on_util (modify f))"
  by (auto simp: never_raises_def keeps_def on_util_def modify_def)

lemma never_raises_preserves: "never_raises P m \<Longrightarrow> preserves P m"
  by (simp add: never_raises_def preserves_def)

lemma returns_on_ents:
  assumes "preserves wf_entities m" and "\<And>e. wf_entities e \<Longrightarrow> \<not> isl (fst (m e))"
  shows "never_raises wf_device (on_ents m)"
proof (rule never_raisesI)
  show "wf_device d \<Longrightarrow> \<not> isl (fst (on_ents m d))" for d
    using assms(2) [of "ents d"] by (cases "m (ents d)") (simp add: on_ents_def wf_device_def)
  show "wf_device d \<Longrightarrow> wf_device (snd (on_ents m d))" for d
    using assms(1) by (rule preservesD [OF wf_on_ents])
qed

lemma returns_assign_switch: "never_raises wf_device (assign_switch v)"
proof (rule never_raisesI)
  show "wf_device d \<Longrightarrow> \<not> isl (fst (assign_switch v d))" for d
    by (auto simp: assign_switch_def pym_simps split: option.splits prod.splits sum.splits)
  show "wf_device d \<Longrightarrow> wf_device (snd (assign_switch v d))" for d
    by (rule preservesD [OF wf_assign_switch])
qed

lemma returns_assign_attr: "a \<noteq> A_state \<Longrightarrow> a \<noteq> A_health \<Longrightarrow> never_raises wf_device (assign_attr a v)"
  using set_attr_raises_only [of _ a v]
  by (auto simp: assign_attr_def returns_assign_switch intro!: returns_on_ents wf_set_attr)

lemma returns_assign_msg: "never_raises wf_device (assign_msg m)"
  unfolding assign_msg_def
  by (rule returns_on_ents) (simp_all add: preserves_def pym_simps)

lemma returns_assign_cell:
  assumes "1 \<le> i" and "i \<le> 16" shows "never_raises wf_device (assign_cell i v)"
  unfolding assign_cell_def
proof (rule returns_on_ents [OF wf_set_cell_mvoltage])
  fix e assume e: "wf_entities e"
  show "\<not> isl (fst (set_cell_mvoltage i v e))"
  proof (cases "kind e = Battery")
    case True
    with e have "map fst (cells e) = [1..16]" by (simp add: wf_entities_def wf_cells_def)
    then have "fst ` set (cells e) = {1..16}" by (metis set_map set_upto)
    with assms True show ?thesis by (simp add: set_cell_mvoltage_def with_cell_def)
  qed (simp add: set_cell_mvoltage_def pym_simps)
qed

lemmas returns =
  never_raises_basic never_raises_bind never_raises_whenp returns_on_device returns_assign_msg


end
