(* ===== verification/Asciihex.thy ===== *)
theory Asciihex
  imports PyNumbers
begin

section \<open>asciihex.py: ASCII-hex fields and the additive checksum\<close>

text \<open>
  The field reader and the checksum of \<open>asciihex.py\<close>, with Python's \<open>int(text, 16)\<close> written
  out: it accepts surrounding white space, a sign, a \<open>0x\<close> prefix and single underscores, so a
  corrupted pair can read as a number without being two hex digits. The characters are the
  code points of \<open>chr(byte)\<close> for a byte, 0 to 255.
\<close>

subsection \<open>int(text, 16)\<close>

definition is_py_space :: "int \<Rightarrow> bool" where
  "is_py_space c \<longleftrightarrow> c \<in> {9, 10, 11, 12, 13, 32, 133, 160}"

definition digit16 :: "int \<Rightarrow> int option" where
  "digit16 c =
     (if 48 \<le> c \<and> c \<le> 57 then Some (c - 48)
      else if 65 \<le> c \<and> c \<le> 70 then Some (c - 55)
      else if 97 \<le> c \<and> c \<le> 102 then Some (c - 87)
      else None)"

text \<open>The digits after the first: \<open>prev\<close> says that an underscore came just before.\<close>

fun digits16 :: "bool \<Rightarrow> int \<Rightarrow> int list \<Rightarrow> int option" where
  "digits16 prev acc [] = (if prev then None else Some acc)"
| "digits16 prev acc (c # cs) =
     (if c = 95 then (if prev then None else digits16 True acc cs)
      else case digit16 c of None \<Rightarrow> None | Some d \<Rightarrow> digits16 False (acc * 16 + d) cs)"

fun digits16_start :: "int list \<Rightarrow> int option" where
  "digits16_start [] = None"
| "digits16_start (c # cs) = (case digit16 c of None \<Rightarrow> None | Some d \<Rightarrow> digits16 False d cs)"

fun drop_prefix16 :: "int list \<Rightarrow> int list" where
  "drop_prefix16 (z # x # r) =
     (if z = 48 \<and> (x = 120 \<or> x = 88) then (if r \<noteq> [] \<and> hd r = 95 then tl r else r)
      else z # x # r)"
| "drop_prefix16 cs = cs"

definition py_strip :: "int list \<Rightarrow> int list" where
  "py_strip cs = rev (dropWhile is_py_space (rev (dropWhile is_py_space cs)))"

definition py_int16 :: "int list \<Rightarrow> int option" where
  "py_int16 text =
     (case py_strip text of
        [] \<Rightarrow> None
      | c # cs \<Rightarrow>
          if c = 43 then digits16_start (drop_prefix16 cs)
          else if c = 45 then map_option uminus (digits16_start (drop_prefix16 cs))
          else digits16_start (drop_prefix16 (c # cs)))"

subsection \<open>field_value and checksum_matches\<close>

text \<open>\<open>zip(characters[0::2], characters[1::2])\<close>: an odd last character is dropped.\<close>

fun pairs :: "'a list \<Rightarrow> 'a list list" where
  "pairs (a # b # cs) = [a, b] # pairs cs"
| "pairs _ = []"

definition field_value :: "bytes \<Rightarrow> int \<Rightarrow> int \<Rightarrow> int \<Rightarrow> int" where
  "field_value frame start stop dflt =
     (if start < 0 \<or> stop < start \<or> int (length frame) \<le> stop then dflt
      else case py_int16 (concat (rev (pairs (section_of frame (nat start) (nat stop + 1))))) of
             None \<Rightarrow> dflt
           | Some v \<Rightarrow> v)"

text \<open>The summing loop: the running total and the position it stops at.\<close>

function checksum_loop :: "bytes \<Rightarrow> int \<Rightarrow> int \<Rightarrow> int \<Rightarrow> int \<times> int" where
  "checksum_loop frame content_end tot position =
     (if position < content_end - 5
      then checksum_loop frame content_end
             (tot + field_value frame position (position + 1) 0) (position + 2)
      else (tot, position))"
  by pat_completeness auto
termination
  by (relation "measure (\<lambda>(frame, content_end, tot, position). nat (content_end - position))") auto

declare checksum_loop.simps [simp del]

definition checksum_matches :: "bytes \<Rightarrow> int \<Rightarrow> bool" where
  "checksum_matches frame content_end =
     (let (tot, position) = checksum_loop frame content_end 0 1;
          stated = field_value frame position (position + 1) 0 * 256
                   + field_value frame (position + 2) (position + 3) 0
      in tot = stated)"

lemma field_value_outside [simp]:
  "int (length frame) \<le> stop \<Longrightarrow> field_value frame start stop dflt = dflt"
  by (simp add: field_value_def)

subsection \<open>The encoding the devices use\<close>

text \<open>A byte as two upper-case hex characters, and an \<open>n\<close>-byte field, low byte first.\<close>

definition hex_digit :: "int \<Rightarrow> int" where
  "hex_digit d = (if d < 10 then d + 48 else d + 55)"

definition hex_byte :: "int \<Rightarrow> int list" where
  "hex_byte b = [hex_digit (b div 16), hex_digit (b mod 16)]"

fun le_bytes :: "nat \<Rightarrow> int \<Rightarrow> int list" where
  "le_bytes 0 v = []"
| "le_bytes (Suc n) v = v mod 256 # le_bytes n (v div 256)"

definition hex_field :: "nat \<Rightarrow> int \<Rightarrow> int list" where
  "hex_field n v = concat (map hex_byte (le_bytes n v))"

definition is_hex_char :: "int \<Rightarrow> bool" where
  "is_hex_char c \<longleftrightarrow> (48 \<le> c \<and> c \<le> 57) \<or> (65 \<le> c \<and> c \<le> 70)"

lemma length_le_bytes [simp]: "length (le_bytes n v) = n"
  by (induction n arbitrary: v) auto

lemma is_bytes_le_bytes [simp]: "is_bytes (le_bytes n v)"
  by (induction n arbitrary: v) (auto simp: is_byte_def)

lemma length_hex_byte [simp]: "length (hex_byte b) = 2"
  by (simp add: hex_byte_def)

lemma length_concat_hex [simp]: "length (concat (map hex_byte bs)) = 2 * length bs"
  by (induction bs) auto

lemma length_hex_field [simp]: "length (hex_field n v) = 2 * n"
  by (simp add: hex_field_def)

lemma hex_digit_char: "0 \<le> d \<Longrightarrow> d < 16 \<Longrightarrow> is_hex_char (hex_digit d)"
  by (simp add: hex_digit_def is_hex_char_def)

lemma digit16_hex_digit: "0 \<le> d \<Longrightarrow> d < 16 \<Longrightarrow> digit16 (hex_digit d) = Some d"
  by (simp add: hex_digit_def digit16_def)

lemma nibbles: "is_byte b \<Longrightarrow> 0 \<le> b div 16 \<and> b div 16 < 16 \<and> 0 \<le> b mod 16 \<and> b mod 16 < 16"
  by (auto simp: is_byte_def)

lemma nibble_rule: "0 \<le> n \<Longrightarrow> n < 16 \<Longrightarrow> list_all P [0..15] \<Longrightarrow> P n" for n :: int
  by (simp add: list_all_iff)

lemma hex_byte_chars: "is_byte b \<Longrightarrow> list_all is_hex_char (hex_byte b)"
  using nibbles [of b] by (simp add: hex_byte_def hex_digit_char del: pos_imp_zdiv_nonneg_iff)

lemma hex_bytes_chars: "is_bytes bs \<Longrightarrow> list_all is_hex_char (concat (map hex_byte bs))"
  by (induction bs) (auto simp: hex_byte_chars)

text \<open>Over hex characters the parser is positional notation.\<close>

definition hex_value :: "int list \<Rightarrow> int" where
  "hex_value cs = foldl (\<lambda>a c. a * 16 + the (digit16 c)) 0 cs"

lemma hex_char_digit: "is_hex_char c \<Longrightarrow> \<exists>d. digit16 c = Some d \<and> 0 \<le> d \<and> d < 16"
  by (auto simp: is_hex_char_def digit16_def)

lemma hex_char_plain: "is_hex_char c \<Longrightarrow> \<not> is_py_space c \<and> c \<noteq> 43 \<and> c \<noteq> 45 \<and> c \<noteq> 95 \<and> c \<noteq> 120 \<and> c \<noteq> 88"
  by (auto simp: is_hex_char_def is_py_space_def)

lemma digits16_hex:
  "list_all is_hex_char cs \<Longrightarrow>
   digits16 False acc cs = Some (foldl (\<lambda>a c. a * 16 + the (digit16 c)) acc cs)"
  by (induction cs arbitrary: acc) (auto dest: hex_char_digit hex_char_plain)

lemma py_strip_hex: "list_all is_hex_char cs \<Longrightarrow> py_strip cs = cs"
proof -
  assume h: "list_all is_hex_char cs"
  have id: "dropWhile is_py_space xs = xs" if "list_all is_hex_char xs" for xs
    using that by (cases xs) (auto dest: hex_char_plain)
  from h have "list_all is_hex_char (rev cs)" by (simp add: list_all_iff)
  with h show ?thesis by (simp add: py_strip_def id)
qed

lemma drop_prefix16_hex: "list_all is_hex_char cs \<Longrightarrow> drop_prefix16 cs = cs"
  by (induction cs rule: drop_prefix16.induct) (auto simp: is_hex_char_def)

lemma py_int16_hex:
  assumes "list_all is_hex_char cs" and "cs \<noteq> []"
  shows "py_int16 cs = Some (hex_value cs)"
proof -
  obtain c r where cs: "cs = c # r" using assms(2) by (cases cs) auto
  with assms have c: "is_hex_char c" and r: "list_all is_hex_char r" by auto
  obtain d where d: "digit16 c = Some d" using hex_char_digit [OF c] by blast
  have "py_int16 cs = digits16_start (drop_prefix16 cs)"
    using hex_char_plain [OF c] by (simp add: py_int16_def py_strip_hex [OF assms(1)]) (simp add: cs)
  also have "\<dots> = Some (hex_value cs)"
    by (simp add: drop_prefix16_hex [OF assms(1)]) (simp add: cs d digits16_hex [OF r] hex_value_def)
  finally show ?thesis .
qed

lemma hex_value_append:
  "hex_value (xs @ ys) = hex_value xs * 16 ^ length ys + hex_value ys"
proof (induction ys rule: rev_induct)
  case (snoc y ys)
  have "hex_value (zs @ [y]) = hex_value zs * 16 + the (digit16 y)" for zs
    by (simp add: hex_value_def)
  from this [of "xs @ ys"] this [of ys] snoc show ?case by (simp add: algebra_simps)
qed (simp add: hex_value_def)

lemma hex_value_byte: "is_byte b \<Longrightarrow> hex_value (hex_byte b) = b"
  using nibbles [of b] by (simp only: hex_value_def hex_byte_def) (simp add: digit16_hex_digit)

subsection \<open>Reading a field returns what was encoded\<close>

definition le_value :: "int list \<Rightarrow> int" where
  "le_value bs = foldr (\<lambda>b a. b + 256 * a) bs 0"

lemma le_value_simps [simp]:
  "le_value [] = 0"
  "le_value (b # bs) = b + 256 * le_value bs"
  by (simp_all add: le_value_def)

lemma le_value_le_bytes: "le_value (le_bytes n v) = v mod 256 ^ n"
proof (induction n arbitrary: v)
  case (Suc n)
  have "v mod (256 * 256 ^ n) = 256 * (v div 256 mod 256 ^ n) + v mod 256"
    by (rule zmod_zmult2_eq) simp
  with Suc show ?case by simp
qed simp

lemma hex_value_le:
  "is_bytes bs \<Longrightarrow> hex_value (concat (rev (map hex_byte bs))) = le_value bs"
  by (induction bs) (auto simp: hex_value_append hex_value_byte hex_value_def [of "[]"])

lemma pairs_hex: "pairs (concat (map hex_byte bs)) = map hex_byte bs"
  by (induction bs) (auto simp: hex_byte_def)

lemma section_of_middle:
  "length ys = n \<Longrightarrow> section_of (xs @ ys @ zs) (length xs) (length xs + n) = ys"
  by (simp add: section_of_def)

lemma field_value_at:
  assumes "is_bytes bs" and "bs \<noteq> []"
    and "i = int (length pre)" and "j = int (length pre + 2 * length bs) - 1"
  shows "field_value (pre @ concat (map hex_byte bs) @ post) i j dflt = le_value bs"
proof -
  let ?f = "pre @ concat (map hex_byte bs) @ post"
  have len: "0 < length bs" using assms(2) by simp
  have "nat j + 1 = length pre + 2 * length bs" and "nat i = length pre"
    using assms(3,4) len by arith+
  then have sl: "section_of ?f (nat i) (nat j + 1) = concat (map hex_byte bs)"
    using section_of_middle [of "concat (map hex_byte bs)" "2 * length bs" pre post] by simp
  have chars: "list_all is_hex_char (concat (rev (map hex_byte bs)))"
    using hex_bytes_chars [of "rev bs"] assms(1)
    by (simp add: rev_map is_bytes_def list_all_iff)
  have ne: "concat (rev (map hex_byte bs)) \<noteq> []"
    using assms(2) by (cases bs) (auto simp: hex_byte_def)
  have "py_int16 (concat (rev (pairs (section_of ?f (nat i) (nat j + 1))))) = Some (le_value bs)"
    by (simp only: sl pairs_hex py_int16_hex [OF chars ne] hex_value_le [OF assms(1)])
  moreover have "\<not> (i < 0 \<or> j < i \<or> int (length ?f) \<le> j)"
    using assms(3,4) len by (simp del: length_greater_0_conv)
  ultimately show ?thesis unfolding field_value_def by simp
qed

lemma field_roundtrip_value:
  assumes "0 < n" and "0 \<le> v" and "v < 256 ^ n"
  shows "field_value (pre @ hex_field n v @ post) (int (length pre))
           (int (length pre + 2 * n) - 1) dflt = v"
proof -
  have "le_bytes n v \<noteq> []" using assms(1) by (cases n) auto
  then have "field_value (pre @ hex_field n v @ post) (int (length pre))
      (int (length pre + 2 * n) - 1) dflt = le_value (le_bytes n v)"
    unfolding hex_field_def by (intro field_value_at) auto
  with assms show ?thesis by (simp add: le_value_le_bytes)
qed

text \<open>
  C33: a field written the way the devices write it (each byte as two hex characters, low
  byte first) reads back as its value, wherever it stands in the frame.
\<close>

theorem field_roundtrip:
  assumes "0 < n" and "0 \<le> v" and "v < 256 ^ n"
  shows "field_value (pre @ hex_field n v @ post) (int (length pre))
           (int (length pre + 2 * n) - 1) dflt = v"
  using assms by (rule field_roundtrip_value)

theorem field_roundtrip_witness:
  "(13953 :: int) < 256 ^ 4 \<and>
   field_value ([146] @ hex_field 4 13953 @ [12]) (int (length [146 :: int]))
     (int (length [146 :: int] + 2 * 4) - 1) 0 = 13953"
  using field_roundtrip [of 4 13953 "[146]" "[12]" 0] by simp

subsection \<open>What the checksum accepts\<close>

lemma field_pair:
  assumes "is_byte b" and "drop (nat p) frame = hex_byte b @ post" and "0 \<le> p"
  shows "field_value frame p (p + 1) dflt = b"
proof -
  have "nat p \<le> length frame" using assms(2) by (cases "nat p \<le> length frame") (auto simp: hex_byte_def)
  then have "frame = take (nat p) frame @ concat (map hex_byte [b]) @ post"
    using assms(2) by (metis append_Nil2 append_take_drop_id concat.simps list.simps(8,9))
  moreover have "field_value (take (nat p) frame @ concat (map hex_byte [b]) @ post) p (p + 1) dflt = le_value [b]"
    using assms(1,3) \<open>nat p \<le> length frame\<close> by (intro field_value_at) auto
  ultimately show ?thesis by (simp del: concat.simps)
qed

lemma checksum_loop_fields:
  assumes "is_bytes bs" and "0 \<le> p" and "drop (nat p) frame = concat (map hex_byte bs) @ post"
    and "p + 2 * int (length bs) - 1 \<le> e - 5" and "e - 5 \<le> p + 2 * int (length bs)"
  shows "checksum_loop frame e tot p = (tot + sum_list bs, p + 2 * int (length bs))"
  using assms
proof (induction bs arbitrary: p tot)
  case Nil
  then show ?case by (subst checksum_loop.simps) simp
next
  case (Cons b bs)
  have "drop (nat (p + 2)) frame = drop 2 (drop (nat p) frame)"
    using Cons.prems(2) by (simp add: nat_add_distrib add.commute)
  then have "drop (nat (p + 2)) frame = concat (map hex_byte bs) @ post"
    using Cons.prems(3) by simp
  moreover have "field_value frame p (p + 1) 0 = b"
    using Cons.prems by (intro field_pair [where post = "concat (map hex_byte bs) @ post"]) auto
  moreover have "p < e - 5" using Cons.prems(4) by simp
  ultimately show ?case
    using Cons.prems Cons.IH [of "p + 2" "tot + b"]
    by (subst checksum_loop.simps) (simp add: algebra_simps)
qed

text \<open>
  A frame as the devices send it: a marker, the payload bytes as hex pairs, the 16-bit
  checksum as two more pairs (high byte first), and whatever padding follows.
  \<open>content_end\<close> is the offset behind the first padding byte.
\<close>

definition ah_frame :: "int \<Rightarrow> bytes \<Rightarrow> int \<Rightarrow> int \<Rightarrow> bytes \<Rightarrow> bytes" where
  "ah_frame marker payload hi lo padding =
     marker # concat (map hex_byte payload) @ hex_byte hi @ hex_byte lo @ padding"

lemma frame_checksum_iff:
  assumes "is_bytes payload" and "is_byte hi" and "is_byte lo"
    and "e = 2 * int (length payload) + 5 \<or> e = 2 * int (length payload) + 6"
  shows "checksum_matches (ah_frame marker payload hi lo padding) e
           \<longleftrightarrow> sum_list payload = hi * 256 + lo"
proof -
  let ?f = "ah_frame marker payload hi lo padding" and ?n = "length payload"
  have loop: "checksum_loop ?f e 0 1 = (0 + sum_list payload, 1 + 2 * int ?n)"
    using assms by (intro checksum_loop_fields) (auto simp: ah_frame_def)
  have d1: "drop (nat (1 + 2 * int ?n)) ?f = hex_byte hi @ hex_byte lo @ padding"
    by (simp add: ah_frame_def nat_add_distrib nat_mult_distrib)
  have "drop (nat (1 + 2 * int ?n + 2)) ?f = drop 2 (drop (nat (1 + 2 * int ?n)) ?f)"
    by (simp only: drop_drop) (simp add: nat_add_distrib numeral_3_eq_3)
  then have d2: "drop (nat (1 + 2 * int ?n + 2)) ?f = hex_byte lo @ padding"
    by (simp only: d1) simp
  have "field_value ?f (1 + 2 * int ?n) (1 + 2 * int ?n + 1) 0 = hi"
    by (rule field_pair [OF assms(2) d1]) simp
  moreover have "field_value ?f (1 + 2 * int ?n + 2) (1 + 2 * int ?n + 3) 0 = lo"
    using field_pair [OF assms(3) d2, of 0] by simp
  ultimately show ?thesis by (simp add: checksum_matches_def loop)
qed

text \<open>
  the checksum test accepts such a frame exactly when the two checksum fields hold the
  sum of the payload bytes, for either parity of \<open>content_end\<close>.
\<close>

theorem checksum_matches_iff:
  assumes "is_bytes payload" and "is_byte hi" and "is_byte lo"
    and "e = 2 * int (length payload) + 5 \<or> e = 2 * int (length payload) + 6"
  shows "checksum_matches (ah_frame marker payload hi lo padding) e
           \<longleftrightarrow> sum_list payload = hi * 256 + lo"
  using assms by (rule frame_checksum_iff)

theorem checksum_matches_iff_witness:
  "checksum_matches (ah_frame 146 [0x81, 0x36, 0, 0] 0 0xB7 [12, 12]) 14"
  using checksum_matches_iff [of "[0x81, 0x36, 0, 0]" 0 "0xB7" 14 146 "[12, 12]"]
  by (simp add: is_byte_def)

text \<open>
  an error confined to one payload byte is always detected, also when it hits both of
  its hex characters.
\<close>

theorem checksum_detects_one_byte:
  assumes "is_bytes payload" and "is_byte hi" and "is_byte lo"
    and "e = 2 * int (length payload) + 5 \<or> e = 2 * int (length payload) + 6"
    and "checksum_matches (ah_frame marker payload hi lo padding) e"
    and "i < length payload" and "is_byte b" and "b \<noteq> payload ! i"
  shows "\<not> checksum_matches (ah_frame marker (payload[i := b]) hi lo padding) e"
proof -
  have "is_bytes (payload[i := b])"
    using assms(1,7) set_update_subset_insert [of payload i b] by (auto simp: is_bytes_def list_all_iff)
  moreover have "sum_list (payload[i := b]) = sum_list payload + b - payload ! i"
    using assms(6) by (rule sum_list_int_update)
  ultimately show ?thesis
    using assms frame_checksum_iff [of payload hi lo e marker padding]
      frame_checksum_iff [of "payload[i := b]" hi lo e marker padding]
    by auto
qed

theorem checksum_detects_one_byte_witness:
  "\<not> checksum_matches (ah_frame 146 ([0x81, 0x36, 0, 0][1 := 0x37]) 0 0xB7 [12, 12]) 14"
proof (rule checksum_detects_one_byte [of "[0x81, 0x36, 0, 0]" 0 "0xB7" 14 146 "[12, 12]" 1 "0x37"])
  show "checksum_matches (ah_frame 146 [0x81, 0x36, 0, 0] 0 0xB7 [12, 12]) 14"
    by code_simp
qed (simp_all add: is_byte_def)

text \<open>
  What it cannot see, and why the Meritsun parser checks the characters of a field itself:
  a \<open>00\<close> pair corrupted to something that is no number counts as 0 as well.
\<close>

lemma checksum_blind_to_unparsable:
  "checksum_matches [146, 48, 49, 48, 48, 48, 48, 48, 49, 12] 10"
  "checksum_matches [146, 48, 49, 255, 48, 48, 48, 48, 49, 12] 10"
  by code_simp+

text \<open>A sign makes a pair negative: \<open>''-1''\<close> reads as \<open>- 1\<close>.\<close>

lemma field_value_signed: "field_value [45, 49] 0 1 0 = - 1"
  by code_simp

end
