(* ===== verification/Codec.thy ===== *)
theory Codec
  imports PyNumbers "HOL-Library.Word"
begin

section \<open>codec.py: two's-complement readings\<close>

text \<open>
  \<open>to_signed\<close> works in the units of its argument: raw words (Meritsun, Topband) are ints,
  RenogyBatt passes readings already scaled to floats, with scaled bounds.
\<close>

definition UINT16_WRAP :: int where "UINT16_WRAP = 65536"
definition UINT32_WRAP :: int where "UINT32_WRAP = 4294967296"
definition INT16_MAX :: int where "INT16_MAX = 32767"
definition INT32_MAX :: int where "INT32_MAX = 2147483647"

definition to_signed :: "pynum \<Rightarrow> pynum \<Rightarrow> pynum \<Rightarrow> pynum" where
  "to_signed value wrap threshold = (if num_lt threshold value then num_sub value wrap else value)"

lemmas codec_consts = UINT16_WRAP_def UINT32_WRAP_def INT16_MAX_def INT32_MAX_def

subsection \<open>On raw words it is the two's-complement value\<close>

text \<open>The value a 32-bit or a 16-bit reading stands for, on the raw unsigned integer.\<close>

lemma to_signed_int:
  "to_signed (PInt v) (PInt w) (PInt t) = PInt (if t < v then v - w else v)"
  by (simp add: to_signed_def num_lt_def)

lemma mod_wrap: "- w \<le> v \<Longrightarrow> v < 0 \<Longrightarrow> v mod w = v + (w :: int)"
proof -
  assume "- w \<le> v" and "v < 0"
  have "v mod w = (v + w) mod w" by simp
  also have "\<dots> = v + w" using \<open>- w \<le> v\<close> \<open>v < 0\<close> by (intro mod_pos_pos_trivial) auto
  finally show ?thesis .
qed

lemma sint_uint_32: "sint (w :: 32 word) = (if INT32_MAX < uint w then uint w - UINT32_WRAP else uint w)"
proof -
  have lo: "0 \<le> uint w" and hi: "uint w < 4294967296" using uint_lt2p [of w] by simp_all
  have sint: "sint w = (uint w + 2147483648) mod 4294967296 - 2147483648"
    by (simp add: sint_uint signed_take_bit_eq_take_bit_shift take_bit_eq_mod)
  show ?thesis
  proof (cases "INT32_MAX < uint w")
    case True
    have "(uint w + 2147483648) mod 4294967296 = (uint w - 2147483648 + 4294967296) mod 4294967296"
      by (simp add: add.commute)
    also have "\<dots> = uint w - 2147483648"
      using True hi by (simp only: mod_add_self2) (simp add: codec_consts)
    finally show ?thesis using True sint by (simp add: codec_consts)
  next
    case False
    with lo sint show ?thesis by (simp add: codec_consts)
  qed
qed

text \<open>
  on every 32-bit word, the reading the parsers hand to \<open>to_signed\<close> with the 32-bit
  constants becomes the word's two's-complement value.
\<close>

theorem to_signed_uint32:
  "to_signed (PInt (uint (w :: 32 word))) (PInt UINT32_WRAP) (PInt INT32_MAX) = PInt (sint w)"
  by (simp add: to_signed_int sint_uint_32)

lemma to_signed_roundtrip:
  assumes "- 2147483648 \<le> v" and "v \<le> 2147483647"
  shows "to_signed (PInt (v mod UINT32_WRAP)) (PInt UINT32_WRAP) (PInt INT32_MAX) = PInt v"
proof (cases "0 \<le> v")
  case True
  with assms show ?thesis by (simp add: to_signed_int codec_consts)
next
  case False
  then have "v mod UINT32_WRAP = v + UINT32_WRAP"
    using assms by (intro mod_wrap) (auto simp: codec_consts)
  with False assms show ?thesis by (simp add: to_signed_int codec_consts)
qed

end
