(* ===== verification/Meritsun.thy ===== *)
theory Meritsun
  imports Device Asciihex Codec
begin

section \<open>plugins/Meritsun: a stream of frames without notification boundaries\<close>

text \<open>
  The parser of the SmartPower packs. Notifications are pieces of one byte stream;
  \<open>notificationUpdate\<close> collects them, cuts a packet at every start marker and keeps the
  unfinished rest. \<open>_handleDataPacket\<close> checks a packet's checksum, \<open>handleMessage\<close> decodes
  it. The theorems: the buffer holds at most one unfinished packet, its size is bounded, how
  the stream is cut into notifications does not matter, a packet that fails the checksum
  changes no value, and an encoded frame is decoded to the values it was made from. Writing
  the debug log to a file is left out.
\<close>

subsection \<open>The state\<close>

record meritsun =
  stream :: bytes
  frames_ok :: nat
  frames_bad :: nat
  rev_buf :: bytes
  rev_index :: nat
  end_pos :: nat
  prev_message :: bytes

definition START_VAL :: int where "START_VAL = 146"
definition START_VAL2 :: int where "START_VAL2 = 0xC9"
definition END_VAL :: int where "END_VAL = 12"

definition meritsun_init :: meritsun where
  "meritsun_init =
     \<lparr>stream = [], frames_ok = 0, frames_bad = 0, rev_buf = [], rev_index = 0, end_pos = 0,
      prev_message = []\<rparr>"

definition meritsun_config :: plugin_config where
  "meritsun_config =
     \<lparr>cfg_notify_chars = [''0000ffe4-0000-1000-8000-00805f9b34fb''], cfg_write_polling = None,
      cfg_write_commands = None, cfg_device_id = None, cfg_need_polling = False, cfg_send_ack = False\<rparr>"

subsection \<open>Decoding a message\<close>

text \<open>\<open>_readField\<close>: \<open>None\<close> when a character of the field is not an upper-case hex digit.\<close>

definition read_field :: "bytes \<Rightarrow> nat \<Rightarrow> nat \<Rightarrow> int option" where
  "read_field message start stop =
     (if length message \<le> stop \<or> \<not> list_all is_hex_char (section_of message start (stop + 1)) then None
      else Some (field_value message (int start) (int stop) 0))"

definition assign_opt :: "attr \<Rightarrow> int option \<Rightarrow> (device, unit) pym" where
  "assign_opt a v = (case v of None \<Rightarrow> ret () | Some n \<Rightarrow> assign_attr a (PInt n))"

definition signed32 :: "int \<Rightarrow> pynum" where
  "signed32 v = to_signed (PInt v) (PInt UINT32_WRAP) (PInt INT32_MAX)"

fun assign_cells :: "bytes \<Rightarrow> nat list \<Rightarrow> (device, unit) pym" where
  "assign_cells message [] = ret ()"
| "assign_cells message (i # is) =
     (let cell_mv = field_value message (int (i * 4) + 44) (int (i * 4) + 47) 0 in
      if cell_mv = 0 then ret ()
      else bind (whenp (1000 \<le> cell_mv \<and> cell_mv \<le> 5000) (assign_cell (int i + 1) (PInt cell_mv)))
             (\<lambda>_. assign_cells message is))"

definition only_voltage :: "int option list \<Rightarrow> bool" where
  "only_voltage vs \<longleftrightarrow> \<not> list_ex (\<lambda>v. v \<noteq> None \<and> v \<noteq> Some 0) vs"

definition store_message :: "bytes \<Rightarrow> int \<Rightarrow> int option \<Rightarrow> int option \<Rightarrow> int option \<Rightarrow> int option \<Rightarrow>
    int option \<Rightarrow> int option \<Rightarrow> bool \<Rightarrow> (device, unit) pym" where
  "store_message message mvoltage mcurrent mcapacity charge_cycles soc temperature status full =
     block
       [assign_msg message,
        assign_attr A_mvoltage (PInt mvoltage),
        (case mcurrent of None \<Rightarrow> ret () | Some v \<Rightarrow> assign_attr A_mcurrent (signed32 v)),
        assign_opt A_mcapacity mcapacity,
        assign_opt A_charge_cycles charge_cycles,
        assign_opt A_soc soc,
        assign_opt A_temperature temperature,
        assign_opt A_status status,
        whenp full (block
          [assign_attr A_afestatus (PInt (field_value message 40 41 0)),
           assign_cells message [0..<16]])]"

definition handle_message :: "bytes \<Rightarrow> bool \<Rightarrow> (meritsun, bool) util" where
  "handle_message message full =
     (if length message < 38 then ret False
      else bind (on_util (modify (\<lambda>u. u\<lparr>prev_message := message\<rparr>)))
        (\<lambda>_. case read_field message 0 7 of
           None \<Rightarrow> ret False
         | Some mvoltage \<Rightarrow>
             if mvoltage < 1000 then ret False
             else
               (let mcurrent = read_field message 8 15; mcapacity = read_field message 16 23;
                    charge_cycles = read_field message 24 27; soc = read_field message 28 31;
                    temperature = read_field message 32 35; status = read_field message 36 37 in
                if only_voltage [mcurrent, mcapacity, charge_cycles, soc, temperature, status]
                then ret False
                else
                  bind (on_device (store_message message mvoltage mcurrent mcapacity charge_cycles soc
                    temperature status full))
                  (\<lambda>_. ret True))))"

subsection \<open>A packet\<close>

text \<open>\<open>_frameEnd\<close>: the loop over the indices 1 to 121 with the running \<open>end\<close>.\<close>

definition frame_end :: "bytes \<Rightarrow> nat" where
  "frame_end packet =
     foldl (\<lambda>e i. if packet ! i = END_VAL \<and> e < 110 then i + 1 else e) 0
       [1..<min (length packet) 122]"

definition packet_buf :: "bytes \<Rightarrow> bytes" where
  "packet_buf packet = take 122 packet @ replicate (122 - length packet) 0"

definition handle_data_packet :: "bytes \<Rightarrow> (meritsun, bool) util" where
  "handle_data_packet packet =
     (let buf = packet_buf packet; rev_index = min (length packet) 121; e = frame_end packet in
      bind (on_util (modify (\<lambda>u. u\<lparr>rev_buf := buf, rev_index := rev_index, end_pos := e\<rparr>)))
        (\<lambda>_. if e < 60 \<or> \<not> checksum_matches buf (int e)
             then bind (on_util (modify (\<lambda>u. u\<lparr>frames_bad := frames_bad u + 1\<rparr>))) (\<lambda>_. ret False)
             else bind (on_util (modify (\<lambda>u. u\<lparr>frames_ok := frames_ok u + 1\<rparr>)))
                    (\<lambda>_. handle_message (section_of buf 1 rev_index) (length packet \<le> 130))))"

definition frame_health :: "(meritsun, nat \<times> nat) pym" where
  "frame_health = (\<lambda>u. (Inr (frames_ok u, frames_bad u), u\<lparr>frames_ok := 0, frames_bad := 0\<rparr>))"

subsection \<open>The stream\<close>

definition earlier :: "nat option \<Rightarrow> nat option \<Rightarrow> nat option" where
  "earlier p q =
     (case q of None \<Rightarrow> p | Some j \<Rightarrow> (case p of None \<Rightarrow> q | Some i \<Rightarrow> if j < i then q else p))"

definition first_mark :: "bytes \<Rightarrow> nat \<Rightarrow> nat option" where
  "first_mark xs i = earlier (find_from START_VAL xs i) (find_from START_VAL2 xs i)"

text \<open>\<open>max(rfind(0x92), rfind(0xC9))\<close>, with \<open>-1\<close> for a byte that does not occur.\<close>

definition rfind_int :: "int \<Rightarrow> bytes \<Rightarrow> int" where
  "rfind_int b xs = (case find_last b xs of None \<Rightarrow> - 1 | Some i \<Rightarrow> int i)"

definition trim :: "bytes \<Rightarrow> bytes" where
  "trim xs =
     (if length xs > 512
      then let keep = max (rfind_int START_VAL xs) (rfind_int START_VAL2 xs)
           in if keep > 0 then drop (nat keep) xs else drop (length xs - 256) xs
      else xs)"

datatype cut = NoFrame | Unfinished bytes | Packet bytes bytes

definition next_packet :: "bytes \<Rightarrow> cut" where
  "next_packet xs =
     (case first_mark xs 0 of
        None \<Rightarrow> NoFrame
      | Some start \<Rightarrow>
          (case first_mark xs (start + 1) of
             None \<Rightarrow> Unfinished (drop start xs)
           | Some nxt \<Rightarrow> Packet (section_of xs start nxt) (drop nxt xs)))"

lemma find_from_bounds: "find_from x xs i = Some k \<Longrightarrow> i \<le> k \<and> k < length xs \<and> xs ! k = x"
proof -
  assume "find_from x xs i = Some k"
  then obtain z where z: "find_first x (drop i xs) = Some z" "k = i + z"
    by (auto simp: find_from_def)
  from find_first_SomeD [OF z(1)] z(2) show ?thesis by auto
qed

lemma first_mark_bounds: "first_mark xs i = Some k \<Longrightarrow> i \<le> k \<and> k < length xs"
  by (auto simp: first_mark_def earlier_def dest: find_from_bounds split: option.splits if_splits)

lemma next_packet_shrinks: "next_packet xs = Packet p rest \<Longrightarrow> length rest < length xs"
  by (auto simp: next_packet_def split: option.splits dest!: first_mark_bounds)

definition set_stream :: "bytes \<Rightarrow> (meritsun, unit) util" where
  "set_stream xs = on_util (modify (\<lambda>u. u\<lparr>stream := xs\<rparr>))"

text \<open>The \<open>while True\<close> loop; its argument is the buffer, which every packet shortens.\<close>

function drain :: "bytes \<Rightarrow> bool \<Rightarrow> (meritsun, bool) util" where
  "drain xs updated =
     (case next_packet xs of
        NoFrame \<Rightarrow> bind (set_stream []) (\<lambda>_. ret updated)
      | Unfinished rest \<Rightarrow> bind (set_stream rest) (\<lambda>_. ret updated)
      | Packet packet rest \<Rightarrow>
          bind (bind (set_stream rest) (\<lambda>_. handle_data_packet packet))
            (\<lambda>b. drain rest (b \<or> updated)))"
  by pat_completeness auto
termination
  by (relation "measure (\<lambda>(xs, updated). length xs)") (auto dest: next_packet_shrinks)

declare drain.simps [simp del]

definition meritsun_notification :: "bytes \<Rightarrow> uuid \<Rightarrow> (meritsun, bool) util" where
  "meritsun_notification data char =
     (if data = [] then ret False
      else bind util_state (\<lambda>u. drain (trim (stream u @ data)) False))"

definition meritsun_plugin :: "meritsun plugin" where
  "meritsun_plugin =
     \<lparr>notification = meritsun_notification, poll_request = throw AttributeError, cmd_request = None,
      ack_data = (\<lambda>v. throw AttributeError)\<rparr>"

subsection \<open>Where the packets are cut\<close>

definition is_mark :: "int \<Rightarrow> bool" where
  "is_mark b \<longleftrightarrow> b = START_VAL \<or> b = START_VAL2"

definition unmarked :: "bytes \<Rightarrow> bool" where
  "unmarked xs \<longleftrightarrow> (\<forall>b \<in> set xs. \<not> is_mark b)"

lemma unmarked_simps [simp]:
  "unmarked []"
  "unmarked (b # xs) \<longleftrightarrow> \<not> is_mark b \<and> unmarked xs"
  "unmarked (xs @ ys) \<longleftrightarrow> unmarked xs \<and> unmarked ys"
  by (auto simp: unmarked_def)

lemma find_from_Some:
  "find_from x xs i = Some k \<Longrightarrow> i \<le> j \<Longrightarrow> j < k \<Longrightarrow> xs ! j \<noteq> x"
proof -
  assume "find_from x xs i = Some k" and j: "i \<le> j" "j < k"
  then obtain z where z: "find_first x (drop i xs) = Some z" "k = i + z"
    by (auto simp: find_from_def)
  from find_first_SomeD [OF z(1)] have len: "z < length (drop i xs)" and no: "x \<notin> set (take z (drop i xs))"
    by auto
  have "take z (drop i xs) ! (j - i) = xs ! j" using j z(2) len by (simp add: nth_drop)
  moreover have "j - i < length (take z (drop i xs))" using j z(2) len by simp
  ultimately show "xs ! j \<noteq> x" using no by (metis nth_mem)
qed

lemma find_from_None: "find_from x xs i = None \<longleftrightarrow> x \<notin> set (drop i xs)"
  by (simp add: find_from_def)

lemma first_mark_Some:
  assumes "first_mark xs i = Some k"
  shows "i \<le> k" and "k < length xs" and "is_mark (xs ! k)" and "i \<le> j \<Longrightarrow> j < k \<Longrightarrow> \<not> is_mark (xs ! j)"
proof -
  let ?a = "find_from START_VAL xs i" and ?b = "find_from START_VAL2 xs i"
  from assms have cases: "?a = Some k \<and> (?b = None \<or> (\<exists>m. ?b = Some m \<and> k \<le> m)) \<or>
      ?b = Some k \<and> (?a = None \<or> (\<exists>m. ?a = Some m \<and> k < m))"
    by (auto simp: first_mark_def earlier_def split: option.splits if_splits)
  then show "i \<le> k" and "k < length xs" and "is_mark (xs ! k)"
    by (auto simp: is_mark_def dest: find_from_bounds)
  have absent: "xs ! j \<noteq> x" if "find_from x xs i = None" "i \<le> j" "j < length xs" for x j
  proof -
    have "drop i xs ! (j - i) = xs ! j" and "j - i < length (drop i xs)" using that by (auto simp: nth_drop)
    with that(1) show ?thesis by (metis find_from_None nth_mem)
  qed
  show "\<not> is_mark (xs ! j)" if j: "i \<le> j" "j < k"
  proof -
    have differs: "xs ! j \<noteq> x" if "find_from x xs i = None \<or> (\<exists>m. find_from x xs i = Some m \<and> k \<le> m)" for x
      using that j \<open>k < length xs\<close> absent [of x j] find_from_Some [of x xs i _ j] by fastforce
    from cases have "xs ! j \<noteq> START_VAL" and "xs ! j \<noteq> START_VAL2"
      by (auto intro!: differs)
    then show ?thesis by (simp add: is_mark_def)
  qed
qed

lemma first_mark_None: "first_mark xs i = None \<longleftrightarrow> unmarked (drop i xs)"
proof -
  have "first_mark xs i = None \<longleftrightarrow> find_from START_VAL xs i = None \<and> find_from START_VAL2 xs i = None"
    by (auto simp: first_mark_def earlier_def split: option.splits)
  then show ?thesis by (auto simp: find_from_None unmarked_def is_mark_def)
qed

text \<open>The three shapes of a buffer, and what is cut from it.\<close>

lemma mark_cases:
  obtains (none) "unmarked xs"
  | (one) pre m rest where "xs = pre @ m # rest" "unmarked pre" "is_mark m" "unmarked rest"
  | (two) pre m body m' rest where "xs = pre @ m # body @ m' # rest"
      "unmarked pre" "is_mark m" "unmarked body" "is_mark m'"
proof -
  have split: "\<exists>pre m rest. ys = pre @ m # rest \<and> unmarked pre \<and> is_mark m" if "\<not> unmarked ys" for ys
    using that
  proof (induction ys)
    case (Cons y ys)
    show ?case
    proof (cases "is_mark y")
      case True
      then show ?thesis by (intro exI [of _ "[]"] exI [of _ y] exI [of _ ys]) simp
    next
      case False
      with Cons obtain pre m rest where "ys = pre @ m # rest" "unmarked pre" "is_mark m" by auto
      with False show ?thesis by (intro exI [of _ "y # pre"] exI [of _ m] exI [of _ rest]) simp
    qed
  qed simp
  show thesis
  proof (cases "unmarked xs")
    case False
    then obtain pre m rest where x: "xs = pre @ m # rest" "unmarked pre" "is_mark m" using split by blast
    show thesis
    proof (cases "unmarked rest")
      case True
      with x show thesis by (rule one)
    next
      case False
      then obtain body m' rest' where "rest = body @ m' # rest'" "unmarked body" "is_mark m'" using split by blast
      with x show thesis using two [of pre m body m' rest'] by simp
    qed
  qed (rule none)
qed

lemma first_mark_at:
  assumes "i \<le> length pre" and "unmarked (drop i pre)" and "is_mark m"
  shows "first_mark (pre @ m # rest) i = Some (length pre)"
proof (cases "first_mark (pre @ m # rest) i")
  case None
  with assms show ?thesis by (simp add: first_mark_None)
next
  case (Some k)
  note k = first_mark_Some [OF Some]
  have "\<not> k < length pre"
  proof
    assume less: "k < length pre"
    then have "drop i pre ! (k - i) = pre ! k" and "k - i < length (drop i pre)" using k(1) by auto
    then have "pre ! k \<in> set (drop i pre)" by (metis nth_mem)
    with assms(2) k(3) less show False by (auto simp: unmarked_def nth_append)
  qed
  moreover have "\<not> length pre < k" using k(4) [of "length pre"] assms(1,3) by auto
  ultimately show ?thesis using Some by simp
qed

lemma next_packet_eqs:
  "unmarked xs \<Longrightarrow> next_packet xs = NoFrame"
  "unmarked pre \<Longrightarrow> is_mark m \<Longrightarrow> unmarked rest \<Longrightarrow> next_packet (pre @ m # rest) = Unfinished (m # rest)"
  "unmarked pre \<Longrightarrow> is_mark m \<Longrightarrow> unmarked body \<Longrightarrow> is_mark m' \<Longrightarrow>
     next_packet (pre @ m # body @ m' # rest) = Packet (m # body) (m' # rest)"
proof -
  show "unmarked xs \<Longrightarrow> next_packet xs = NoFrame"
    using first_mark_None [of xs 0] by (simp add: next_packet_def)
  show "unmarked pre \<Longrightarrow> is_mark m \<Longrightarrow> unmarked rest \<Longrightarrow> next_packet (pre @ m # rest) = Unfinished (m # rest)"
    using first_mark_None [of "pre @ m # rest" "length pre + 1"] first_mark_at [of 0 pre m rest]
    by (simp add: next_packet_def)
  assume a: "unmarked pre" "is_mark m" "unmarked body" "is_mark m'"
  have "first_mark (pre @ m # body @ m' # rest) 0 = Some (length pre)"
    using a first_mark_at [of 0 pre m "body @ m' # rest"] by simp
  moreover have "first_mark (pre @ m # body @ m' # rest) (length pre + 1) = Some (length pre + 1 + length body)"
    using a first_mark_at [of "length pre + 1" "pre @ m # body" m' rest] by simp
  ultimately show "next_packet (pre @ m # body @ m' # rest) = Packet (m # body) (m' # rest)"
    by (simp add: next_packet_def section_of_def)
qed

lemma drain_eqs:
  "unmarked xs \<Longrightarrow> drain xs b = bind (set_stream []) (\<lambda>_. ret b)"
  "unmarked pre \<Longrightarrow> is_mark m \<Longrightarrow> unmarked rest \<Longrightarrow>
     drain (pre @ m # rest) b = bind (set_stream (m # rest)) (\<lambda>_. ret b)"
  "unmarked pre \<Longrightarrow> is_mark m \<Longrightarrow> unmarked body \<Longrightarrow> is_mark m' \<Longrightarrow>
     drain (pre @ m # body @ m' # rest) b =
       bind (bind (set_stream (m' # rest)) (\<lambda>_. handle_data_packet (m # body)))
         (\<lambda>c. drain (m' # rest) (c \<or> b))"
  by (subst drain.simps; simp add: next_packet_eqs)+


subsection \<open>A notification always returns, and leaves at most one unfinished packet\<close>

lemma returns_assign_opt: "a \<noteq> A_state \<Longrightarrow> a \<noteq> A_health \<Longrightarrow> never_raises wf_device (assign_opt a v)"
  by (cases v) (simp_all add: assign_opt_def never_raises_basic returns_assign_attr)

lemma returns_assign_cells: "list_all (\<lambda>i. i < 16) is \<Longrightarrow> never_raises wf_device (assign_cells message is)"
proof (induction "is")
  case (Cons i "is")
  then have "never_raises wf_device (assign_cell (int i + 1) v)" for v
    by (intro returns_assign_cell) simp_all
  with Cons show ?case
    by (simp add: Let_def never_raises_basic never_raises_bind never_raises_whenp)
qed (simp add: never_raises_basic)

lemma returns_store_message: "never_raises wf_device (store_message message v c cap cyc soc temp st full)"
  unfolding store_message_def
proof (rule never_raises_block)
  have "never_raises wf_device (assign_cells message [0..<16])"
    by (rule returns_assign_cells) (simp add: list_all_iff)
  then have cells: "never_raises wf_device (block
      [assign_attr A_afestatus (PInt (field_value message 40 41 0)), assign_cells message [0..<16]])"
    by (intro never_raises_block) (auto intro: returns_assign_attr)
  fix m
  assume "m \<in> set
    [assign_msg message, assign_attr A_mvoltage (PInt v),
     (case c of None \<Rightarrow> ret () | Some v \<Rightarrow> assign_attr A_mcurrent (signed32 v)),
     assign_opt A_mcapacity cap, assign_opt A_charge_cycles cyc, assign_opt A_soc soc,
     assign_opt A_temperature temp, assign_opt A_status st,
     whenp full (block [assign_attr A_afestatus (PInt (field_value message 40 41 0)),
       assign_cells message [0..<16]])]"
  then show "never_raises wf_device m"
    using cells by (cases c) (auto simp: never_raises_basic intro: returns_assign_msg returns_assign_attr
        returns_assign_opt never_raises_whenp simp del: block.simps)
qed

lemma returns_handle_message:
  "never_raises (keeps (\<lambda>u. stream u = xs)) (handle_message message full)"
proof -
  have "never_raises (keeps (\<lambda>u. stream u = xs)) (on_util (modify (\<lambda>u. u\<lparr>prev_message := message\<rparr>)))"
    by (rule returns_on_util) simp
  then show ?thesis
    unfolding handle_message_def Let_def
    by (auto simp: never_raises_basic intro!: never_raises_bind returns_on_device returns_store_message
        split: option.split)
qed

lemma returns_packet: "never_raises (keeps (\<lambda>u. stream u = xs)) (handle_data_packet packet)"
proof -
  have "never_raises (keeps (\<lambda>u. stream u = xs)) (on_util (modify (\<lambda>u. u\<lparr>rev_buf := a, rev_index := b, end_pos := c\<rparr>)))"
    "never_raises (keeps (\<lambda>u. stream u = xs)) (on_util (modify (\<lambda>u. u\<lparr>frames_bad := frames_bad u + 1\<rparr>)))"
    "never_raises (keeps (\<lambda>u. stream u = xs)) (on_util (modify (\<lambda>u. u\<lparr>frames_ok := frames_ok u + 1\<rparr>)))" for a b c
    by (rule returns_on_util; simp)+
  then show ?thesis
    unfolding handle_data_packet_def Let_def
    by (auto simp: never_raises_basic intro!: never_raises_bind returns_handle_message)
qed

definition framed :: "bytes \<Rightarrow> bool" where
  "framed xs \<longleftrightarrow> (case xs of [] \<Rightarrow> True | m # rest \<Rightarrow> is_mark m \<and> unmarked rest)"

lemma run_set_stream: "set_stream xs (u, d) = (Inr (), (u\<lparr>stream := xs\<rparr>, d))"
  by (simp add: set_stream_def on_util_def pym_simps)

lemma length_between_marks: "length (m' # rest) < length (pre @ m # body @ m' # rest)"
  by simp

lemma drain_returns:
  "keeps (\<lambda>u. True) s \<Longrightarrow>
   \<exists>b s'. drain xs upd s = (Inr b, s') \<and> keeps (\<lambda>u. framed (stream u) \<and> length (stream u) \<le> length xs) s'"
proof (induction "length xs" arbitrary: xs upd s rule: less_induct)
  case less
  obtain u d where s: "s = (u, d)" by force
  show ?case
  proof (cases xs rule: mark_cases)
    case none
    with less.prems s show ?thesis
      by (auto simp: drain_eqs pym_simps run_set_stream keeps_def framed_def)
  next
    case (one pre m rest)
    with less.prems s show ?thesis
      by (auto simp: drain_eqs pym_simps run_set_stream keeps_def framed_def)
  next
    case (two pre m body m' rest)
    have "keeps (\<lambda>u. stream u = m' # rest) (u\<lparr>stream := m' # rest\<rparr>, d)"
      using less.prems s by (simp add: keeps_def)
    from never_raisesD [OF returns_packet this, of "m # body"] obtain b s1
      where s1: "handle_data_packet (m # body) (u\<lparr>stream := m' # rest\<rparr>, d) = (Inr b, s1)"
        and "keeps (\<lambda>u. stream u = m' # rest) s1" by blast
    then have "keeps (\<lambda>u. True) s1" by (auto simp: keeps_def)
    moreover have "length (m' # rest) < length xs" using two by simp
    ultimately obtain b' s' where "drain (m' # rest) (b \<or> upd) s1 = (Inr b', s')"
        "keeps (\<lambda>u. framed (stream u) \<and> length (stream u) \<le> length (m' # rest)) s'"
      using less.hyps by blast
    then show ?thesis
      using two s s1 by (auto simp: drain_eqs pym_simps run_set_stream keeps_def)
  qed
qed


lemma find_last_SomeD: "find_last x xs = Some i \<Longrightarrow> i < length xs \<and> xs ! i = x"
proof -
  assume "find_last x xs = Some i"
  then obtain k where k: "find_first x (rev xs) = Some k" "i = length xs - 1 - k"
    by (auto simp: find_last_def)
  from find_first_SomeD [OF k(1)] show ?thesis using k(2) by (auto simp: rev_nth)
qed

lemma trim_length:
  assumes "framed old"
  shows "length (trim (old @ data)) \<le> max 512 (length data)"
proof (cases "length (old @ data) > 512")
  case long: True
  let ?xs = "old @ data"
  let ?keep = "max (rfind_int START_VAL ?xs) (rfind_int START_VAL2 ?xs)"
  show ?thesis
  proof (cases "?keep > 0")
    case True
    then have "nat ?keep < length ?xs \<and> is_mark (?xs ! nat ?keep)"
      by (auto simp: rfind_int_def max_def is_mark_def dest: find_last_SomeD split: option.splits if_splits)
    moreover have "\<not> is_mark (?xs ! j)" if "0 < j" "j < length old" for j
      using that assms by (cases old) (auto simp: framed_def unmarked_def nth_append)
    ultimately have "length old \<le> nat ?keep" using True by (metis not_less zero_less_nat_eq)
    with True long show ?thesis by (simp add: trim_def Let_def)
  qed (use long in \<open>simp add: trim_def Let_def\<close>)
qed (simp add: trim_def)

lemma meritsun_returns:
  assumes "wf_device d" and "data \<noteq> []"
  shows "\<exists>b u' d'. meritsun_notification data c (u, d) = (Inr b, (u', d')) \<and> wf_device d' \<and>
           framed (stream u') \<and> length (stream u') \<le> length (trim (stream u @ data))"
proof -
  have "keeps (\<lambda>u. True) (u, d)" using assms by (simp add: keeps_def)
  from drain_returns [OF this, of "trim (stream u @ data)" False]
  obtain b s' where "drain (trim (stream u @ data)) False (u, d) = (Inr b, s')"
      "keeps (\<lambda>u'. framed (stream u') \<and> length (stream u') \<le> length (trim (stream u @ data))) s'" by blast
  with assms show ?thesis
    by (cases s') (auto simp: meritsun_notification_def util_state_def pym_simps keeps_def)
qed

text \<open>
  C31: on a well-formed device a notification of the Meritsun parser never raises, and the
  buffer it leaves is empty or one unfinished packet, a start marker with none after it. Its
  length is at most 512 bytes, or the length of the notification when that is longer: a
  stream without markers cannot make it grow.
\<close>

theorem meritsun_buffer_bounded:
  assumes "wf_device d" and "framed (stream u)"
  shows "\<exists>b u' d'. meritsun_notification data c (u, d) = (Inr b, (u', d')) \<and> wf_device d' \<and>
           framed (stream u') \<and>
           length (stream u') \<le> max (length (stream u)) (max 512 (length data))"
proof (cases "data = []")
  case True
  with assms show ?thesis by (auto simp: meritsun_notification_def pym_simps)
next
  case False
  from meritsun_returns [OF assms(1) False, of c u] trim_length [OF assms(2), of data]
  show ?thesis by fastforce
qed

lemma wf_sample_device [simp]: "wf_device (sample_device name [] bound)"
  by (simp add: wf_device_def wf_entities_for within_bound_def)

theorem meritsun_buffer_bounded_witness:
  "\<exists>b u' d'. meritsun_notification (replicate 20 7) [] (meritsun_init, sample_device ''battery_1'' [] 5) = (Inr b, (u', d')) \<and>
     wf_device d' \<and> framed (stream u') \<and>
     length (stream u') \<le> max (length (stream meritsun_init)) (max 512 (length (replicate 20 (7 :: int))))"
  by (rule meritsun_buffer_bounded) (simp_all add: meritsun_init_def framed_def)

lemma meritsun_keeps: "preserves (keeps (\<lambda>u. framed (stream u))) (meritsun_notification data c)"
proof (rule preservesI)
  fix s :: "meritsun \<times> device" assume "keeps (\<lambda>u. framed (stream u)) s"
  then obtain u d where s: "s = (u, d)" "framed (stream u)" "wf_device d"
    by (cases s) (auto simp: keeps_def)
  show "keeps (\<lambda>u. framed (stream u)) (snd (meritsun_notification data c s))"
  proof (cases "data = []")
    case True
    with s show ?thesis by (simp add: meritsun_notification_def pym_simps keeps_def)
  next
    case False
    with meritsun_returns [OF s(3), of data c u] s(1) show ?thesis by (auto simp: keeps_def)
  qed
qed

interpretation meritsun: plugin_contract meritsun_plugin "\<lambda>u. framed (stream u)"
  by unfold_locales
    (auto simp: meritsun_plugin_def intro: meritsun_keeps preserves_throw)


subsection \<open>How the stream is cut into notifications does not matter\<close>

definition with_stream :: "bytes \<Rightarrow> meritsun \<times> device \<Rightarrow> meritsun \<times> device" where
  "with_stream xs = (\<lambda>(u, d). (u\<lparr>stream := xs\<rparr>, d))"

lemma with_stream_simps [simp]:
  "with_stream xs (with_stream ys s) = with_stream xs s"
  "stream (fst (with_stream xs s)) = xs"
  "fst (with_stream (stream (fst s)) s) = fst s"
  "snd (with_stream xs s) = snd s"
  by (auto simp: with_stream_def split: prod.splits)

lemma run_set_stream': "set_stream xs s = (Inr (), with_stream xs s)"
  by (cases s) (simp add: run_set_stream with_stream_def)

text \<open>A computation that neither reads nor writes the buffer.\<close>

definition ignores_stream :: "(meritsun, 'a) util \<Rightarrow> bool" where
  "ignores_stream m \<longleftrightarrow> (\<forall>s xs. m (with_stream xs s) = (fst (m s), with_stream xs (snd (m s))))"

lemma ignores_streamD:
  "ignores_stream m \<Longrightarrow> m (with_stream xs s) = (fst (m s), with_stream xs (snd (m s)))"
  unfolding ignores_stream_def by blast

lemma ignores_basic:
  "ignores_stream (ret x)"
  "ignores_stream (on_device m)"
  "(\<And>u xs. f (u\<lparr>stream := xs\<rparr>) = (f u)\<lparr>stream := xs\<rparr>) \<Longrightarrow> ignores_stream (on_util (modify f))"
  by (auto simp: ignores_stream_def pym_simps on_device_def on_util_def with_stream_def split: prod.splits)

lemma ignores_bind:
  assumes "ignores_stream m" and "\<And>x. ignores_stream (f x)"
  shows "ignores_stream (bind m f)"
  unfolding ignores_stream_def
proof (intro allI)
  fix s xs
  obtain r s1 where s1: "m s = (r, s1)" by (rule prod.exhaust)
  have m: "m (with_stream xs s) = (r, with_stream xs s1)"
    using ignores_streamD [OF assms(1), of xs s] s1 by simp
  show "bind m f (with_stream xs s) = (fst (bind m f s), with_stream xs (snd (bind m f s)))"
    using m s1 ignores_streamD [OF assms(2), of _ xs s1] by (cases r) (simp_all add: bind_def)
qed

lemma ignores_handle_message: "ignores_stream (handle_message message full)"
  unfolding handle_message_def Let_def
  by (auto intro!: ignores_bind ignores_basic split: option.split)

lemma ignores_packet: "ignores_stream (handle_data_packet packet)"
  unfolding handle_data_packet_def Let_def
  by (auto intro!: ignores_bind ignores_basic ignores_handle_message)

lemma drain_prefix: "unmarked pre \<Longrightarrow> drain (pre @ xs) upd = drain xs upd"
proof (cases xs rule: mark_cases)
  case (one pre' m rest)
  assume "unmarked pre"
  with one show ?thesis using drain_eqs(2) [of "pre @ pre'" m rest] drain_eqs(2) [of pre' m rest] by simp
next
  case (two pre' m body m' rest)
  assume "unmarked pre"
  with two show ?thesis
    using drain_eqs(3) [of "pre @ pre'" m body m' rest] drain_eqs(3) [of pre' m body m' rest] by simp
qed (simp add: drain_eqs)

lemma drain_any_stream: "drain xs upd (with_stream ys s) = drain xs upd s"
proof (cases xs rule: mark_cases)
  case (two pre m body m' rest)
  then show ?thesis by (simp add: drain_eqs bind_def run_set_stream')
qed (simp_all add: drain_eqs bind_def run_set_stream')

lemma drain_updated:
  "drain xs upd s = (case drain xs False s of (Inl e, s') \<Rightarrow> (Inl e, s') | (Inr b, s') \<Rightarrow> (Inr (b \<or> upd), s'))"
proof (induction "length xs" arbitrary: xs upd s rule: less_induct)
  case less
  show ?case
  proof (cases xs rule: mark_cases)
    case (two pre m body m' rest)
    let ?p = "bind (set_stream (m' # rest)) (\<lambda>_. handle_data_packet (m # body))"
    have IH: "drain (m' # rest) upd s = (case drain (m' # rest) False s of (Inl e, s') \<Rightarrow> (Inl e, s')
        | (Inr b, s') \<Rightarrow> (Inr (b \<or> upd), s'))" for upd s
      using two by (intro less) simp
    have eq: "drain xs w = bind ?p (\<lambda>c. drain (m' # rest) (c \<or> w))" for w
      using two drain_eqs(3) by simp
    show ?thesis
      unfolding eq bind_def [of ?p]
      by (subst (1 2) IH) (auto split: prod.splits sum.splits)
  qed (auto simp: drain_eqs pym_simps run_set_stream')
qed

lemma drain_append:
  assumes "drain xs upd s = (Inr x, s1)"
  shows "drain (xs @ ys) upd s = drain (stream (fst s1) @ ys) x s1"
  using assms
proof (induction "length xs" arbitrary: xs upd s rule: less_induct)
  case less
  show ?case
  proof (cases xs rule: mark_cases)
    case none
    then have "s1 = with_stream [] s" "x = upd"
      using less.prems by (simp_all add: drain_eqs pym_simps run_set_stream')
    with none show ?thesis by (simp add: drain_prefix drain_any_stream)
  next
    case (one pre m rest)
    then have "s1 = with_stream (m # rest) s" "x = upd"
      using less.prems by (simp_all add: drain_eqs pym_simps run_set_stream')
    with one show ?thesis by (simp add: drain_prefix drain_any_stream)
  next
    case (two pre m body m' rest)
    let ?h = "handle_data_packet (m # body)"
    have h: "?h (with_stream zs s) = (fst (?h s), with_stream zs (snd (?h s)))" for zs
      using ignores_packet by (rule ignores_streamD)
    obtain c s2 where c: "?h s = (Inr c, s2)"
      and rest: "drain (m' # rest) (c \<or> upd) (with_stream (m' # rest) s2) = (Inr x, s1)"
    proof -
      obtain r s2 where r: "?h s = (r, s2)" by (rule prod.exhaust)
      with less.prems two h [of "m' # rest"] show thesis
        by (cases r) (auto simp: drain_eqs pym_simps run_set_stream' intro: that)
    qed
    have "drain ((m' # rest) @ ys) (c \<or> upd) (with_stream (m' # rest) s2) = drain (stream (fst s1) @ ys) x s1"
      using rest two by (intro less.hyps) simp_all
    then show ?thesis
      using two h [of "m' # rest @ ys"] c drain_eqs(3) [of pre m body m' "rest @ ys"]
      by (simp add: pym_simps run_set_stream' drain_any_stream)
  qed
qed




subsection \<open>Which packets are accepted\<close>

lemma frame_end_of:
  assumes "length packet > k" and "packet ! k = END_VAL" and "109 \<le> k" and "k \<le> 121"
    and "\<And>i. 1 \<le> i \<Longrightarrow> i < k \<Longrightarrow> packet ! i \<noteq> END_VAL"
  shows "frame_end packet = k + 1"
proof -
  let ?step = "\<lambda>e i. if packet ! i = END_VAL \<and> e < 110 then i + 1 else e"
  have head: "foldl ?step e is = e" if "\<forall>i \<in> set is. packet ! i \<noteq> END_VAL" for e "is"
    using that by (induction "is" arbitrary: e) auto
  have tail: "foldl ?step e is = e" if "110 \<le> e" for e "is"
    using that by (induction "is" arbitrary: e) auto
  let ?N = "min (length packet) 122"
  have k: "k < ?N" using assms(1,4) by simp
  then have "[1..<?N] = [1..<k] @ [k..<?N]"
    using upt_add_eq_append [of 1 k "?N - k"] assms(3) by simp
  also have "[k..<?N] = k # [Suc k..<?N]" using k by (rule upt_conv_Cons)
  finally have "[1..<?N] = [1..<k] @ k # [Suc k..<?N]" .
  moreover have "foldl ?step 0 [1..<k] = 0" using assms(5) by (intro head) auto
  ultimately show ?thesis
    using assms(2,3) tail [of "k + 1"] by (simp add: frame_end_def)
qed

text \<open>
  So the comment above the code is not what it does: the first padding byte at or behind
  offset 109 ends the frame, wherever it is.
\<close>

lemma frame_end_beyond_110: "frame_end (replicate 115 48 @ [12]) = 116"
  by (subst frame_end_of [of 115]) (simp_all add: END_VAL_def nth_append)

text \<open>A full-size frame: between 52 and 58 payload bytes, its checksum and padding.\<close>

lemma hex_no_padding: "is_bytes bs \<Longrightarrow> c \<in> set (concat (map hex_byte bs)) \<Longrightarrow> c \<noteq> END_VAL"
proof -
  assume "is_bytes bs" and "c \<in> set (concat (map hex_byte bs))"
  then have "is_hex_char c" using hex_bytes_chars [of bs] unfolding list_all_iff by blast
  then show ?thesis by (auto simp: is_hex_char_def END_VAL_def)
qed

lemma nth_behind_marker: "1 \<le> i \<Longrightarrow> i \<le> length body \<Longrightarrow> (m # body @ rest) ! i = body ! (i - 1)"
  by (cases i) (simp_all add: nth_append)

lemma frame_end_full:
  assumes "is_bytes payload" and "is_byte hi" and "is_byte lo"
    and "52 \<le> length payload" and "length payload \<le> 58"
  shows "frame_end (ah_frame marker payload hi lo (END_VAL # padding)) = 2 * length payload + 6"
proof -
  let ?body = "concat (map hex_byte (payload @ [hi, lo]))"
  have f: "ah_frame marker payload hi lo (END_VAL # padding) = (marker # ?body) @ END_VAL # padding"
    by (simp add: ah_frame_def)
  have len: "length (marker # ?body) = 2 * length payload + 5" by simp
  have bytes: "is_bytes (payload @ [hi, lo])" using assms by simp
  define body where "body = ?body"
  have body: "length body = 2 * length payload + 4" "\<And>c. c \<in> set body \<Longrightarrow> c \<noteq> END_VAL"
    unfolding body_def using hex_no_padding [OF bytes] by (simp, blast)
  have "(marker # body @ END_VAL # padding) ! i \<noteq> END_VAL" if "1 \<le> i" "i < 2 * length payload + 5" for i
    using that body(1) body(2) [of "body ! (i - 1)"] by (simp add: nth_append)
  moreover have "(marker # body @ END_VAL # padding) ! (2 * length payload + 5) = END_VAL"
    using body(1) nth_append_length [of "marker # body" END_VAL padding] by simp
  ultimately have "frame_end (marker # body @ END_VAL # padding) = (2 * length payload + 5) + 1"
    using assms(4,5) body(1) by (intro frame_end_of) simp_all
  then show ?thesis unfolding f body_def by simp
qed

lemma packet_buf_frame:
  "length payload \<le> 58 \<Longrightarrow>
   \<exists>padding'. packet_buf (ah_frame marker payload hi lo padding) = ah_frame marker payload hi lo padding'"
proof -
  assume n: "length payload \<le> 58"
  define head where "head = marker # concat (map hex_byte payload) @ hex_byte hi @ hex_byte lo"
  have len: "length head \<le> 122" using n by (simp add: head_def)
  have frame: "ah_frame marker payload hi lo pad = head @ pad" for pad
    by (simp add: ah_frame_def head_def)
  from len have "packet_buf (head @ padding) =
      head @ take (122 - length head) padding @ replicate (122 - length (head @ padding)) 0"
    by (simp add: packet_buf_def)
  then show ?thesis unfolding frame by blast
qed

text \<open>
  C29: of the frames of full size the parser accepts exactly those whose stated checksum is
  the sum of the payload bytes; any other is counted as rejected and leaves the device as it
  was.
\<close>

theorem meritsun_accepts_iff:
  assumes "is_bytes payload" and "is_byte hi" and "is_byte lo"
    and "52 \<le> length payload" and "length payload \<le> 58"
  shows "let packet = ah_frame marker payload hi lo (END_VAL # padding);
             (r, (u', d')) = handle_data_packet packet (u, d) in
         if sum_list payload = hi * 256 + lo then frames_ok u' = frames_ok u + 1 \<and> frames_bad u' = frames_bad u
         else r = Inr False \<and> d' = d \<and> frames_ok u' = frames_ok u \<and> frames_bad u' = frames_bad u + 1"
proof -
  let ?packet = "ah_frame marker payload hi lo (END_VAL # padding)"
  let ?e = "2 * length payload + 6"
  obtain padding' where buf: "packet_buf ?packet = ah_frame marker payload hi lo padding'"
    using packet_buf_frame [OF assms(5)] by blast
  have ends: "frame_end ?packet = ?e" using assms by (rule frame_end_full)
  have check: "checksum_matches (packet_buf ?packet) (int ?e) \<longleftrightarrow> sum_list payload = hi * 256 + lo"
    unfolding buf using assms(1-3) by (intro frame_checksum_iff) simp_all
  have counts: "frames_ok (fst (snd (handle_message m f (v, w)))) = frames_ok v \<and>
      frames_bad (fst (snd (handle_message m f (v, w)))) = frames_bad v" for m f v w
    by (auto simp: handle_message_def Let_def pym_simps on_util_def on_device_def
        split: option.split prod.splits sum.splits)
  show ?thesis
  proof (cases "sum_list payload = hi * 256 + lo")
    case True
    define w where "w = u\<lparr>rev_buf := packet_buf ?packet, rev_index := min (length ?packet) 121, end_pos := ?e,
        frames_ok := frames_ok u + 1\<rparr>"
    define m where "m = section_of (packet_buf ?packet) 1 (min (length ?packet) 121)"
    have "handle_data_packet ?packet (u, d) = handle_message m (length ?packet \<le> 130) (w, d)"
      using True check ends assms(4)
      by (simp add: handle_data_packet_def Let_def pym_simps on_util_def w_def m_def)
    moreover have "frames_ok w = frames_ok u + 1" "frames_bad w = frames_bad u" by (simp_all add: w_def)
    ultimately show ?thesis
      using True counts [of m "length ?packet \<le> 130" w d]
      by (simp add: Let_def split: prod.split) fastforce
  next
    case False
    then show ?thesis
      using check ends by (simp add: handle_data_packet_def Let_def pym_simps on_util_def)
  qed
qed

theorem meritsun_accepts_iff_witness:
  "fst (handle_data_packet (ah_frame 146 (replicate 54 1) 0 0 (END_VAL # [12, 12])) (meritsun_init, sample_device ''battery_1'' [] 5)) = Inr False"
proof -
  have "is_bytes (replicate 54 1)" by (simp add: is_bytes_def is_byte_def list_all_iff)
  from meritsun_accepts_iff [OF this, of 0 0 146 "[12, 12]" meritsun_init "sample_device ''battery_1'' [] 5"]
  show ?thesis by (simp add: is_byte_def sum_list_replicate split: prod.splits)
qed

subsection \<open>What a frame says is what is stored\<close>

lemma read_field_encoded:
  assumes "0 < n" and "0 \<le> v" and "v < 256 ^ n" and "start = length pre" and "stop + 1 = start + 2 * n"
  shows "read_field (pre @ hex_field n v @ post) start stop = Some v"
proof -
  have "section_of (pre @ hex_field n v @ post) start (stop + 1) = hex_field n v"
    using section_of_middle [of "hex_field n v" "2 * n" pre post] assms(4,5) by simp
  moreover have "list_all is_hex_char (hex_field n v)"
    by (simp add: hex_field_def hex_bytes_chars)
  moreover have "field_value (pre @ hex_field n v @ post) (int start) (int stop) 0 = v"
  proof -
    have "int stop = int (length pre + 2 * n) - 1" using assms(1,4,5) by linarith
    then show ?thesis using field_roundtrip_value [OF assms(1-3), of pre post 0] assms(4) by simp
  qed
  moreover have "\<not> length (pre @ hex_field n v @ post) \<le> stop" using assms(1,4,5) by simp
  ultimately show ?thesis by (simp add: read_field_def del: append_assoc)
qed

definition encoded_message :: "int \<Rightarrow> int \<Rightarrow> int \<Rightarrow> int \<Rightarrow> int \<Rightarrow> int \<Rightarrow> int \<Rightarrow> bytes \<Rightarrow> bytes" where
  "encoded_message v c cap cyc soc temp st rest =
     hex_field 4 v @ hex_field 4 c @ hex_field 4 cap @ hex_field 2 cyc @ hex_field 2 soc @
     hex_field 2 temp @ hex_field 1 st @ rest"

lemma read_encoded:
  assumes "0 \<le> v \<and> v < 256 ^ 4" and "0 \<le> c \<and> c < 256 ^ 4" and "0 \<le> cap \<and> cap < 256 ^ 4"
    and "0 \<le> cyc \<and> cyc < 256 ^ 2" and "0 \<le> soc \<and> soc < 256 ^ 2" and "0 \<le> temp \<and> temp < 256 ^ 2"
    and "0 \<le> st \<and> st < 256 ^ 1"
  shows "read_field (encoded_message v c cap cyc soc temp st rest) 0 7 = Some v"
    and "read_field (encoded_message v c cap cyc soc temp st rest) 8 15 = Some c"
    and "read_field (encoded_message v c cap cyc soc temp st rest) 16 23 = Some cap"
    and "read_field (encoded_message v c cap cyc soc temp st rest) 24 27 = Some cyc"
    and "read_field (encoded_message v c cap cyc soc temp st rest) 28 31 = Some soc"
    and "read_field (encoded_message v c cap cyc soc temp st rest) 32 35 = Some temp"
    and "read_field (encoded_message v c cap cyc soc temp st rest) 36 37 = Some st"
proof -
  show "read_field (encoded_message v c cap cyc soc temp st rest) 0 7 = Some v"
    using assms read_field_encoded [of 4 v 0 "[]" 7] by (simp add: encoded_message_def)
  show "read_field (encoded_message v c cap cyc soc temp st rest) 8 15 = Some c"
    using assms read_field_encoded [of 4 c 8 "hex_field 4 v" 15] by (simp add: encoded_message_def)
  show "read_field (encoded_message v c cap cyc soc temp st rest) 16 23 = Some cap"
    using assms read_field_encoded [of 4 cap 16 "hex_field 4 v @ hex_field 4 c" 23] by (simp add: encoded_message_def)
  show "read_field (encoded_message v c cap cyc soc temp st rest) 24 27 = Some cyc"
    using assms read_field_encoded [of 2 cyc 24 "hex_field 4 v @ hex_field 4 c @ hex_field 4 cap" 27]
    by (simp add: encoded_message_def)
  show "read_field (encoded_message v c cap cyc soc temp st rest) 28 31 = Some soc"
    using assms read_field_encoded [of 2 soc 28 "hex_field 4 v @ hex_field 4 c @ hex_field 4 cap @ hex_field 2 cyc" 31]
    by (simp add: encoded_message_def)
  show "read_field (encoded_message v c cap cyc soc temp st rest) 32 35 = Some temp"
    using assms read_field_encoded [of 2 temp 32
        "hex_field 4 v @ hex_field 4 c @ hex_field 4 cap @ hex_field 2 cyc @ hex_field 2 soc" 35]
    by (simp add: encoded_message_def)
  show "read_field (encoded_message v c cap cyc soc temp st rest) 36 37 = Some st"
    using assms read_field_encoded [of 1 st 36
        "hex_field 4 v @ hex_field 4 c @ hex_field 4 cap @ hex_field 2 cyc @ hex_field 2 soc @ hex_field 2 temp" 37]
    by (simp add: encoded_message_def)
qed

text \<open>
  a message that encodes a voltage of at least one volt and six more values is stored as
  exactly those values, the current read as a signed 32-bit number; with all six zero it is
  no reading, and nothing is stored.
\<close>

theorem meritsun_decodes:
  assumes "1000 \<le> v \<and> v < 256 ^ 4" and "0 \<le> c \<and> c < 256 ^ 4" and "0 \<le> cap \<and> cap < 256 ^ 4"
    and "0 \<le> cyc \<and> cyc < 256 ^ 2" and "0 \<le> soc \<and> soc < 256 ^ 2" and "0 \<le> temp \<and> temp < 256 ^ 2"
    and "0 \<le> st \<and> st < 256 ^ 1" and "wf_device d"
  shows "handle_message (encoded_message v c cap cyc soc temp st rest) full (u, d) =
    (let u' = u\<lparr>prev_message := encoded_message v c cap cyc soc temp st rest\<rparr> in
     if c = 0 \<and> cap = 0 \<and> cyc = 0 \<and> soc = 0 \<and> temp = 0 \<and> st = 0 then (Inr False, (u', d))
     else (Inr True, (u', snd (store_message (encoded_message v c cap cyc soc temp st rest) v (Some c) (Some cap)
            (Some cyc) (Some soc) (Some temp) (Some st) full d))))"
proof -
  define m where "m = encoded_message v c cap cyc soc temp st rest"
  have len: "\<not> length m < 38" by (simp add: m_def encoded_message_def)
  have read: "read_field m 0 7 = Some v" "read_field m 8 15 = Some c" "read_field m 16 23 = Some cap"
    "read_field m 24 27 = Some cyc" "read_field m 28 31 = Some soc" "read_field m 32 35 = Some temp"
    "read_field m 36 37 = Some st"
    unfolding m_def using assms by (intro read_encoded; simp)+
  obtain d' where d': "store_message m v (Some c) (Some cap) (Some cyc) (Some soc) (Some temp) (Some st) full d = (Inr (), d')"
    using never_raisesD [OF returns_store_message assms(8), of m v "Some c" "Some cap" "Some cyc"
        "Some soc" "Some temp" "Some st" full] by auto
  show ?thesis
    unfolding m_def [symmetric]
    using assms(1) len read d'
    by (simp add: handle_message_def only_voltage_def Let_def pym_simps on_util_def on_device_def)
qed

theorem meritsun_decodes_witness:
  "fst (handle_message (encoded_message 13200 4294966296 100000 12 87 2931 1 []) True
     (meritsun_init, sample_device ''battery_1'' [] 5)) = Inr True"
  using meritsun_decodes [of 13200 4294966296 100000 12 87 2931 1 "sample_device ''battery_1'' [] 5" "[]" True meritsun_init]
  by simp


end
