(* ===== verification/Modbus.thy ===== *)
theory Modbus
  imports PyNumbers
begin

section \<open>modbus.py: Modbus RTU frames\<close>

text \<open>
  The frame reader, the frame check and the acknowledgement of \<open>modbus.py\<close>. The CRC comes
  from \<open>libscrc\<close>, which is not part of the repository: it is the argument \<open>crc\<close> of the
  definitions that use it, and the locale \<open>crc16\<close> states the one fact the frame check relies
  on, that a CRC is a 16-bit number. Theory \<open>ModbusCrc\<close> interprets it with the bitwise
  CRC-16/MODBUS the Hacien plugin carries.
\<close>

definition FUNCTION_WRITE_RESPONSE :: int where "FUNCTION_WRITE_RESPONSE = 6"
definition HEADER_BYTES :: int where "HEADER_BYTES = 3"
definition CRC_BYTES :: int where "CRC_BYTES = 2"

lemmas modbus_consts = FUNCTION_WRITE_RESPONSE_def HEADER_BYTES_def CRC_BYTES_def

subsection \<open>Reading integers\<close>

text \<open>\<open>int.from_bytes\<close>.\<close>

definition from_big :: "bytes \<Rightarrow> int" where
  "from_big bs = foldl (\<lambda>a b. a * 256 + b) 0 bs"

definition from_little :: "bytes \<Rightarrow> int" where
  "from_little bs = foldr (\<lambda>b a. b + 256 * a) bs 0"

definition bytes_to_int :: "bytes \<Rightarrow> int \<Rightarrow> int \<Rightarrow> int" where
  "bytes_to_int frame offset len =
     (if int (length frame) < offset + len then 0
      else if len > 0 then from_big (py_slice frame offset (offset + len))
      else from_little (py_slice frame (offset + len + 1) (offset + 1)))"

definition high_byte :: "int \<Rightarrow> int" where
  "high_byte v = v div 256 mod 256"

definition low_byte :: "int \<Rightarrow> int" where
  "low_byte v = v mod 256"

lemma from_big_append: "from_big (xs @ ys) = from_big xs * 256 ^ length ys + from_big ys"
proof (induction ys rule: rev_induct)
  case (snoc y ys)
  have "from_big (zs @ [y]) = from_big zs * 256 + y" for zs by (simp add: from_big_def)
  from this [of "xs @ ys"] this [of ys] snoc show ?case by (simp add: algebra_simps)
qed (simp add: from_big_def)

lemma from_big_Nil [simp]: "from_big [] = 0"
  and from_big_Cons: "from_big (b # bs) = b * 256 ^ length bs + from_big bs"
  using from_big_append [of "[b]" bs] by (simp_all add: from_big_def)

lemma from_big_bounds: "is_bytes bs \<Longrightarrow> 0 \<le> from_big bs \<and> from_big bs < 256 ^ length bs"
proof (induction bs)
  case (Cons b bs)
  then have b: "0 \<le> b" "b \<le> 255" and r: "0 \<le> from_big bs" "from_big bs < 256 ^ length bs"
    by (auto simp: is_byte_def)
  then have "b * 256 ^ length bs \<le> 255 * 256 ^ length bs" by (intro mult_right_mono) auto
  with r have "b * 256 ^ length bs + from_big bs < 255 * 256 ^ length bs + 256 ^ length bs"
    by linarith
  with r b show ?case by (simp add: from_big_Cons)
qed simp

text \<open>
  an unsigned read never leaves its width, whatever the frame and the offset: the
  result of reading \<open>n\<close> bytes is between 0 and \<open>256 ^ n - 1\<close>, also from a short frame.
\<close>

theorem bytes_to_int_bounds:
  assumes "is_bytes frame" and "0 \<le> offset" and "0 < len"
  shows "0 \<le> bytes_to_int frame offset len \<and> bytes_to_int frame offset len < 256 ^ nat len"
proof (cases "int (length frame) < offset + len")
  case True
  then show ?thesis by (simp add: bytes_to_int_def)
next
  case False
  let ?s = "py_slice frame offset (offset + len)"
  have s: "?s = section_of frame (nat offset) (nat (offset + len))"
    using assms by (simp add: py_slice_nonneg)
  have "length ?s = nat len" using False assms unfolding s by (simp add: nat_add_distrib)
  moreover have "is_bytes ?s" unfolding s by (rule is_bytes_section_of [OF assms(1)])
  ultimately show ?thesis using False assms from_big_bounds [of ?s] by (simp add: bytes_to_int_def)
qed

theorem bytes_to_int_bounds_witness:
  "0 \<le> bytes_to_int [255, 3, 14, 1] 2 2 \<and> bytes_to_int [255, 3, 14, 1] 2 2 < 256 ^ nat 2"
  using bytes_to_int_bounds [of "[255, 3, 14, 1]" 2 2] by (simp add: is_byte_def)

text \<open>Two bytes at an offset, as every register reader uses it.\<close>

lemma bytes_to_int_2:
  "0 \<le> i \<Longrightarrow> i + 2 \<le> int (length frame) \<Longrightarrow>
   bytes_to_int frame i 2 = frame ! nat i * 256 + frame ! nat (i + 1)"
proof -
  assume i: "0 \<le> i" "i + 2 \<le> int (length frame)"
  then have "section_of frame (nat i) (nat (i + 2)) = [frame ! nat i, frame ! nat (i + 1)]"
    by (simp add: section_of_def nat_add_distrib list_eq_iff_nth_eq nth_Cons' less_Suc_eq nat_le_iff numeral_2_eq_2)
  with i show ?thesis by (simp add: bytes_to_int_def py_slice_nonneg from_big_def)
qed

subsection \<open>Frame validation\<close>

definition validate_frame :: "(bytes \<Rightarrow> int) \<Rightarrow> bytes option \<Rightarrow> bool" where
  "validate_frame crc frame =
     (case frame of
        None \<Rightarrow> False
      | Some f \<Rightarrow>
          if int (length f) < HEADER_BYTES + CRC_BYTES then False
          else if f ! 1 = FUNCTION_WRITE_RESPONSE then True
          else if int (length f) - (HEADER_BYTES + CRC_BYTES) \<noteq> f ! 2 then False
          else crc (py_slice f 0 (- CRC_BYTES)) = bytes_to_int f (int (length f) - 1) (- CRC_BYTES))"

text \<open>The lower-case \<open>{0:02x}\<close> of a byte, and the acknowledgement built from it.\<close>

definition hex_lower :: "int \<Rightarrow> int" where
  "hex_lower d = (if d < 10 then d + 48 else d + 87)"

definition ack_payload :: "bytes \<Rightarrow> py_error + bytes" where
  "ack_payload response =
     (case response of
        [] \<Rightarrow> Inl IndexError
      | b # _ \<Rightarrow> Inr (map of_char ''main recv da ta['' @ [hex_lower (b div 16), hex_lower (b mod 16)]
                      @ map of_char ''] [''))"

text \<open>A response as the device builds it: header, payload, CRC low byte first.\<close>

definition modbus_response :: "(bytes \<Rightarrow> int) \<Rightarrow> int \<Rightarrow> int \<Rightarrow> bytes \<Rightarrow> bytes" where
  "modbus_response crc dev fn payload =
     (let body = [dev, fn, int (length payload)] @ payload
      in body @ [low_byte (crc body), high_byte (crc body)])"

lemma crc_field: "bytes_to_int (body @ [lo, hi]) (int (length (body @ [lo, hi])) - 1) (- CRC_BYTES) = lo + 256 * hi"
  by (simp add: bytes_to_int_def CRC_BYTES_def py_slice_nonneg section_of_def from_little_def nat_add_distrib)

lemma crc_covered: "py_slice (body @ [lo, hi]) 0 (- CRC_BYTES) = body"
  by (simp add: py_slice_def clamp_bound_def section_of_def CRC_BYTES_def)

lemma validate_frame_snoc:
  assumes "3 \<le> length body" and "body ! 1 \<noteq> FUNCTION_WRITE_RESPONSE"
  shows "validate_frame crc (Some (body @ [lo, hi]))
           \<longleftrightarrow> int (length body) - 3 = body ! 2 \<and> crc body = lo + 256 * hi"
  using assms unfolding validate_frame_def option.case
  by (simp only: crc_field crc_covered) (auto simp: nth_append HEADER_BYTES_def CRC_BYTES_def)

subsection \<open>The interface of the CRC\<close>

locale crc16 =
  fixes crc :: "bytes \<Rightarrow> int"
  assumes crc_range: "is_bytes bs \<Longrightarrow> 0 \<le> crc bs \<and> crc bs < 65536"
begin

lemma crc_split: "is_bytes bs \<Longrightarrow> low_byte (crc bs) + 256 * high_byte (crc bs) = crc bs"
proof -
  assume "is_bytes bs"
  then have "crc bs div 256 mod 256 = crc bs div 256"
    using crc_range [of bs] by (intro mod_pos_pos_trivial) auto
  then show ?thesis by (simp add: low_byte_def high_byte_def)
qed

lemma response_accepted:
  assumes "is_byte dev" and "is_byte fn" and "fn \<noteq> FUNCTION_WRITE_RESPONSE"
    and "is_bytes payload" and "length payload < 256"
  shows "validate_frame crc (Some (modbus_response crc dev fn payload))"
proof -
  let ?body = "[dev, fn, int (length payload)] @ payload"
  have "is_bytes ?body" using assms by (auto simp: is_byte_def)
  then have "crc ?body = low_byte (crc ?body) + 256 * high_byte (crc ?body)" by (rule crc_split [symmetric])
  moreover have "validate_frame crc (Some (?body @ [low_byte (crc ?body), high_byte (crc ?body)]))
      \<longleftrightarrow> int (length ?body) - 3 = ?body ! 2 \<and> crc ?body = low_byte (crc ?body) + 256 * high_byte (crc ?body)"
    using assms(3) by (intro validate_frame_snoc) auto
  ultimately show ?thesis by (simp add: modbus_response_def Let_def)
qed

lemma trailer_unique:
  assumes "3 \<le> length body" and "body ! 1 \<noteq> FUNCTION_WRITE_RESPONSE"
    and "is_byte lo" and "is_byte hi"
    and "validate_frame crc (Some (body @ [lo, hi]))"
  shows "lo = low_byte (crc body) \<and> hi = high_byte (crc body)"
proof -
  have "crc body = lo + 256 * hi" using assms validate_frame_snoc [of body crc lo hi] by simp
  then show ?thesis using assms(3,4) by (auto simp: low_byte_def high_byte_def is_byte_def)
qed

end

text \<open>
  A frame with function code 6 is accepted without a look at its CRC: the documented choice
  for write responses (\<open>carries no payload to check\<close>).
\<close>

lemma write_response_unchecked:
  "5 \<le> length f \<Longrightarrow> f ! 1 = FUNCTION_WRITE_RESPONSE \<Longrightarrow> validate_frame crc (Some f)"
  by (simp add: validate_frame_def HEADER_BYTES_def CRC_BYTES_def)

end
