(* ===== verification/ModbusCrc.thy ===== *)
theory ModbusCrc
  imports Modbus
begin

unbundle bit_operations_syntax

section \<open>The bitwise CRC-16/MODBUS of the Hacien plugin\<close>

text \<open>
  \<open>Util.modbusCrc\<close> and \<open>Util.validate\<close> of \<open>plugins/Hacien\<close>, with the algebra that makes the
  check worth having: one bit step is injective on 16-bit registers, so is one byte step in
  the register and in the byte, a frame closed with its own CRC has residue 0, and no other
  trailer does. The locale \<open>crc16\<close> of the Modbus frame check is interpreted here.
\<close>

text \<open>The body of the inner loop, for one of the eight bits.\<close>

definition crc_bit :: "int \<Rightarrow> int" where
  "crc_bit crc = (if crc AND 1 \<noteq> 0 then (drop_bit 1 crc) XOR 0xA001 else drop_bit 1 crc)"

definition crc_byte :: "int \<Rightarrow> int \<Rightarrow> int" where
  "crc_byte crc n = (crc_bit ^^ 8) (crc XOR n)"

definition modbusCrc :: "bytes \<Rightarrow> int" where
  "modbusCrc msg = foldl crc_byte 0xFFFF msg"

definition crc_valid :: "bytes \<Rightarrow> bool" where
  "crc_valid msg \<longleftrightarrow> 0 < length msg \<and> modbusCrc msg = 0"

subsection \<open>Registers stay 16 bits wide\<close>

definition is_reg :: "int \<Rightarrow> bool" where
  "is_reg c \<longleftrightarrow> take_bit 16 c = c"

lemma is_reg_iff: "is_reg c \<longleftrightarrow> 0 \<le> c \<and> c < 65536"
  using take_bit_int_eq_self_iff [of 16 c] by (simp add: is_reg_def)

lemma is_reg_byte [simp]: "is_byte b \<Longrightarrow> is_reg b"
  by (simp add: is_reg_iff is_byte_def)

lemma is_reg_xor [simp]: "is_reg a \<Longrightarrow> is_reg b \<Longrightarrow> is_reg (a XOR b)"
  by (simp add: is_reg_def take_bit_xor)

lemma crc_bit_div: "crc_bit c = (if odd c then (c div 2) XOR 0xA001 else c div 2)"
proof -
  have "c AND 1 \<noteq> 0 \<longleftrightarrow> odd c" by (simp add: and_one_eq odd_iff_mod_2_eq_one)
  then show ?thesis by (simp add: crc_bit_def drop_bit_Suc)
qed

lemma half_reg: "is_reg c \<Longrightarrow> is_reg (c div 2)"
  by (simp add: is_reg_iff) linarith

lemma is_reg_crc_bit [simp]: "is_reg c \<Longrightarrow> is_reg (crc_bit c)"
proof -
  assume "is_reg c"
  then have "is_reg (c div 2)" by (rule half_reg)
  moreover have "is_reg 0xA001" by (simp add: is_reg_iff)
  ultimately show ?thesis unfolding crc_bit_div by (auto intro: is_reg_xor)
qed

lemma is_reg_bits: "is_reg c \<Longrightarrow> is_reg ((crc_bit ^^ n) c)"
  by (induction n) auto

lemma is_reg_crc_byte [simp]: "is_reg c \<Longrightarrow> is_byte n \<Longrightarrow> is_reg (crc_byte c n)"
  by (simp add: crc_byte_def is_reg_bits)

lemma is_reg_foldl: "is_reg c \<Longrightarrow> is_bytes msg \<Longrightarrow> is_reg (foldl crc_byte c msg)"
  by (induction msg arbitrary: c) auto

lemma is_reg_modbusCrc: "is_bytes msg \<Longrightarrow> is_reg (modbusCrc msg)"
  unfolding modbusCrc_def by (rule is_reg_foldl) (simp_all add: is_reg_iff)

subsection \<open>Every step is injective\<close>

text \<open>
  The polynomial has its top bit set and a halved register has it clear, so the top bit of
  the result tells whether the register was odd.
\<close>

lemma crc_bit_top: "is_reg c \<Longrightarrow> bit (crc_bit c) 15 \<longleftrightarrow> odd c"
proof -
  assume c: "is_reg c"
  then have "take_bit 15 (c div 2) = c div 2"
    by (intro take_bit_int_eq_self) (auto simp: is_reg_iff)
  then have "\<not> bit (c div 2) 15" by (metis bit_take_bit_iff less_irrefl)
  moreover have "bit (0xA001 :: int) 15" by (simp add: bit_numeral_rec flip: numeral_eq_Suc)
  ultimately show ?thesis by (simp add: crc_bit_div bit_xor_iff)
qed

lemma xor_cancel: "a XOR p = b XOR p \<Longrightarrow> a = b" for a b p :: int
  by (metis bit.xor_cancel_left xor.commute xor.left_commute xor_self_eq xor.right_neutral)

lemma crc_bit_inj:
  assumes "is_reg a" and "is_reg b" and "crc_bit a = crc_bit b"
  shows "a = b"
proof -
  have par: "odd a \<longleftrightarrow> odd b" using crc_bit_top assms by metis
  with assms(3) have "a div 2 = b div 2"
    by (auto simp: crc_bit_div dest: xor_cancel split: if_splits)
  with par show ?thesis by (metis div_mult_mod_eq odd_iff_mod_2_eq_one even_iff_mod_2_eq_zero)
qed

lemma crc_bits_inj: "is_reg a \<Longrightarrow> is_reg b \<Longrightarrow> (crc_bit ^^ n) a = (crc_bit ^^ n) b \<Longrightarrow> a = b"
  by (induction n) (auto dest: crc_bit_inj [rotated 2] simp: is_reg_bits)

lemma crc_byte_inj_reg:
  "is_reg a \<Longrightarrow> is_reg b \<Longrightarrow> is_byte n \<Longrightarrow> crc_byte a n = crc_byte b n \<Longrightarrow> a = b"
  unfolding crc_byte_def by (drule crc_bits_inj [rotated 2]) (auto dest: xor_cancel)

lemma crc_byte_inj_byte:
  "is_reg c \<Longrightarrow> is_byte m \<Longrightarrow> is_byte n \<Longrightarrow> crc_byte c m = crc_byte c n \<Longrightarrow> m = n"
  unfolding crc_byte_def
  by (drule crc_bits_inj [rotated 2]) (auto dest: xor_cancel simp: xor.commute [of c])

lemma foldl_crc_inj:
  "is_reg a \<Longrightarrow> is_reg b \<Longrightarrow> is_bytes msg \<Longrightarrow> foldl crc_byte a msg = foldl crc_byte b msg \<Longrightarrow> a = b"
proof (induction msg arbitrary: a b)
  case (Cons n msg)
  then have "crc_byte a n = crc_byte b n" by simp
  with Cons.prems show ?case by (auto intro: crc_byte_inj_reg)
qed simp

text \<open>
  C32: a burst confined to one byte of a valid message is always detected: change any one
  byte of a message whose CRC residue is 0 and the residue is not 0 any more.
\<close>

theorem crc_detects_one_byte:
  assumes "is_bytes (pre @ x # post)" and "is_byte y" and "y \<noteq> x"
    and "crc_valid (pre @ x # post)"
  shows "\<not> crc_valid (pre @ y # post)"
proof
  assume "crc_valid (pre @ y # post)"
  then have eq: "foldl crc_byte (crc_byte (modbusCrc pre) x) post = foldl crc_byte (crc_byte (modbusCrc pre) y) post"
    using assms(4) by (simp add: crc_valid_def modbusCrc_def)
  have reg: "is_reg (modbusCrc pre)" using assms(1) by (simp add: is_reg_modbusCrc)
  then have "crc_byte (modbusCrc pre) x = crc_byte (modbusCrc pre) y"
    using assms(1,2) by (intro foldl_crc_inj [OF _ _ _ eq]) auto
  then have "x = y" using assms(1,2) reg by (auto intro: crc_byte_inj_byte)
  with assms(3) show False by simp
qed

text \<open>The poll frame of \<open>pollRequest\<close> for the cell voltages, and one of its bytes changed.\<close>

lemma poll_frame_valid: "crc_valid [1, 3, 0xd0, 0, 0, 0x26, 0xfc, 0xd0]"
  by code_simp

theorem crc_detects_one_byte_witness: "\<not> crc_valid [1, 3, 0xd0, 0, 0, 0x27, 0xfc, 0xd0]"
  using crc_detects_one_byte [of "[1, 3, 0xd0, 0, 0]" "0x26" "[0xfc, 0xd0]" "0x27"] poll_frame_valid
  by (simp add: is_byte_def)

subsection \<open>A frame closed with its own CRC\<close>

lemma crc_bit_double: "crc_bit (2 * k) = k"
  by (simp add: crc_bit_div)

lemma crc_bits_shift: "(crc_bit ^^ n) (2 ^ n * k) = k"
proof (induction n)
  case (Suc n)
  have "crc_bit (2 ^ Suc n * k) = 2 ^ n * k" using crc_bit_double [of "2 ^ n * k"] by (simp add: mult.assoc)
  with Suc show ?case by (simp only: funpow_Suc_right comp_def)
qed simp

lemma xor_low_byte: "c XOR (c mod 256) = 256 * (c div 256)" for c :: int
proof (rule bit_eqI)
  fix n
  have "c mod 256 = take_bit 8 c" and "256 * (c div 256) = push_bit 8 (drop_bit 8 c)"
    by (simp_all add: take_bit_eq_mod push_bit_eq_mult drop_bit_eq_div)
  then show "bit (c XOR (c mod 256)) n \<longleftrightarrow> bit (256 * (c div 256)) n"
    by (auto simp: bit_xor_iff bit_take_bit_iff bit_push_bit_iff bit_drop_bit_eq)
qed

lemma crc_byte_own_low: "crc_byte c (c mod 256) = c div 256"
  using crc_bits_shift [of 8 "c div 256"] by (simp add: crc_byte_def xor_low_byte)

lemma crc_byte_self: "crc_byte c c = 0"
  using crc_bits_shift [of 8 0] by (simp add: crc_byte_def)

lemma trailer_iff:
  assumes "is_bytes msg" and "is_byte lo" and "is_byte hi"
  shows "crc_valid (msg @ [lo, hi])
           \<longleftrightarrow> lo = low_byte (modbusCrc msg) \<and> hi = high_byte (modbusCrc msg)"
proof -
  let ?c = "modbusCrc msg"
  have reg: "is_reg ?c" by (rule is_reg_modbusCrc [OF assms(1)])
  then have high: "high_byte ?c = ?c div 256" and high_byte: "is_byte (?c div 256)"
    by (auto simp: is_reg_iff high_byte_def is_byte_def)
  have low: "is_byte (?c mod 256)" by (simp add: is_byte_def)
  have valid: "crc_valid (msg @ [lo, hi]) \<longleftrightarrow> crc_byte (crc_byte ?c lo) hi = 0"
    by (simp add: crc_valid_def modbusCrc_def)
  have last: "crc_byte r hi = 0 \<longleftrightarrow> r = hi" if "is_reg r" for r
    using crc_byte_inj_reg [OF that _ assms(3), of hi] crc_byte_self assms(3) by auto
  have "crc_byte ?c lo = hi \<longleftrightarrow> lo = ?c mod 256 \<and> hi = ?c div 256"
  proof
    assume lo: "crc_byte ?c lo = hi"
    have "crc_byte (256 * hi) 0 = hi" using crc_bits_shift [of 8 hi] by (simp add: crc_byte_def)
    then have eq: "(crc_bit ^^ 8) (?c XOR lo) = (crc_bit ^^ 8) (256 * hi)"
      using lo by (simp add: crc_byte_def)
    have "is_reg (?c XOR lo)" using reg assms(2) by simp
    moreover have "is_reg (256 * hi)" using assms(3) by (simp add: is_reg_iff is_byte_def)
    ultimately have x: "?c XOR lo = 256 * hi" using eq by (rule crc_bits_inj)
    have "take_bit 8 (?c XOR lo) = 0" by (simp add: x take_bit_eq_mod)
    then have "take_bit 8 ?c XOR take_bit 8 lo = take_bit 8 lo XOR take_bit 8 lo"
      by (simp only: take_bit_xor xor_self_eq)
    then have "take_bit 8 ?c = take_bit 8 lo" by (rule xor_cancel)
    then have "lo = ?c mod 256" using assms(2) by (simp add: take_bit_eq_mod is_byte_def)
    moreover from this lo have "hi = ?c div 256" by (simp add: crc_byte_own_low)
    ultimately show "lo = ?c mod 256 \<and> hi = ?c div 256" by simp
  qed (simp add: crc_byte_own_low)
  with valid last [of "crc_byte ?c lo"] reg assms(2) high show ?thesis
    by (simp add: low_byte_def)
qed

text \<open>
  exactly one pair of trailing bytes closes a message: \<open>validate\<close> accepts
  \<open>msg @ [lo, hi]\<close> if and only if \<open>lo\<close> and \<open>hi\<close> are the low and the high byte of the CRC of
  \<open>msg\<close>.
\<close>

theorem crc_residue_iff:
  assumes "is_bytes msg" and "is_byte lo" and "is_byte hi"
  shows "crc_valid (msg @ [lo, hi])
           \<longleftrightarrow> lo = low_byte (modbusCrc msg) \<and> hi = high_byte (modbusCrc msg)"
  using assms by (rule trailer_iff)

theorem crc_residue_iff_witness:
  "0xfc = low_byte (modbusCrc [1, 3, 0xd0, 0, 0, 0x26]) \<and> 0xd0 = high_byte (modbusCrc [1, 3, 0xd0, 0, 0, 0x26])"
  using crc_residue_iff [of "[1, 3, 0xd0, 0, 0, 0x26]" "0xfc" "0xd0"] poll_frame_valid
  by (simp add: is_byte_def)

subsection \<open>The CRC of the frame check\<close>

interpretation hacien_crc: crc16 modbusCrc
  by unfold_locales (use is_reg_modbusCrc in \<open>auto simp: is_reg_iff\<close>)


text \<open>
  with the CRC-16/MODBUS, the frame check accepts every response a device builds: any
  address, any function code but the unchecked one, any payload of up to 255 bytes.
\<close>

theorem modbus_response_accepted:
  assumes "is_byte dev" and "is_byte fn" and "fn \<noteq> FUNCTION_WRITE_RESPONSE"
    and "is_bytes payload" and "length payload < 256"
  shows "validate_frame modbusCrc (Some (modbus_response modbusCrc dev fn payload))"
  using assms by (rule hacien_crc.response_accepted)

theorem modbus_response_accepted_witness:
  "validate_frame modbusCrc (Some (modbus_response modbusCrc 255 3 [0, 100, 0, 128]))"
  using modbus_response_accepted [of 255 3 "[0, 100, 0, 128]"]
  by (simp add: is_byte_def FUNCTION_WRITE_RESPONSE_def)

text \<open>
  and it accepts no other trailer: two bytes that pass the check behind a body are the
  CRC of the body, low byte first.
\<close>

theorem modbus_trailer_unique:
  assumes "3 \<le> length body" and "body ! 1 \<noteq> FUNCTION_WRITE_RESPONSE"
    and "is_byte lo" and "is_byte hi"
    and "validate_frame modbusCrc (Some (body @ [lo, hi]))"
  shows "lo = low_byte (modbusCrc body) \<and> hi = high_byte (modbusCrc body)"
  using assms by (rule hacien_crc.trailer_unique)

theorem modbus_trailer_unique_witness:
  "modbusCrc [255, 3, 2, 0, 100] = 31632 \<and>
   144 = low_byte (modbusCrc [255, 3, 2, 0, 100]) \<and> 123 = high_byte (modbusCrc [255, 3, 2, 0, 100])"
proof -
  have "validate_frame modbusCrc (Some ([255, 3, 2, 0, 100] @ [144, 123]))" by code_simp
  then show ?thesis
    using modbus_trailer_unique [of "[255, 3, 2, 0, 100]" 144 123]
    by (simp add: is_byte_def FUNCTION_WRITE_RESPONSE_def) code_simp
qed

end
