(* ===== verification/Hacien.thy ===== *)
theory Hacien
  imports Device ModbusCrc
begin

section \<open>plugins/Hacien: polled Modbus responses in pieces\<close>

text \<open>
  The Hacien packs answer a poll with a Modbus response cut into several notifications.
  \<open>notificationUpdate\<close> collects pieces until the residue of the CRC is zero, \<open>handleMessage\<close>
  decodes the two registers polled, telling them apart by the length byte, and \<open>pollRequest\<close>
  walks through a cycle of ten steps, two of which send a request. A message is stored as a
  value here; the program keeps a reference to the buffer. The debug log file is left out.
\<close>

record hacien =
  buffer :: bytes
  pollnum :: int
  hprev_values :: "int \<rightharpoonup> bytes"

definition hacien_init :: hacien where
  "hacien_init = \<lparr>buffer = [], pollnum = 0, hprev_values = Map.empty\<rparr>"

definition hacien_config :: plugin_config where
  "hacien_config =
     \<lparr>cfg_notify_chars = [''6e400003-b5a3-f393-e0a9-e50e24dcca9e''],
      cfg_write_polling = Some ''6e400002-b5a3-f393-e0a9-e50e24dcca9e'', cfg_write_commands = None,
      cfg_device_id = None, cfg_need_polling = True, cfg_send_ack = False\<rparr>"

subsection \<open>Decoding\<close>

text \<open>Register \<open>0xd000\<close>: \<open>int((t - 380) / 10)\<close> degrees, currents in 100 mA, and so on.\<close>

definition handle_battery_data :: "bytes \<Rightarrow> (device, unit) pym" where
  "handle_battery_data message =
     block
       [bind (word_at message 3 4) (\<lambda>t.
          assign_attr A_temperature_celsius (PInt (num_trunc (num_quot (PInt (t - 380)) (PInt 10))))),
        bind (word_at message 27 28) (\<lambda>charge.
        bind (word_at message 29 30) (\<lambda>draw.
          let charge_current = charge * 100; draw_current = draw * 100 in
          if draw_current > 0 then assign_attr A_mcurrent (PInt (- draw_current))
          else assign_attr A_mcurrent (PInt charge_current))),
        bind (word_at message 35 36) (\<lambda>c. assign_attr A_exp_capacity (num_quot (PInt c) (PInt 100))),
        bind (word_at message 37 38) (\<lambda>c. assign_attr A_mcapacity (PInt (c * 10))),
        bind (byte_at message 42) (\<lambda>n. assign_attr A_charge_cycles (PInt n)),
        bind (byte_at message 32) (\<lambda>n. assign_attr A_soc (PInt n)),
        bind (\<lambda>d. (get_attr A_temperature_celsius (ents d), d)) (\<lambda>v.
          case v of PNum t \<Rightarrow> assign_attr A_battery_temperature_celsius t | _ \<Rightarrow> throw TypeError)]"

definition cell_present :: "int \<Rightarrow> int \<Rightarrow> bool" where
  "cell_present high low \<longleftrightarrow> high \<noteq> 238 \<and> low \<noteq> 73"

text \<open>The loop over \<open>i = 0, 2, 4, 6\<close>; the second byte is read only when the first differs.\<close>

definition assign_hacien_cell :: "bytes \<Rightarrow> int \<Rightarrow> (device, unit) pym" where
  "assign_hacien_cell message i =
     bind (byte_at message (i + 3)) (\<lambda>high.
       if high = 238 then ret ()
       else bind (byte_at message (i + 4)) (\<lambda>low.
         whenp (cell_present high low) (assign_cell (i div 2 + 1) (PInt (high * 256 + low)))))"

definition handle_cell_data :: "bytes \<Rightarrow> (device, unit) pym" where
  "handle_cell_data message =
     block
       (bind (word_at message (- 4) (- 3)) (\<lambda>v. assign_attr A_mvoltage (PInt (v * 10))) #
        map (assign_hacien_cell message) [0, 2, 4, 6])"

definition hacien_message :: "bytes \<Rightarrow> (hacien, bool) util" where
  "hacien_message message =
     bind (byte_at message 2) (\<lambda>id.
     bind (on_util (modify (\<lambda>u. u\<lparr>hprev_values := (hprev_values u)(id \<mapsto> message)\<rparr>))) (\<lambda>_.
     bind (on_device (assign_msg message)) (\<lambda>_.
       if 10 < length message \<and> id = 0x32 then
         bind (on_device (handle_battery_data message)) (\<lambda>_. ret True)
       else if 10 < length message \<and> id = 0x4c then
         bind (on_device (handle_cell_data message)) (\<lambda>_. ret True)
       else ret False)))"

subsection \<open>Notifications and polls\<close>

definition new_message :: "bytes \<Rightarrow> ('s, bool) pym" where
  "new_message data =
     bind (byte_at data 0) (\<lambda>a. if a = 1 then bind (byte_at data 1) (\<lambda>b. ret (b = 3)) else ret False)"

definition hacien_notification :: "bytes \<Rightarrow> uuid \<Rightarrow> (hacien, bool) util" where
  "hacien_notification data char =
     bind (new_message data) (\<lambda>new.
     bind (on_util (modify (\<lambda>u. u\<lparr>buffer := (if new then [] else buffer u) @ data\<rparr>))) (\<lambda>_.
     bind util_state (\<lambda>u.
       if crc_valid (buffer u) then hacien_message (buffer u) else ret False)))"

definition hacien_poll_data :: "int \<Rightarrow> payload" where
  "hacien_poll_data n =
     (if n = 1 then Ints [0x01, 0x03, 0xd0, 0x00, 0x00, 0x26, 0xfc, 0xd0]
      else if n = 3 then Ints [0x01, 0x03, 0xd0, 0x26, 0x00, 0x19, 0x5d, 0x0b]
      else NoData)"

definition hacien_poll :: "(hacien, payload) util" where
  "hacien_poll =
     bind util_state (\<lambda>u.
     bind (on_util (modify (\<lambda>u. u\<lparr>pollnum := (if pollnum u = 10 then 0 else pollnum u) + 1\<rparr>))) (\<lambda>_.
       ret (hacien_poll_data (pollnum u))))"

text \<open>\<open>ackData\<close> takes no argument, so calling it with one raises; \<open>SEND_ACK\<close> is off.\<close>

definition hacien_plugin :: "hacien plugin" where
  "hacien_plugin =
     \<lparr>notification = hacien_notification, poll_request = hacien_poll, cmd_request = None,
      ack_data = (\<lambda>v. throw TypeError)\<rparr>"

subsection \<open>The contract of a plugin\<close>

definition hacien_inv :: "hacien \<Rightarrow> bool" where
  "hacien_inv u \<longleftrightarrow> 0 \<le> pollnum u \<and> pollnum u \<le> 10 \<and> is_bytes (buffer u)"

lemma wf_battery_data: "preserves wf_device (handle_battery_data message)"
  unfolding handle_battery_data_def
  by (rule preserves_block)
    (auto simp: Let_def intro!: preserves_bind preserves_word_at preserves_byte_at wf_assign_attr
      preserves_read preserves_throw split: pyval.split)

lemma wf_hacien_cell: "preserves wf_device (assign_hacien_cell message i)"
  unfolding assign_hacien_cell_def
  by (auto intro!: preserves_bind preserves_byte_at preserves_whenp wf_assign_cell preserves_ret)

lemma wf_cell_data: "preserves wf_device (handle_cell_data message)"
  unfolding handle_cell_data_def
  by (rule preserves_block) (auto intro!: preserves_bind preserves_word_at wf_assign_attr wf_hacien_cell)

lemma hacien_message_keeps: "preserves (keeps hacien_inv) (hacien_message message)"
proof -
  have "preserves hacien_inv (modify (\<lambda>u. u\<lparr>hprev_values := (hprev_values u)(id \<mapsto> message)\<rparr>))" for id
    by (intro preserves_modify) (simp add: hacien_inv_def)
  then show ?thesis
    unfolding hacien_message_def
    by (auto intro!: preserves_bind preserves_byte_at keeps_on_util keeps_on_device wf_assign_msg
        wf_battery_data wf_cell_data preserves_ret)
qed

lemma hacien_keeps: "is_bytes data \<Longrightarrow> preserves (keeps hacien_inv) (hacien_notification data c)"
proof -
  assume "is_bytes data"
  then have "preserves hacien_inv (modify (\<lambda>u. u\<lparr>buffer := (if new then [] else buffer u) @ data\<rparr>))" for new
    by (intro preserves_modify) (simp add: hacien_inv_def)
  moreover have "preserves (keeps hacien_inv) (new_message data)"
    unfolding new_message_def by (auto intro!: preserves_bind preserves_byte_at preserves_ret)
  ultimately show ?thesis
    unfolding hacien_notification_def util_state_def
    by (auto intro!: preserves_bind keeps_on_util preserves_gets hacien_message_keeps preserves_ret)
qed

lemma hacien_poll_keeps: "preserves (keeps hacien_inv) hacien_poll"
proof -
  have "preserves hacien_inv (modify (\<lambda>u. u\<lparr>pollnum := (if pollnum u = 10 then 0 else pollnum u) + 1\<rparr>))"
    by (intro preserves_modify) (auto simp: hacien_inv_def)
  then show ?thesis
    unfolding hacien_poll_def util_state_def
    by (intro preserves_bind preserves_gets keeps_on_util preserves_ret)
qed

interpretation hacien: plugin_contract hacien_plugin hacien_inv
  by unfold_locales
    (auto simp: hacien_plugin_def intro: hacien_keeps hacien_poll_keeps preserves_throw)

subsection \<open>Reassembly\<close>

definition starts_message :: "bytes \<Rightarrow> bool" where
  "starts_message data \<longleftrightarrow> 2 \<le> length data \<and> data ! 0 = 1 \<and> data ! 1 = 3"

text \<open>A piece that neither starts a message nor is the single byte 1, on which the test raises.\<close>

definition continuation :: "bytes \<Rightarrow> bool" where
  "continuation data \<longleftrightarrow> data \<noteq> [] \<and> data \<noteq> [1] \<and> \<not> starts_message data"

lemma run_new_message:
  "starts_message data \<Longrightarrow> new_message data s = (Inr True, s)"
  "continuation data \<Longrightarrow> new_message data s = (Inr False, s)"
  by (cases data; cases "tl data"; force simp: starts_message_def continuation_def new_message_def byte_at_def
      py_get_def pym_simps)+

lemma hacien_step:
  assumes "starts_message x \<and> b = x \<or> continuation x \<and> b = buffer u @ x"
  shows "hacien_notification x c (u, d) =
    (if crc_valid b then hacien_message b (u\<lparr>buffer := b\<rparr>, d) else (Inr False, (u\<lparr>buffer := b\<rparr>, d)))"
  using assms
  by (auto simp: hacien_notification_def run_new_message pym_simps on_util_def util_state_def)

definition deliver :: "bytes list \<Rightarrow> hacien \<times> device \<Rightarrow> hacien \<times> device" where
  "deliver ps s = foldl (\<lambda>s x. snd (hacien_notification x [] s)) s ps"

lemma deliver_incomplete:
  assumes "starts_message p" and "list_all continuation ps"
    and "\<forall>k \<le> length ps. \<not> crc_valid (concat (p # take k ps))"
  shows "deliver (p # ps) (u, d) = (u\<lparr>buffer := concat (p # ps)\<rparr>, d)"
  using assms(2,3)
proof (induction ps rule: rev_induct)
  case Nil
  then show ?case using assms(1) hacien_step [of p p u "[]" d] by (simp add: deliver_def)
next
  case (snoc x ps)
  have "\<forall>k \<le> length ps. \<not> crc_valid (concat (p # take k ps))"
    using snoc.prems(2) by (metis append_take_drop_id length_append_singleton le_SucI take_append take_all_iff
        diff_is_0_eq take0 append_Nil2)
  then have "deliver (p # ps) (u, d) = (u\<lparr>buffer := concat (p # ps)\<rparr>, d)"
    using snoc.prems(1) by (intro snoc.IH) simp_all
  then have "deliver (p # ps @ [x]) (u, d) = snd (hacien_notification x [] (u\<lparr>buffer := concat (p # ps)\<rparr>, d))"
    by (simp add: deliver_def)
  also have "\<dots> = (u\<lparr>buffer := concat (p # ps) @ x\<rparr>, d)"
    using snoc.prems(1) spec [OF snoc.prems(2), of "length (ps @ [x])"]
      hacien_step [of x "concat (p # ps) @ x" "u\<lparr>buffer := concat (p # ps)\<rparr>" "[]" d] by simp
  finally show ?case by simp
qed

lemma last_piece:
  assumes "starts_message p" and "list_all continuation (ps @ [q])"
    and "\<forall>k \<le> length ps. \<not> crc_valid (concat (p # take k ps))"
    and "crc_valid (concat (p # ps) @ q)"
  shows "snd (deliver (p # ps) (u, d)) = d \<and>
    hacien_notification q c (deliver (p # ps) (u, d)) =
      hacien_message (concat (p # ps) @ q) (u\<lparr>buffer := concat (p # ps) @ q\<rparr>, d)"
proof -
  have pieces: "deliver (p # ps) (u, d) = (u\<lparr>buffer := concat (p # ps)\<rparr>, d)"
    using assms by (intro deliver_incomplete) simp_all
  show ?thesis
    unfolding pieces
    using assms hacien_step [of q "concat (p # ps) @ q" "u\<lparr>buffer := concat (p # ps)\<rparr>" c d] by simp
qed


text \<open>The captured response of a pack, in the three notifications it came in.\<close>

definition captured :: "bytes list" where
  "captured =
     [[1, 3, 50, 1, 224, 0, 0, 0, 0, 0, 0, 0, 0, 0, 0, 1, 234, 0, 0, 0],
      [0, 2, 18, 1, 234, 1, 224, 0, 71, 0, 0, 0, 100, 0, 100, 48, 212, 48, 212, 48],
      [212, 0, 6, 0, 0, 0, 0, 0, 0, 0, 0, 0, 0, 4, 166]]"


subsection \<open>Polling\<close>

fun polls :: "nat \<Rightarrow> hacien \<times> device \<Rightarrow> payload list" where
  "polls 0 s = []"
| "polls (Suc n) s = (case hacien_poll s of (Inl e, s') \<Rightarrow> [] | (Inr x, s') \<Rightarrow> x # polls n s')"

text \<open>
  in any ten consecutive polls, from wherever in the cycle, both registers are requested
  exactly once and the other eight polls send nothing; both requests carry a valid checksum.
\<close>

theorem hacien_poll_cycle:
  assumes "hacien_inv u"
  shows "length (filter (\<lambda>x. x = hacien_poll_data 1) (polls 10 (u, d))) = 1 \<and>
    length (filter (\<lambda>x. x = hacien_poll_data 3) (polls 10 (u, d))) = 1 \<and>
    length (filter (\<lambda>x. x = NoData) (polls 10 (u, d))) = 8 \<and>
    (\<exists>a b. hacien_poll_data 1 = Ints a \<and> crc_valid a \<and> hacien_poll_data 3 = Ints b \<and> crc_valid b)"
proof -
  have run: "hacien_poll (v, d) = (Inr (hacien_poll_data (pollnum v)), (v\<lparr>pollnum := (if pollnum v = 10 then 0 else pollnum v) + 1\<rparr>, d))" for v
    by (simp add: hacien_poll_def pym_simps util_state_def on_util_def)
  have valid: "crc_valid [0x01, 0x03, 0xd0, 0x00, 0x00, 0x26, 0xfc, 0xd0]" "crc_valid [0x01, 0x03, 0xd0, 0x26, 0x00, 0x19, 0x5d, 0x0b]"
    by code_simp+
  have "0 \<le> pollnum u" and "pollnum u \<le> 10" using assms by (simp_all add: hacien_inv_def)
  then have "pollnum u \<in> {0, 1, 2, 3, 4, 5, 6, 7, 8, 9, 10}" unfolding insert_iff empty_iff by presburger
  then have "length (filter (\<lambda>x. x = hacien_poll_data 1) (polls 10 (u, d))) = 1 \<and>
    length (filter (\<lambda>x. x = hacien_poll_data 3) (polls 10 (u, d))) = 1 \<and>
    length (filter (\<lambda>x. x = NoData) (polls 10 (u, d))) = 8"
    by (elim insertE emptyE; simp add: eval_nat_numeral run hacien_poll_data_def)
  then show ?thesis using valid by (simp add: hacien_poll_data_def)
qed

theorem hacien_poll_cycle_witness:
  "length (filter (\<lambda>x. x = NoData) (polls 10 (hacien_init, sample_device ''battery_1'' [] 5))) = 8"
  using hacien_poll_cycle [of hacien_init] by (simp add: hacien_inv_def hacien_init_def)

subsection \<open>The cell filter\<close>

text \<open>
  the test for an absent cell, whose reading is 238, 73, drops real readings as well: a
  cell whose voltage happens to end in the byte 73, 3401 mV among them, is passed over and
  keeps its old value.
\<close>

theorem hacien_cell_dropped:
  assumes "0 \<le> i" and "nat i + 4 < length message" and "message ! (nat i + 4) = 73"
  shows "assign_hacien_cell message i d = (Inr (), d)"
proof -
  have "py_get message (i + 3) = Inr (message ! (nat i + 3))" "py_get message (i + 4) = Inr 73"
    using assms by (simp_all add: py_get_def nat_add_distrib)
  then show ?thesis by (simp add: assign_hacien_cell_def byte_at_def pym_simps cell_present_def)
qed

theorem hacien_cell_dropped_witness:
  "(13 * 256 + 73 :: int) = 3401 \<and>
   assign_hacien_cell [1, 3, 0x4c, 13, 73, 13, 80] 0 (sample_device ''battery_1'' [] 5) = (Inr (), sample_device ''battery_1'' [] 5)"
  using hacien_cell_dropped [of 0 "[1, 3, 0x4c, 13, 73, 13, 80]" "sample_device ''battery_1'' [] 5"] by simp


end
