(* ===== verification/Topband.thy ===== *)
theory Topband
  imports Device Asciihex Codec
begin

section \<open>plugins/Topband: a byte-wise frame collector\<close>

text \<open>
  The parser of the Topband packs: three states, driven byte by byte, collect a frame of 114
  bytes behind the head 94; the check happens on the byte after it. The buffer starts out as
  zeros here, as \<open>None\<close> in the program; no entry is read before it is written. The theorems:
  the collector never indexes outside its buffer, and the byte that triggers the check is
  lost, with the rest of its notification.
\<close>

datatype recv = SOI | INFO | EOI

record topband =
  recv_type :: recv
  tbuf :: bytes
  tindex :: nat
  tend :: nat

definition topband_init :: topband where
  "topband_init = \<lparr>recv_type = SOI, tbuf = replicate 115 0, tindex = 0, tend = 0\<rparr>"

definition topband_config :: plugin_config where
  "topband_config =
     \<lparr>cfg_notify_chars = [''0000ffe4-0000-1000-8000-00805f9b34fb''], cfg_write_polling = None,
      cfg_write_commands = None, cfg_device_id = None, cfg_need_polling = False, cfg_send_ack = False\<rparr>"

definition protocolHead :: int where "protocolHead = 94"
definition protocolEnd :: int where "protocolEnd = 0"

subsection \<open>Collecting a frame\<close>

definition restart :: "topband \<Rightarrow> topband" where
  "restart u = u\<lparr>tindex := 0, tend := 0, recv_type := SOI\<rparr>"

definition put_byte :: "int \<Rightarrow> topband \<Rightarrow> topband" where
  "put_byte b u = u\<lparr>tbuf := (tbuf u)[tindex u := b], tindex := tindex u + 1\<rparr>"

text \<open>One pass of the loop: the state after the byte, and the frame when one is complete.\<close>

definition topband_byte :: "int \<Rightarrow> topband \<Rightarrow> topband \<times> bytes option" where
  "topband_byte b u0 =
     (let u = (if tindex u0 > 114 then restart u0 else u0) in
      case recv_type u of
        SOI \<Rightarrow> (if b = protocolHead then put_byte b (u\<lparr>recv_type := INFO\<rparr>) else u, None)
      | INFO \<Rightarrow>
          (let v = put_byte b u in
           (if b = protocolEnd
            then (let w = (if tend v < 110 then v\<lparr>tend := tindex v\<rparr> else v)
                  in if tindex w = 114 then w\<lparr>recv_type := EOI\<rparr> else w)
            else v, None))
      | EOI \<Rightarrow>
          (restart u,
           if checksum_matches (tbuf u) (int (tend u)) then Some (section_of (tbuf u) 1 (tindex u)) else None))"

subsection \<open>Decoding it\<close>

definition topband_cells :: "bytes \<Rightarrow> (device, unit) pym" where
  "topband_cells message =
     block (map (\<lambda>i. assign_cell (i + 1) (PInt (field_value message (i * 4 + 44) (i * 4 + 47) 0))) [0..15])"

definition topband_message :: "bytes \<Rightarrow> (device, bool) pym" where
  "topband_message message =
     (if length message < 38 then ret False
      else bind (block
        [assign_msg message,
         assign_attr A_mvoltage (PInt (field_value message 0 7 0)),
         assign_attr A_mcurrent (to_signed (PInt (field_value message 8 15 0)) (PInt UINT32_WRAP) (PInt INT32_MAX)),
         assign_attr A_mcapacity (PInt (field_value message 16 23 0)),
         assign_attr A_charge_cycles (PInt (field_value message 24 27 0)),
         assign_attr A_soc (PInt (field_value message 28 31 0)),
         assign_attr A_temperature (PInt (field_value message 32 35 0)),
         assign_attr A_status (PInt (field_value message 36 37 0)),
         assign_attr A_afestatus (PInt (field_value message 40 41 0)),
         topband_cells message]) (\<lambda>_. ret True))"

fun topband_bytes :: "bytes \<Rightarrow> (topband, bool) util" where
  "topband_bytes [] = ret False"
| "topband_bytes (b # bs) =
     bind util_state (\<lambda>u.
     case topband_byte b u of (u', frame) \<Rightarrow>
       bind (on_util (modify (\<lambda>_. u'))) (\<lambda>_.
         case frame of
           None \<Rightarrow> topband_bytes bs
         | Some message \<Rightarrow> on_device (topband_message message)))"

definition topband_notification :: "bytes \<Rightarrow> uuid \<Rightarrow> (topband, bool) util" where
  "topband_notification data char = topband_bytes data"

definition topband_plugin :: "topband plugin" where
  "topband_plugin =
     \<lparr>notification = topband_notification, poll_request = throw AttributeError, cmd_request = None,
      ack_data = (\<lambda>v. throw AttributeError)\<rparr>"

subsection \<open>The collector stays within its buffer\<close>

text \<open>Indices stay within the 115 entries, and a frame waits for its check at 114 only.\<close>

definition topband_inv :: "topband \<Rightarrow> bool" where
  "topband_inv u \<longleftrightarrow>
     length (tbuf u) = 115 \<and> tindex u \<le> 115 \<and> tend u \<le> tindex u \<and>
     (recv_type u = SOI \<longrightarrow> tindex u = 0) \<and> (recv_type u = EOI \<longrightarrow> tindex u = 114)"

lemma topband_inv_init: "topband_inv topband_init"
  by (simp add: topband_inv_def topband_init_def)

lemma topband_inv_byte: "topband_inv u \<Longrightarrow> topband_inv (fst (topband_byte b u))"
  by (cases "recv_type u")
    (auto simp: topband_inv_def topband_byte_def restart_def put_byte_def Let_def)

lemma topband_frame_length:
  "topband_inv u \<Longrightarrow> snd (topband_byte b u) = Some m \<Longrightarrow> length m = 113 \<and> recv_type u = EOI"
  by (cases "recv_type u")
    (auto simp: topband_inv_def topband_byte_def restart_def put_byte_def Let_def split: if_splits)

lemma returns_topband_message: "never_raises wf_device (topband_message message)"
proof -
  have "never_raises wf_device (topband_cells message)"
    unfolding topband_cells_def
    by (rule never_raises_block) (auto intro!: returns_assign_cell)
  then have "\<forall>m \<in> set
      [assign_msg message,
       assign_attr A_mvoltage (PInt (field_value message 0 7 0)),
       assign_attr A_mcurrent (to_signed (PInt (field_value message 8 15 0)) (PInt UINT32_WRAP) (PInt INT32_MAX)),
       assign_attr A_mcapacity (PInt (field_value message 16 23 0)),
       assign_attr A_charge_cycles (PInt (field_value message 24 27 0)),
       assign_attr A_soc (PInt (field_value message 28 31 0)),
       assign_attr A_temperature (PInt (field_value message 32 35 0)),
       assign_attr A_status (PInt (field_value message 36 37 0)),
       assign_attr A_afestatus (PInt (field_value message 40 41 0)),
       topband_cells message]. never_raises wf_device m"
    by (simp add: returns_assign_msg returns_assign_attr)
  then show ?thesis
    unfolding topband_message_def
    by (auto intro!: never_raises_bind never_raises_basic never_raises_block)
qed

lemma returns_topband: "never_raises (keeps topband_inv) (topband_bytes data)"
proof (induction data)
  case (Cons b bs)
  show ?case
  proof (rule never_raisesI)
    fix s assume s: "keeps topband_inv s"
    obtain u d where ud: "s = (u, d)" by (rule prod.exhaust)
    let ?u = "fst (topband_byte b u)"
    have mid: "keeps topband_inv (?u, d)" using s ud by (simp add: keeps_def topband_inv_byte)
    have "topband_bytes (b # bs) s =
        (case snd (topband_byte b u) of None \<Rightarrow> topband_bytes bs (?u, d)
         | Some m \<Rightarrow> on_device (topband_message m) (?u, d))"
      by (cases "topband_byte b u") (simp add: ud pym_simps util_state_def on_util_def split: option.split)
    moreover obtain x s1 where "topband_bytes bs (?u, d) = (Inr x, s1)" "keeps topband_inv s1"
      using never_raisesD [OF Cons.IH mid] by blast
    moreover have "\<exists>x s1. on_device (topband_message m) (?u, d) = (Inr x, s1) \<and> keeps topband_inv s1" for m
      using never_raisesD [OF returns_on_device [OF returns_topband_message] mid] by blast
    ultimately have "\<exists>x s1. topband_bytes (b # bs) s = (Inr x, s1) \<and> keeps topband_inv s1"
      by (cases "snd (topband_byte b u)") auto
    then show "\<not> isl (fst (topband_bytes (b # bs) s))" and "keeps topband_inv (snd (topband_bytes (b # bs) s))"
      by auto
  qed
qed (simp add: never_raises_basic)

interpretation topband: plugin_contract topband_plugin topband_inv
  by unfold_locales
    (auto simp: topband_plugin_def topband_notification_def
      intro: never_raises_preserves [OF returns_topband] preserves_throw)

text \<open>
  on a well-formed device the Topband parser never raises, for any bytes: the collector
  stays within its 115 entries and hands on only frames of 113 bytes.
\<close>

theorem topband_total:
  assumes "topband_inv u" and "wf_device d"
  shows "\<exists>b u' d'. topband_notification data c (u, d) = (Inr b, (u', d')) \<and> topband_inv u' \<and> wf_device d'"
proof -
  have "keeps topband_inv (u, d)" using assms by (simp add: keeps_def)
  from never_raisesD [OF returns_topband this, of data] show ?thesis
    by (auto simp: topband_notification_def keeps_def)
qed

theorem topband_total_witness:
  "\<exists>b u' d'. topband_notification [94, 48, 0] [] (topband_init, sample_device ''battery_1'' [] 5) = (Inr b, (u', d'))
     \<and> topband_inv u' \<and> wf_device d'"
  by (rule topband_total) (simp_all add: topband_inv_init wf_device_def wf_entities_for within_bound_def)

text \<open>
  of frames sent back to back every other one is lost: the byte on which a complete frame
  is checked is taken for nothing else, so if it is the head of the next frame that frame is
  never collected; and what follows it in the same notification is thrown away as well.
\<close>

theorem topband_swallows_head:
  assumes "topband_inv u" and "recv_type u = EOI" and "checksum_matches (tbuf u) (int (tend u))"
  shows "topband_notification (protocolHead # rest) c (u, d) = topband_notification [protocolEnd] c (u, d) \<and>
    (\<forall>r s. topband_notification (protocolHead # rest) c (u, d) = (r, s) \<longrightarrow> recv_type (fst s) = SOI)"
proof -
  have "tindex u = 114" using assms by (simp add: topband_inv_def)
  then have "topband_byte b u = (restart u, Some (section_of (tbuf u) 1 114))" for b
    using assms by (simp add: topband_byte_def)
  then show ?thesis
    by (simp add: topband_notification_def pym_simps util_state_def on_util_def on_device_def restart_def
        split: prod.splits)
qed

theorem topband_swallows_head_witness:
  "topband_notification [protocolHead, 48, 48] [] (topband_init\<lparr>recv_type := EOI, tindex := 114\<rparr>, sample_device ''battery_1'' [] 5) =
   topband_notification [protocolEnd] [] (topband_init\<lparr>recv_type := EOI, tindex := 114\<rparr>, sample_device ''battery_1'' [] 5)"
proof -
  have "checksum_matches (replicate 115 0) 0" by code_simp
  then show ?thesis
    using topband_swallows_head [of "topband_init\<lparr>recv_type := EOI, tindex := 114\<rparr>" "[48, 48]" "[]"
        "sample_device ''battery_1'' [] 5"]
    by (simp add: topband_inv_def topband_init_def)
qed


end
