(* ===== verification/Registers.thy ===== *)
theory Registers
  imports Device Modbus Asciihex
begin

section \<open>What the polled plugins share\<close>

text \<open>
  A raw register scaled by a decimal constant, reading an attribute back as a number, the
  number in a command's text, and the lemmas that evaluate the reads of a frame long enough
  to hold them; used by SolarLink, RenogyBatt and VEDirect.
\<close>

definition tenth :: "int \<Rightarrow> pynum" where "tenth n = num_mul (PInt n) (flit (1/10))"
definition hundredth :: "int \<Rightarrow> pynum" where "hundredth n = num_mul (PInt n) (flit (1/100))"
definition thousandth :: "int \<Rightarrow> pynum" where "thousandth n = num_mul (PInt n) (flit (1/1000))"

definition read_num :: "attr \<Rightarrow> (device, pynum) pym" where
  "read_num a = bind (\<lambda>d. (get_attr a (ents d), d)) (\<lambda>v. case v of PNum n \<Rightarrow> ret n | _ \<Rightarrow> throw TypeError)"

lemma wf_read_num [pres]: "preserves P (read_num a)"
  unfolding read_num_def
  by (auto intro!: preserves_bind preserves_read preserves_ret preserves_throw split: pyval.split)

text \<open>\<open>int(value)\<close> of a command's text, in base 10.\<close>

definition digit10 :: "int \<Rightarrow> int option" where
  "digit10 c = (if 48 \<le> c \<and> c \<le> 57 then Some (c - 48) else None)"

fun digits10 :: "bool \<Rightarrow> int \<Rightarrow> int list \<Rightarrow> int option" where
  "digits10 underscore acc [] = (if underscore then None else Some acc)"
| "digits10 underscore acc (c # cs) =
     (if c = 95 then (if underscore then None else digits10 True acc cs)
      else case digit10 c of None \<Rightarrow> None | Some d \<Rightarrow> digits10 False (10 * acc + d) cs)"

definition unsigned10 :: "int list \<Rightarrow> int option" where
  "unsigned10 cs = (if cs = [] \<or> hd cs = 95 then None else digits10 False 0 cs)"

definition py_int :: "string \<Rightarrow> int option" where
  "py_int s =
     (case py_strip (map of_char s) of
        [] \<Rightarrow> None
      | c # cs \<Rightarrow>
          if c = 43 then unsigned10 cs
          else if c = 45 then map_option uminus (unsigned10 cs)
          else unsigned10 (c # cs))"

lemma word_at_offset:
  "0 \<le> i \<Longrightarrow> nat i + 1 < length f \<Longrightarrow> bytes_to_int f i 2 = f ! nat i * 256 + f ! (nat i + 1)"
proof -
  assume i: "0 \<le> i" "nat i + 1 < length f"
  then have "drop (nat i) f = f ! nat i # f ! (nat i + 1) # drop (nat i + 2) f"
    by (simp add: Cons_nth_drop_Suc)
  then have "section_of f (nat i) (nat (i + 2)) = [f ! nat i, f ! (nat i + 1)]"
    using i by (simp add: section_of_def nat_add_distrib)
  moreover have "\<not> int (length f) < i + 2" using i by linarith
  ultimately show ?thesis using i by (simp add: bytes_to_int_def py_slice_nonneg from_big_def)
qed

lemma byte_at_offset: "0 \<le> i \<Longrightarrow> nat i < length f \<Longrightarrow> bytes_to_int f i 1 = f ! nat i"
proof -
  assume i: "0 \<le> i" "nat i < length f"
  then have "drop (nat i) f = f ! nat i # drop (nat i + 1) f" by (simp add: Cons_nth_drop_Suc)
  then have "section_of f (nat i) (nat (i + 1)) = [f ! nat i]"
    using i by (simp add: section_of_def nat_add_distrib)
  moreover have "\<not> int (length f) < i + 1" using i by linarith
  ultimately show ?thesis using i by (simp add: bytes_to_int_def py_slice_nonneg from_big_def)
qed

lemma touch_all: "\<forall>k \<in> set ks. 0 \<le> k \<and> nat k < length bs \<Longrightarrow> touch bs ks s = (Inr (), s)"
  unfolding touch_def
  by (induction ks) (auto simp: byte_at_def py_get_def pym_simps)

lemma block_touch: "\<forall>k \<in> set ks. 0 \<le> k \<and> nat k < length bs \<Longrightarrow> block (touch bs ks # ms) = block ms"
  by (rule ext) (simp add: bind_def touch_all)

end
