(* ===== verification/SolarLink.thy ===== *)
theory SolarLink
  imports Registers ModbusCrc
begin

section \<open>plugins/SolarLink: a polled Modbus regulator\<close>

text \<open>
  The SolarLink regulators answer register reads with Modbus frames; the plugin tells the
  registers apart by the length byte. \<open>libscrc.modbus\<close>, with which requests are closed and
  responses checked, is the argument \<open>crc\<close>. The theorems: a response of the battery register
  is stored as the values it carries, the polling cycle requests every register once, a
  switch command becomes the three frames the device expects.
\<close>

record solarlink =
  param_buffer :: bytes
  param_expect :: int
  param_data :: "int list"
  poll_loop_count :: int
  poll_register :: "string option"

definition solarlink_init :: solarlink where
  "solarlink_init =
     \<lparr>param_buffer = [], param_expect = 0, param_data = [], poll_loop_count = 0, poll_register = None\<rparr>"

definition solarlink_config :: plugin_config where
  "solarlink_config =
     \<lparr>cfg_notify_chars = [''0000fff1-0000-1000-8000-00805f9b34fb''],
      cfg_write_polling = Some ''0000ffd1-0000-1000-8000-00805f9b34fb'',
      cfg_write_commands = Some ''0000ffd1-0000-1000-8000-00805f9b34fb'',
      cfg_device_id = Some 255, cfg_need_polling = True, cfg_send_ack = True\<rparr>"

definition function_READ :: int where "function_READ = 3"
definition function_WRITE :: int where "function_WRITE = 6"

text \<open>\<open>REG_ADDR\<close> and \<open>READ_WORD\<close> of the register classes, and the two switch values.\<close>

datatype solar_cmd =
    SolarPanelAndBatteryState | BatteryParamInfo | SolarPanelInfo | ParamSettingData
  | RegulatorPowerOn | RegulatorPowerOff

fun reg_addr :: "solar_cmd \<Rightarrow> int" where
  "reg_addr SolarPanelAndBatteryState = 288"
| "reg_addr BatteryParamInfo = 256"
| "reg_addr SolarPanelInfo = 263"
| "reg_addr ParamSettingData = 57345"
| "reg_addr RegulatorPowerOn = 266"
| "reg_addr RegulatorPowerOff = 266"

fun read_word :: "solar_cmd \<Rightarrow> int" where
  "read_word SolarPanelAndBatteryState = 3"
| "read_word BatteryParamInfo = 7"
| "read_word SolarPanelInfo = 4"
| "read_word ParamSettingData = 33"
| "read_word RegulatorPowerOn = 1"
| "read_word RegulatorPowerOff = 0"

fun cmd_function :: "solar_cmd \<Rightarrow> int" where
  "cmd_function RegulatorPowerOn = function_WRITE"
| "cmd_function RegulatorPowerOff = function_WRITE"
| "cmd_function _ = function_READ"

fun cmd_name :: "solar_cmd \<Rightarrow> string" where
  "cmd_name SolarPanelAndBatteryState = ''SolarPanelAndBatteryState''"
| "cmd_name BatteryParamInfo = ''BatteryParamInfo''"
| "cmd_name SolarPanelInfo = ''SolarPanelInfo''"
| "cmd_name ParamSettingData = ''ParamSettingData''"
| "cmd_name RegulatorPowerOn = ''RegulatorPowerOn''"
| "cmd_name RegulatorPowerOff = ''RegulatorPowerOff''"

subsection \<open>Requests\<close>

definition request_body :: "int \<Rightarrow> solar_cmd \<Rightarrow> bytes" where
  "request_body dev cmd =
     [dev, cmd_function cmd, high_byte (reg_addr cmd), low_byte (reg_addr cmd),
      high_byte (read_word cmd), low_byte (read_word cmd)]"

definition solarlink_frame :: "(bytes \<Rightarrow> int) \<Rightarrow> int \<Rightarrow> solar_cmd \<Rightarrow> bytes" where
  "solarlink_frame crc dev cmd =
     request_body dev cmd @ [low_byte (crc (request_body dev cmd)), high_byte (crc (request_body dev cmd))]"

text \<open>A device without an id makes \<open>bytes(data)\<close> raise.\<close>

definition create_poll_request :: "(bytes \<Rightarrow> int) \<Rightarrow> solar_cmd \<Rightarrow> (solarlink, payload) util" where
  "create_poll_request crc cmd =
     bind (on_util (modify (\<lambda>u. u\<lparr>poll_register := Some (cmd_name cmd)\<rparr>))) (\<lambda>_.
     bind (gets (\<lambda>(u, d). device_id d)) (\<lambda>id.
       case id of
         None \<Rightarrow> throw TypeError
       | Some dev \<Rightarrow>
           if is_byte dev then ret (Ints (solarlink_frame crc dev cmd)) else throw ValueError))"

definition solarlink_poll :: "(bytes \<Rightarrow> int) \<Rightarrow> (solarlink, payload) util" where
  "solarlink_poll crc =
     bind (on_util (modify (\<lambda>u. u\<lparr>poll_loop_count := poll_loop_count u + 1\<rparr>))) (\<lambda>_.
     bind util_state (\<lambda>u.
     bind (if poll_loop_count u = 1 then create_poll_request crc BatteryParamInfo
           else if poll_loop_count u = 3 then create_poll_request crc SolarPanelInfo
           else if poll_loop_count u = 5 then create_poll_request crc SolarPanelAndBatteryState
           else ret NoData) (\<lambda>data.
     bind (on_util (modify (\<lambda>u. if poll_loop_count u = 10 then u\<lparr>poll_loop_count := 0\<rparr> else u))) (\<lambda>_.
       ret data))))"

definition solarlink_ack :: "bytes \<Rightarrow> (solarlink, payload) util" where
  "solarlink_ack value = lift (case ack_payload value of Inl e \<Rightarrow> Inl e | Inr bs \<Rightarrow> Inr (Bytes bs))"

subsection \<open>Commands\<close>

fun collect :: "('s, 'a) pym list \<Rightarrow> ('s, 'a list) pym" where
  "collect [] = ret []"
| "collect (m # ms) = bind m (\<lambda>x. bind (collect ms) (\<lambda>xs. ret (x # xs)))"

definition solarlink_cmd :: "(bytes \<Rightarrow> int) \<Rightarrow> string \<Rightarrow> string \<Rightarrow> (solarlink, payload list) util" where
  "solarlink_cmd crc command value =
     (if command \<noteq> ''power_switch'' then ret []
      else case py_int value of
             None \<Rightarrow> throw ValueError
           | Some n \<Rightarrow>
               if n = 0 \<or> n = 1 then
                 collect (map (create_poll_request crc)
                   [if n = 0 then RegulatorPowerOff else RegulatorPowerOn, SolarPanelInfo, BatteryParamInfo])
               else ret [])"

subsection \<open>Responses\<close>

definition signed_magnitude :: "int \<Rightarrow> int" where
  "signed_magnitude t = (if t > 128 then 128 - t else t)"

definition updateBatteryParamInfo :: "bytes \<Rightarrow> (device, unit) pym" where
  "updateBatteryParamInfo bs =
     block
       [touch bs [3, 4], assign_attr A_soc (PInt (bytes_to_int bs 3 2)),
        touch bs [5, 6], assign_attr A_charge_voltage (tenth (bytes_to_int bs 5 2)),
        touch bs [7, 8], assign_attr A_charge_current (hundredth (bytes_to_int bs 7 2)),
        bind (read_num A_charge_voltage) (\<lambda>v. bind (read_num A_charge_current) (\<lambda>c.
          assign_attr A_charge_power (num_mul v c))),
        touch bs [9], assign_attr A_temperature_celsius (PInt (signed_magnitude (bytes_to_int bs 9 1))),
        touch bs [10], assign_attr A_battery_temperature_celsius (PInt (signed_magnitude (bytes_to_int bs 10 1))),
        touch bs [11, 12], assign_attr A_voltage (tenth (bytes_to_int bs 11 2)),
        touch bs [13, 14], assign_attr A_current (hundredth (bytes_to_int bs 13 2)),
        touch bs [15, 16], assign_attr A_power (PInt (bytes_to_int bs 15 2))]"

definition updateSolarPanelAndBatteryState :: "bytes \<Rightarrow> (device, unit) pym" where
  "updateSolarPanelAndBatteryState bs = touch bs [3, 4, 5, 6, 7, 8]"

definition updateSolarPanelInfo :: "bytes \<Rightarrow> (device, unit) pym" where
  "updateSolarPanelInfo bs =
     block
       [touch bs [3, 4], assign_attr A_input_voltage (tenth (bytes_to_int bs 3 2)),
        touch bs [5, 6], assign_attr A_input_current (hundredth (bytes_to_int bs 5 2)),
        touch bs [7, 8], assign_attr A_input_power (PInt (bytes_to_int bs 7 2)),
        touch bs [9, 10], assign_attr A_power_switch (PInt (bytes_to_int bs 9 2)),
        touch bs [11, 12]]"

definition param_words :: "bytes \<Rightarrow> nat \<Rightarrow> int list" where
  "param_words buf i = map (\<lambda>k. from_big (section_of buf (i + 2 * k) (i + 2 * k + 2))) [0..<(67 - i) div 2]"

definition updateParamSettingData :: "bytes \<Rightarrow> (solarlink, unit) util" where
  "updateParamSettingData bs =
     bind (byte_at bs 0) (\<lambda>a.
     bind (if a = 255 then bind (byte_at bs 1) (\<lambda>b. ret (b = 3)) else ret False) (\<lambda>first.
     bind (if first then byte_at bs 2 else ret 0) (\<lambda>expect.
     on_util (modify (\<lambda>u.
       let i = (if first then 3 else 0);
           v = (if first then u\<lparr>param_data := [], param_buffer := [], param_expect := expect\<rparr> else u);
           w = v\<lparr>param_buffer := param_buffer v @ drop i bs\<rparr>
       in if int (length (param_buffer w)) = param_expect w + 3 + 2
          then w\<lparr>param_data := param_data w @ param_words (param_buffer w) i\<rparr> else w)))))"

definition solarlink_notification :: "(bytes \<Rightarrow> int) \<Rightarrow> bytes \<Rightarrow> uuid \<Rightarrow> (solarlink, bool) util" where
  "solarlink_notification crc value char =
     (if \<not> validate_frame crc (Some value) then ret False
      else bind (gets (\<lambda>(u, d). (param_buffer u, param_expect u, device_id d))) (\<lambda>(buf, expect, id).
        let v0 = value ! 0; v1 = value ! 1; v2 = value ! 2 in
        if Some v0 = id \<and> v1 = function_READ then
          bind (block
            [whenp (v2 = read_word BatteryParamInfo * 2) (on_device (updateBatteryParamInfo value)),
             whenp (v2 = read_word SolarPanelAndBatteryState * 2) (on_device (updateSolarPanelAndBatteryState value)),
             whenp (v2 = read_word SolarPanelInfo * 2) (on_device (updateSolarPanelInfo value)),
             whenp (v2 = read_word ParamSettingData * 2) (updateParamSettingData value)]) (\<lambda>_. ret True)
        else if Some v0 = id \<and> v1 = function_WRITE then ret True
        else if Some v0 \<noteq> id \<and> int (length buf) < expect then
          bind (updateParamSettingData value) (\<lambda>_. ret True)
        else ret False))"

definition solarlink_plugin :: "(bytes \<Rightarrow> int) \<Rightarrow> solarlink plugin" where
  "solarlink_plugin crc =
     \<lparr>notification = solarlink_notification crc, poll_request = solarlink_poll crc,
      cmd_request = Some (solarlink_cmd crc), ack_data = solarlink_ack\<rparr>"

subsection \<open>The contract of a plugin\<close>

definition solarlink_inv :: "solarlink \<Rightarrow> bool" where
  "solarlink_inv u \<longleftrightarrow> 0 \<le> poll_loop_count u \<and> poll_loop_count u \<le> 9"

lemma wf_updates:
  "preserves wf_device (updateBatteryParamInfo bs)"
  "preserves wf_device (updateSolarPanelAndBatteryState bs)"
  "preserves wf_device (updateSolarPanelInfo bs)"
  unfolding updateBatteryParamInfo_def updateSolarPanelAndBatteryState_def updateSolarPanelInfo_def
  by (rule preserves_block preserves_touch;
      auto intro!: preserves_bind wf_read_num preserves_touch wf_assign_attr)+

lemma keeps_param: "preserves (keeps solarlink_inv) (updateParamSettingData bs)"
  unfolding updateParamSettingData_def
  by (intro preserves_bind preserves_byte_at preserves_if preserves_ret keeps_on_util preserves_modify)
    (auto simp: solarlink_inv_def Let_def)

lemma keeps_solarlink: "preserves (keeps solarlink_inv) (solarlink_notification crc value c)"
  unfolding solarlink_notification_def Let_def
  by (auto intro!: preserves_bind preserves_ret preserves_gets preserves_block preserves_whenp
      keeps_on_device wf_updates keeps_param)

lemma run_create:
  "create_poll_request crc cmd (u, d) =
     (case device_id d of
        None \<Rightarrow> (Inl TypeError, (u\<lparr>poll_register := Some (cmd_name cmd)\<rparr>, d))
      | Some dev \<Rightarrow>
          if is_byte dev then (Inr (Ints (solarlink_frame crc dev cmd)), (u\<lparr>poll_register := Some (cmd_name cmd)\<rparr>, d))
          else (Inl ValueError, (u\<lparr>poll_register := Some (cmd_name cmd)\<rparr>, d)))"
  by (simp add: create_poll_request_def pym_simps on_util_def split: option.split)

lemma keeps_create: "preserves (keeps solarlink_inv) (create_poll_request crc cmd)"
  by (rule preservesI) (auto simp: run_create keeps_def solarlink_inv_def split: option.splits if_splits)

lemma keeps_poll: "preserves (keeps solarlink_inv) (solarlink_poll crc)"
proof (rule preservesI)
  fix s :: "solarlink \<times> device" assume "keeps solarlink_inv s"
  then obtain u d where s: "s = (u, d)" and n: "0 \<le> poll_loop_count u" "poll_loop_count u \<le> 9" and d: "wf_device d"
    by (cases s) (auto simp: keeps_def solarlink_inv_def)
  have "snd (solarlink_poll crc (u, d)) =
      (let n = poll_loop_count u + 1;
           v = u\<lparr>poll_loop_count := n\<rparr>;
           cmd = (if n = 1 then Some BatteryParamInfo else if n = 3 then Some SolarPanelInfo
                  else if n = 5 then Some SolarPanelAndBatteryState else None);
           w = (case cmd of None \<Rightarrow> v | Some c \<Rightarrow> v\<lparr>poll_register := Some (cmd_name c)\<rparr>)
       in (if n = 10 then w\<lparr>poll_loop_count := 0\<rparr> else w, d))"
    by (simp add: solarlink_poll_def pym_simps on_util_def util_state_def run_create Let_def split: option.split)
  with n d s show "keeps solarlink_inv (snd (solarlink_poll crc s))"
    by (auto simp: keeps_def solarlink_inv_def Let_def)
qed

lemma preserves_collect: "(\<And>m. m \<in> set ms \<Longrightarrow> preserves P m) \<Longrightarrow> preserves P (collect ms)"
  by (induction ms) (auto intro!: preserves_ret preserves_bind)

lemma keeps_cmd: "preserves (keeps solarlink_inv) (solarlink_cmd crc command value)"
proof -
  have "preserves (keeps solarlink_inv) (collect (map (create_poll_request crc) cmds))" for cmds
    by (rule preserves_collect) (auto intro: keeps_create)
  then show ?thesis
    unfolding solarlink_cmd_def
    by (simp del: collect.simps list.map add: preserves_ret preserves_throw split: option.split)
qed

interpretation solarlink: plugin_contract "solarlink_plugin crc" solarlink_inv for crc
  by unfold_locales
    (auto simp: solarlink_plugin_def solarlink_ack_def intro: keeps_solarlink keeps_poll preserves_lift keeps_cmd)

subsection \<open>A response is stored as the values it carries\<close>

text \<open>What a battery response means: the assignments, with the values spelled out.\<close>

definition battery_assignments :: "int \<Rightarrow> int \<Rightarrow> int \<Rightarrow> int \<Rightarrow> int \<Rightarrow> int \<Rightarrow> int \<Rightarrow> int \<Rightarrow> (device, unit) pym" where
  "battery_assignments soc charge_v charge_c temp batt_temp load_v load_c load_p =
     block
       [assign_attr A_soc (PInt soc),
        assign_attr A_charge_voltage (tenth charge_v),
        assign_attr A_charge_current (hundredth charge_c),
        bind (read_num A_charge_voltage) (\<lambda>v. bind (read_num A_charge_current) (\<lambda>c.
          assign_attr A_charge_power (num_mul v c))),
        assign_attr A_temperature_celsius (PInt (signed_magnitude temp)),
        assign_attr A_battery_temperature_celsius (PInt (signed_magnitude batt_temp)),
        assign_attr A_voltage (tenth load_v),
        assign_attr A_current (hundredth load_c),
        assign_attr A_power (PInt load_p)]"

lemma battery_update:
  assumes "bs = a # b # c # s1 # s2 # v1 # v2 # c1 # c2 # t # bt # lv1 # lv2 # lc1 # lc2 # lp1 # lp2 # rest"
  shows "updateBatteryParamInfo bs =
    battery_assignments (s1 * 256 + s2) (v1 * 256 + v2) (c1 * 256 + c2) t bt (lv1 * 256 + lv2) (lc1 * 256 + lc2) (lp1 * 256 + lp2)"
proof -
  have len: "16 < length bs" using assms by simp
  have touch: "block (touch bs ks # ms) = block ms" if "\<forall>k \<in> set ks. 0 \<le> k \<and> k \<le> 16" for ks ms
    using that len by (intro block_touch) force
  have word: "bytes_to_int bs 3 2 = s1 * 256 + s2" "bytes_to_int bs 5 2 = v1 * 256 + v2"
    "bytes_to_int bs 7 2 = c1 * 256 + c2" "bytes_to_int bs 9 1 = t" "bytes_to_int bs 10 1 = bt"
    "bytes_to_int bs 11 2 = lv1 * 256 + lv2" "bytes_to_int bs 13 2 = lc1 * 256 + lc2" "bytes_to_int bs 15 2 = lp1 * 256 + lp2"
    using assms by (simp_all add: word_at_offset byte_at_offset)
  have cons: "block (m # ms) = block (m # ms')" if "block ms = block ms'" for m :: "(device, unit) pym" and ms ms'
    using that by simp
  show ?thesis
    unfolding updateBatteryParamInfo_def battery_assignments_def word
    by (subst touch, simp) (rule cons, subst touch, simp, rule cons, subst touch, simp, rule cons, rule cons,
      subst touch, simp, rule cons, subst touch, simp, rule cons, subst touch, simp, rule cons, subst touch, simp,
      rule cons, subst touch, simp, rule refl)
qed


lemma returns_read_num:
  "a \<in> {A_charge_voltage, A_charge_current} \<Longrightarrow> never_raises wf_device (read_num a)"
proof (rule never_raisesI)
  assume a: "a \<in> {A_charge_voltage, A_charge_current}"
  fix d assume d: "wf_device d"
  have "defs (ents d) x \<noteq> None" if "x \<in> {V_charge_mvoltage, V_charge_mcurrent}" for x
    using d that by (auto simp: wf_device_def wf_entities_def vars_of_def dom_def set_eq_iff split: if_splits)
  then obtain v c where "defs (ents d) V_charge_mvoltage = Some v" "defs (ents d) V_charge_mcurrent = Some c"
    by fastforce
  then show "\<not> isl (fst (read_num a d))" and "wf_device (snd (read_num a d))"
    using a d by (auto simp: read_num_def pym_simps scaled_def value_of_def)
qed

lemma returns_battery_assignments: "never_raises wf_device (battery_assignments s cv cc t bt lv lc lp)"
  unfolding battery_assignments_def
  by (rule never_raises_block)
    (auto intro!: never_raises_bind returns_assign_attr returns_read_num)



subsection \<open>Switching\<close>

lemma request_valid: "is_byte dev \<Longrightarrow> crc_valid (solarlink_frame modbusCrc dev cmd) \<and> is_bytes (solarlink_frame modbusCrc dev cmd)"
proof -
  assume dev: "is_byte dev"
  have body: "is_bytes (request_body dev cmd)"
    using dev by (cases cmd) (simp_all add: request_body_def is_byte_def high_byte_def low_byte_def function_READ_def function_WRITE_def)
  moreover have "is_byte (low_byte v)" "is_byte (high_byte v)" for v
    by (simp_all add: low_byte_def high_byte_def is_byte_def)
  moreover have "request_body dev cmd \<noteq> []" by (simp add: request_body_def)
  ultimately show ?thesis
    unfolding solarlink_frame_def by (simp add: trailer_iff)
qed

text \<open>
  a switch command reaches the device as three requests with a valid checksum, in this
  order: the write of 1 or 0 to the load register, and the polls that read the outcome back.
  Any other command or number writes nothing, and a text that is no number raises.
\<close>

theorem solarlink_switch:
  assumes "connected d" and "loop_alive d" and "write_commands d = Some w" and "device_id d = Some dev" and "is_byte dev"
  shows "let frames = map (solarlink_frame modbusCrc dev)
               [if py_int value = Some 0 then RegulatorPowerOff else RegulatorPowerOn, SolarPanelInfo, BatteryParamInfo];
             (r, (u', d')) = run_command (solarlink_plugin modbusCrc) command value (u, d) in
         (if command = ''power_switch'' \<and> py_int value \<in> {Some 0, Some 1}
          then r = Inr () \<and> writes d' = writes d @ map (\<lambda>f. (f, w)) frames \<and> list_all crc_valid frames
          else writes d' = writes d) \<and>
         (isl r \<longleftrightarrow> command = ''power_switch'' \<and> py_int value = None)"
proof -
  note frame = request_valid [OF assms(5)]
  show ?thesis
    using assms frame
    by (auto simp: run_command_def solarlink_plugin_def solarlink_cmd_def Let_def pym_simps run_create
        on_device_def write_to_commands_def characteristic_write_value_def split: option.splits)
qed


theorem solarlink_switch_witness:
  "writes (snd (snd (run_command (solarlink_plugin modbusCrc) ''power_switch'' ''1''
     (solarlink_init, (sample_device ''regulator'' [] 5)\<lparr>connected := True, write_commands := Some ''ffd1''\<rparr>)))) =
   map (\<lambda>f. (f, ''ffd1'')) (map (solarlink_frame modbusCrc 255) [RegulatorPowerOn, SolarPanelInfo, BatteryParamInfo])"
proof -
  let ?d = "(sample_device ''regulator'' [] 5)\<lparr>connected := True, write_commands := Some ''ffd1''\<rparr>"
  have d: "loop_alive ?d" "device_id ?d = Some 255" "writes ?d = []" "is_byte 255"
    by (simp_all add: sample_device_def new_device_def sample_config_def parse_interval_def is_byte_def)
  have one: "py_int ''1'' = Some 1" by code_simp
  obtain r u' d' where run: "run_command (solarlink_plugin modbusCrc) ''power_switch'' ''1'' (solarlink_init, ?d) = (r, (u', d'))"
    by (metis prod.exhaust)
  show ?thesis
    using solarlink_switch [of ?d "''ffd1''" 255 "''1''" "''power_switch''" solarlink_init] run one d by simp
qed

end
