(* ===== verification/Renogy.thy ===== *)
theory Renogy
  imports Registers ModbusCrc Codec
begin

section \<open>plugins/RenogyBatt: a polled Modbus battery\<close>

text \<open>
  The Renogy batteries answer register reads with Modbus frames. The plugin keeps a
  remaining capacity of its own (\<open>exp_capacity\<close>): it integrates the current over time and
  resets it from the resting voltage. \<open>libscrc.modbus\<close> is the argument \<open>crc\<close>, the clock
  (\<open>datetime.now()\<close>, in seconds) the argument \<open>now\<close>. The theorems: what a response stores,
  that an empty capacity register stores nothing, that the reset from the voltage does not
  get past the validation of the value, and what the voltage table says at its edges.
\<close>

record renogy =
  max_cap :: pynum
  time_int :: rat
  rn_buffer :: bytes
  rn_expect :: int
  volt_change_count :: int
  rn_loop_count :: int
  rn_register :: "string option"

definition renogy_init :: "rat \<Rightarrow> renogy" where
  "renogy_init now =
     \<lparr>max_cap = PInt 0, time_int = now, rn_buffer = [], rn_expect = 0, volt_change_count = 0,
      rn_loop_count = 0, rn_register = None\<rparr>"

definition renogy_config :: plugin_config where
  "renogy_config =
     \<lparr>cfg_notify_chars = [''0000fff1-0000-1000-8000-00805f9b34fb''],
      cfg_write_polling = Some ''0000ffd1-0000-1000-8000-00805f9b34fb'',
      cfg_write_commands = Some ''0000ffd1-0000-1000-8000-00805f9b34fb'',
      cfg_device_id = Some 48, cfg_need_polling = True, cfg_send_ack = True\<rparr>"

definition CURRENT_WRAP :: pynum where "CURRENT_WRAP = num_mul (PInt UINT16_WRAP) (flit (1/100))"
definition TEMPERATURE_WRAP :: pynum where "TEMPERATURE_WRAP = num_mul (PInt UINT16_WRAP) (flit (1/10))"
definition SIGN_THRESHOLD :: pynum where "SIGN_THRESHOLD = PInt 255"

datatype renogy_cmd = TotalCapacity | VoltageCurrentSOC | CellVoltage | Temperature

fun renogy_reg :: "renogy_cmd \<Rightarrow> (int \<times> int) option" where
  "renogy_reg VoltageCurrentSOC = Some (178, 6)"
| "renogy_reg Temperature = Some (153, 7)"
| "renogy_reg CellVoltage = Some (136, 17)"
| "renogy_reg TotalCapacity = None"

fun renogy_cmd_name :: "renogy_cmd \<Rightarrow> string" where
  "renogy_cmd_name TotalCapacity = ''TotalCapacity''"
| "renogy_cmd_name VoltageCurrentSOC = ''VoltageCurrentSOC''"
| "renogy_cmd_name CellVoltage = ''CellVoltage''"
| "renogy_cmd_name Temperature = ''Temperature''"

subsection \<open>Requests\<close>

text \<open>
  A command without a register (\<open>TotalCapacity\<close>) builds no request. A device without an id,
  or with one that is no byte, makes \<open>bytes(data)\<close> raise.
\<close>

definition renogy_body :: "int \<Rightarrow> int \<Rightarrow> int \<Rightarrow> bytes" where
  "renogy_body dev reg words = [dev, 3, 19, reg, 0, words]"

definition renogy_request :: "(bytes \<Rightarrow> int) \<Rightarrow> renogy_cmd \<Rightarrow> (renogy, payload) util" where
  "renogy_request crc cmd =
     bind (on_util (modify (\<lambda>u. u\<lparr>rn_register := Some (renogy_cmd_name cmd)\<rparr>))) (\<lambda>_.
     bind (gets (\<lambda>(u, d). device_id d)) (\<lambda>id.
       case renogy_reg cmd of
         None \<Rightarrow> ret NoData
       | Some (reg, words) \<Rightarrow>
           (case id of
              None \<Rightarrow> throw TypeError
            | Some dev \<Rightarrow>
                if is_byte dev
                then (let b = renogy_body dev reg words
                      in ret (Ints (b @ [low_byte (crc b), high_byte (crc b)])))
                else throw ValueError)))"

definition renogy_schedule :: "int \<Rightarrow> renogy_cmd option" where
  "renogy_schedule n =
     (if n = 1 then Some TotalCapacity
      else if n = 5 then Some CellVoltage
      else if n = 7 then Some Temperature
      else if n = 3 \<or> n = 6 \<or> n = 9 \<or> n = 11 \<or> n = 13 \<or> n = 15 then Some VoltageCurrentSOC
      else None)"

definition renogy_poll :: "(bytes \<Rightarrow> int) \<Rightarrow> (renogy, payload) util" where
  "renogy_poll crc =
     bind (on_util (modify (\<lambda>u. u\<lparr>rn_loop_count := rn_loop_count u + 1\<rparr>))) (\<lambda>_.
     bind util_state (\<lambda>u.
     bind (case renogy_schedule (rn_loop_count u) of None \<Rightarrow> ret NoData | Some cmd \<Rightarrow> renogy_request crc cmd) (\<lambda>data.
     bind (on_util (modify (\<lambda>u. if rn_loop_count u = 16 then u\<lparr>rn_loop_count := 2\<rparr> else u))) (\<lambda>_.
       ret data))))"

definition renogy_ack :: "bytes \<Rightarrow> (renogy, payload) util" where
  "renogy_ack value = lift (case ack_payload value of Inl e \<Rightarrow> Inl e | Inr bs \<Rightarrow> Inr (Bytes bs))"

subsection \<open>The remaining capacity\<close>

text \<open>The percentage the resting voltage stands for.\<close>

definition volt_percent :: "pynum \<Rightarrow> pynum \<Rightarrow> pynum \<Rightarrow> pynum" where
  "volt_percent prev maximum v =
     (if num_le (flit (135/10)) v then PInt 100
      else if num_le (flit (134/10)) v then PInt 99
      else if num_le (flit (133/10)) v then PInt 90
      else if num_le (flit (132/10)) v then
        (if num_eq prev (PInt 0) then PInt 65
         else if num_lt (PInt 80) (num_quot prev maximum) then PInt 80
         else if num_lt (num_quot prev maximum) (PInt 50) then PInt 50
         else PInt 65)
      else if num_le (flit (131/10)) v then PInt 40
      else if num_le (flit 13) v then PInt 30
      else if num_le (flit (129/10)) v then PInt 20
      else if num_le (flit 12) v then num_sub (num_mul v (PInt 10)) (PInt 111)
      else if num_le (flit (118/10)) v then
        num_sub (num_quot (num_sub (num_mul v (PInt 10)) (PInt 100)) (PInt 2)) (PInt 1)
      else if num_le (flit 10) v then num_quot (num_sub (num_mul v (PInt 10)) (PInt 100)) (PInt 2)
      else PInt 100)"

text \<open>Whether the voltage has rested long enough, with the counter's update.\<close>

definition volt_settled :: "(renogy, bool) util" where
  "volt_settled =
     bind (on_device (read_num A_current)) (\<lambda>c.
       if num_lt (flit (14/10)) (num_abs c) then
         bind (on_util (modify (\<lambda>u. if 0 < volt_change_count u
             then u\<lparr>volt_change_count := volt_change_count u - 1\<rparr> else u))) (\<lambda>_. ret False)
       else
         bind (on_util (modify (\<lambda>u. u\<lparr>volt_change_count := volt_change_count u + 1\<rparr>))) (\<lambda>_.
         bind util_state (\<lambda>u.
           if volt_change_count u < 300 then ret False
           else bind (on_util (modify (\<lambda>u. u\<lparr>volt_change_count := 0\<rparr>))) (\<lambda>_. ret True))))"

definition resync :: "pynum \<Rightarrow> pynum \<Rightarrow> pynum \<Rightarrow> (device, unit) pym" where
  "resync prev maximum v =
     (let new = num_quot (num_mul maximum (volt_percent prev maximum v)) (PInt 100)
      in whenp (num_lt (flit (1/10)) (num_quot (num_abs (num_sub prev new)) maximum))
           (assign_attr A_exp_capacity new))"

definition voltageToCapacity :: "(renogy, unit) util" where
  "voltageToCapacity =
     bind (on_device (read_num A_exp_capacity)) (\<lambda>prev.
     bind (on_device (read_num A_voltage)) (\<lambda>v.
     bind util_state (\<lambda>u.
       if num_val v = 0 then ret ()
       else if num_val (max_cap u) = 0 then ret ()
       else bind (if num_val prev \<noteq> 0 then volt_settled else ret True) (\<lambda>go.
              whenp go (on_device (resync prev (max_cap u) v))))))"

text \<open>\<open>total_seconds()\<close> of the time since the last update is a float.\<close>

definition watt_hours :: pynum where
  "watt_hours = num_mul (num_mul (flit (128/10)) (PInt 60)) (PInt 60)"

definition updateCapacityFromCurrent :: "rat \<Rightarrow> (renogy, unit) util" where
  "updateCapacityFromCurrent now =
     bind (on_device (read_num A_current)) (\<lambda>c.
     bind (on_device (read_num A_voltage)) (\<lambda>v.
     bind util_state (\<lambda>u.
     bind (on_util (modify (\<lambda>u. u\<lparr>time_int := now\<rparr>))) (\<lambda>_.
     bind (on_device (read_num A_exp_capacity)) (\<lambda>e.
       let charge = num_mul (num_mul c v) (PFloat (fl (now - time_int u)));
           capacity = num_mul (num_mul (num_mul e (flit (128/10))) (PInt 60)) (PInt 60)
       in on_device (assign_attr A_exp_capacity (num_quot (num_add capacity charge) watt_hours)))))))"


subsection \<open>Responses\<close>

definition updateVoltageCurrentSOC :: "rat \<Rightarrow> bytes \<Rightarrow> (renogy, unit) util" where
  "updateVoltageCurrentSOC now bs =
     (let maxc = thousandth (bytes_to_int bs 12 3);
          cap = thousandth (bytes_to_int bs 8 3);
          current = to_signed (hundredth (bytes_to_int bs 3 2)) CURRENT_WRAP SIGN_THRESHOLD
      in block
       [touch bs [5, 6], touch bs [3, 4],
        on_util (modify (\<lambda>u. u\<lparr>max_cap := maxc\<rparr>)),
        touch bs [12, 13, 14], touch bs [8, 9, 10],
        bind (lift (num_div cap maxc)) (\<lambda>_. ret ()),
        on_device (assign_attr A_capacity cap),
        bind (lift (num_div cap maxc)) (\<lambda>r. on_device (assign_attr A_soc (num_mul r (PInt 100)))),
        on_device (assign_attr A_max_capacity maxc),
        on_device (assign_attr A_current current),
        updateCapacityFromCurrent now,
        on_device (assign_attr A_voltage (tenth (bytes_to_int bs 5 2))),
        voltageToCapacity])"

definition renogy_cell :: "bytes \<Rightarrow> int \<Rightarrow> (device, unit) pym" where
  "renogy_cell bs j =
     block
       [touch bs [5 + j * 2, 5 + j * 2 + 1],
        assign_cell (j + 1) (PInt (bytes_to_int bs (5 + j * 2) 2 * 100))]"

definition updateCellVoltage :: "bytes \<Rightarrow> (device, unit) pym" where
  "updateCellVoltage bs =
     bind (byte_at bs 4) (\<lambda>n.
       block (assign_attr A_cell_count (PInt n) # map (renogy_cell bs) [0..n - 1]))"

definition renogy_temperature :: "bytes \<Rightarrow> int \<Rightarrow> (device, unit) pym" where
  "renogy_temperature bs j =
     (let t = to_signed (tenth (bytes_to_int bs (5 + j * 2) 2)) TEMPERATURE_WRAP SIGN_THRESHOLD
      in block
       [touch bs [5 + j * 2, 5 + j * 2 + 1],
        assign_attr A_temperature_celsius t, assign_attr A_battery_temperature_celsius t])"

definition updateTemperature :: "bytes \<Rightarrow> (device, unit) pym" where
  "updateTemperature bs =
     bind (byte_at bs 4) (\<lambda>n. block (map (renogy_temperature bs) [0..n - 1]))"

text \<open>
  The plugin has no \<open>updateParamSettingData\<close>, so the branch for follow-up packets would raise;
  nothing ever raises \<open>param_expect\<close> above 0, so it is not taken.
\<close>

definition renogy_notification :: "(bytes \<Rightarrow> int) \<Rightarrow> rat \<Rightarrow> bytes \<Rightarrow> uuid \<Rightarrow> (renogy, bool) util" where
  "renogy_notification crc now value char =
     (if \<not> validate_frame crc (Some value) then ret False
      else bind (gets (\<lambda>(u, d). (rn_buffer u, rn_expect u, device_id d))) (\<lambda>(buf, expect, id).
        let v0 = value ! 0; v1 = value ! 1; v2 = value ! 2 in
        if Some v0 = id \<and> v1 = 3 then
          bind (block
            [whenp (v2 = 6 * 2) (updateVoltageCurrentSOC now value),
             whenp (v2 = 17 * 2) (on_device (updateCellVoltage value)),
             whenp (v2 = 7 * 2) (on_device (updateTemperature value))]) (\<lambda>_. ret True)
        else if Some v0 = id \<and> v1 = 6 then ret True
        else if Some v0 \<noteq> id \<and> int (length buf) < expect then throw AttributeError
        else ret False))"

definition renogy_plugin :: "(bytes \<Rightarrow> int) \<Rightarrow> rat \<Rightarrow> renogy plugin" where
  "renogy_plugin crc now =
     \<lparr>notification = renogy_notification crc now, poll_request = renogy_poll crc,
      cmd_request = None, ack_data = renogy_ack\<rparr>"

subsection \<open>The contract of a plugin\<close>

definition renogy_inv :: "renogy \<Rightarrow> bool" where
  "renogy_inv u \<longleftrightarrow> 0 \<le> rn_loop_count u \<and> rn_loop_count u \<le> 15 \<and>
     0 \<le> volt_change_count u \<and> volt_change_count u < 300 \<and> rn_buffer u = [] \<and> rn_expect u = 0"

lemma preserves_util_state [pres]: "preserves P util_state"
  unfolding util_state_def by (rule preserves_gets)

lemma keeps_volt_settled: "preserves (keeps renogy_inv) volt_settled"
proof (rule preservesI)
  fix s :: "renogy \<times> device" assume "keeps renogy_inv s"
  then obtain u d where s: "s = (u, d)" "renogy_inv u" "wf_device d" by (cases s) (auto simp: keeps_def)
  obtain r d' where r: "read_num A_current d = (r, d')" by (rule prod.exhaust)
  with wf_read_num s(3) have "wf_device d'" by (rule preservesD2)
  with r s show "keeps renogy_inv (snd (volt_settled s))"
    by (cases r) (auto simp: volt_settled_def on_device_def on_util_def util_state_def pym_simps
        keeps_def renogy_inv_def)
qed

lemma wf_resync: "preserves wf_device (resync prev m v)"
  unfolding resync_def by (auto simp: Let_def intro!: preserves_whenp wf_assign_attr)

lemma keeps_voltage: "preserves (keeps renogy_inv) voltageToCapacity"
  unfolding voltageToCapacity_def
  by (auto intro!: preserves_bind keeps_on_device wf_read_num preserves_util_state preserves_ret
      preserves_whenp keeps_volt_settled wf_resync)

lemma keeps_from_current: "preserves (keeps renogy_inv) (updateCapacityFromCurrent now)"
proof -
  have "preserves renogy_inv (modify (\<lambda>u. u\<lparr>time_int := now\<rparr>))"
    by (intro preserves_modify) (simp add: renogy_inv_def)
  then show ?thesis
    unfolding updateCapacityFromCurrent_def Let_def
    by (intro preserves_bind keeps_on_device wf_read_num preserves_util_state keeps_on_util wf_assign_attr)
qed

lemma keeps_soc: "preserves (keeps renogy_inv) (updateVoltageCurrentSOC now bs)"
proof -
  have "preserves renogy_inv (modify (\<lambda>u. u\<lparr>max_cap := m\<rparr>))" for m
    by (intro preserves_modify) (simp add: renogy_inv_def)
  then show ?thesis
    unfolding updateVoltageCurrentSOC_def Let_def
    by (intro preserves_block)
      (auto intro!: preserves_touch keeps_on_util preserves_bind preserves_lift preserves_ret
        keeps_on_device wf_assign_attr keeps_from_current keeps_voltage)
qed

lemma wf_renogy_cell: "preserves wf_device (renogy_cell bs j)"
  unfolding renogy_cell_def by (rule preserves_block) (auto intro!: preserves_touch wf_assign_cell)

lemma wf_renogy_updates:
  "preserves wf_device (updateCellVoltage bs)" "preserves wf_device (updateTemperature bs)"
proof -
  have t: "preserves wf_device (renogy_temperature bs j)" for j
    unfolding renogy_temperature_def Let_def
    by (rule preserves_block) (auto intro!: preserves_touch wf_assign_attr)
  have "preserves wf_device (block (assign_attr A_cell_count (PInt n) # map (renogy_cell bs) js))" for n js
    by (rule preserves_block) (auto intro!: wf_assign_attr wf_renogy_cell)
  moreover have "preserves wf_device (block (map (renogy_temperature bs) js))" for js
    by (rule preserves_block) (auto intro!: t)
  ultimately show "preserves wf_device (updateCellVoltage bs)" "preserves wf_device (updateTemperature bs)"
    unfolding updateCellVoltage_def updateTemperature_def
    by - (intro preserves_bind preserves_byte_at; assumption)+
qed

lemma keeps_renogy: "preserves (keeps renogy_inv) (renogy_notification crc now value c)"
  unfolding renogy_notification_def Let_def
  by (auto intro!: preserves_bind preserves_ret preserves_gets preserves_block preserves_whenp
      preserves_throw keeps_on_device keeps_soc wf_renogy_updates)

lemma keeps_renogy_request: "preserves (keeps renogy_inv) (renogy_request crc cmd)"
proof -
  have "preserves renogy_inv (modify (\<lambda>u. u\<lparr>rn_register := r\<rparr>))" for r
    by (intro preserves_modify) (simp add: renogy_inv_def)
  then show ?thesis
    unfolding renogy_request_def
    by (auto intro!: preserves_bind keeps_on_util preserves_gets preserves_ret preserves_throw
        simp: Let_def split: option.split)
qed

lemma renogy_poll_runs:
  "renogy_poll crc (u, d) =
     (let n = rn_loop_count u + 1; v = u\<lparr>rn_loop_count := n\<rparr> in
      case renogy_schedule n of
        None \<Rightarrow> (Inr NoData, (if n = 16 then v\<lparr>rn_loop_count := 2\<rparr> else v, d))
      | Some cmd \<Rightarrow>
          (case renogy_request crc cmd (v, d) of
             (Inl e, s) \<Rightarrow> (Inl e, s)
           | (Inr data, s) \<Rightarrow> (Inr data, s)))"
  by (auto simp: renogy_poll_def renogy_schedule_def renogy_request_def pym_simps on_util_def util_state_def Let_def
      split: option.split)

lemma keeps_renogy_poll: "preserves (keeps renogy_inv) (renogy_poll crc)"
proof (rule preservesI)
  fix s :: "renogy \<times> device" assume "keeps renogy_inv s"
  then obtain u d where s: "s = (u, d)" "renogy_inv u" "wf_device d" by (cases s) (auto simp: keeps_def)
  let ?v = "u\<lparr>rn_loop_count := rn_loop_count u + 1\<rparr>"
  show "keeps renogy_inv (snd (renogy_poll crc s))"
  proof (cases "renogy_schedule (rn_loop_count u + 1)")
    case None
    with s show ?thesis
      by (auto simp: renogy_poll_runs Let_def keeps_def renogy_inv_def renogy_schedule_def split: if_splits)
  next
    case (Some cmd)
    then have "rn_loop_count u + 1 \<le> 15" by (auto simp: renogy_schedule_def split: if_splits)
    with s have v: "keeps renogy_inv (?v, d)" by (auto simp: keeps_def renogy_inv_def)
    have "snd (renogy_poll crc s) = snd (renogy_request crc cmd (?v, d))"
      using Some s by (auto simp: renogy_poll_runs Let_def split: prod.split sum.split)
    with preservesD [OF keeps_renogy_request v] show ?thesis by simp
  qed
qed

interpretation renogy: plugin_contract "renogy_plugin crc now" renogy_inv for crc now
  by unfold_locales
    (auto simp: renogy_plugin_def renogy_ack_def intro: keeps_renogy keeps_renogy_poll preserves_lift)


subsection \<open>What a response stores\<close>

text \<open>The twelve bytes of the register: current, voltage, remaining and total capacity.\<close>

lemma soc_reads:
  assumes "f = a # b # c # c1 # c2 # v1 # v2 # x # k1 # k2 # k3 # y # m1 # m2 # m3 # rest"
  shows "bytes_to_int f 3 2 = c1 * 256 + c2" "bytes_to_int f 5 2 = v1 * 256 + v2"
    "bytes_to_int f 8 3 = k1 * 65536 + k2 * 256 + k3" "bytes_to_int f 12 3 = m1 * 65536 + m2 * 256 + m3"
  unfolding assms
  by (simp_all add: bytes_to_int_def py_slice_nonneg section_of_def from_big_def numeral_eq_Suc algebra_simps)

definition soc_assignments :: "rat \<Rightarrow> int \<Rightarrow> int \<Rightarrow> int \<Rightarrow> int \<Rightarrow> (renogy, unit) util" where
  "soc_assignments now c v k m =
     block
       [on_util (modify (\<lambda>u. u\<lparr>max_cap := thousandth m\<rparr>)),
        on_device (assign_attr A_capacity (thousandth k)),
        on_device (assign_attr A_soc (num_mul (num_quot (thousandth k) (thousandth m)) (PInt 100))),
        on_device (assign_attr A_max_capacity (thousandth m)),
        on_device (assign_attr A_current (to_signed (hundredth c) CURRENT_WRAP SIGN_THRESHOLD)),
        updateCapacityFromCurrent now,
        on_device (assign_attr A_voltage (tenth v)),
        voltageToCapacity]"

lemma thousandth_zero: "0 \<le> n \<Longrightarrow> n < 16777216 \<Longrightarrow> num_val (thousandth n) = 0 \<longleftrightarrow> n = 0"
proof -
  assume n: "0 \<le> n" "n < 16777216"
  have "fl (1/2048) \<le> fl (1/1000)" by (rule fl_mono) simp
  moreover have exact: "fl (1/2048) = 1/2048" by code_simp
  ultimately have k: "1/2048 \<le> fl (1/1000)" by simp
  have "0 < fl (of_int n * fl (1/1000))" if "1 \<le> n"
  proof -
    have "1/2048 \<le> of_int n * fl (1/1000)"
      using that k mult_mono [of 1 "of_int n" "1/2048" "fl (1/1000)"] by simp
    then have "fl (1/2048) \<le> fl (of_int n * fl (1/1000))" by (rule fl_mono)
    with exact show ?thesis by simp
  qed
  moreover have "fl (of_int n) = of_int n" using n by (intro fl_of_int) simp
  ultimately show ?thesis using n by (auto simp: thousandth_def flit_def) force
qed

lemma whenp_simps [simp]: "whenp True m = m" "whenp False m = ret ()"
  by (simp_all add: whenp_def)

lemma block_ret [simp]: "block (ret () # ms) = block ms"
  by simp

lemma soc_update:
  assumes f: "f = a # b # c # c1 # c2 # v1 # v2 # x # k1 # k2 # k3 # y # m1 # m2 # m3 # rest"
    and m: "num_val (thousandth (m1 * 65536 + m2 * 256 + m3)) \<noteq> 0"
  shows "updateVoltageCurrentSOC now f =
    soc_assignments now (c1 * 256 + c2) (v1 * 256 + v2) (k1 * 65536 + k2 * 256 + k3) (m1 * 65536 + m2 * 256 + m3)"
proof -
  have len: "14 < length f" using f by simp
  have touch: "block (touch f ks # ms) = block ms" if "\<forall>k \<in> set ks. 0 \<le> k \<and> k \<le> 14"
    for ks and ms :: "(renogy, unit) util list"
    using that len by (intro block_touch) force
  have cons: "block (m # ms) = block (m # ms')" if "block ms = block ms'" for m :: "(renogy, unit) util" and ms ms'
    using that by simp
  have div: "lift (num_div cap (thousandth (m1 * 65536 + m2 * 256 + m3))) =
      ret (num_quot cap (thousandth (m1 * 65536 + m2 * 256 + m3)))" for cap
    using m by (simp add: lift_def ret_def num_div_def)
  show ?thesis
    unfolding updateVoltageCurrentSOC_def soc_assignments_def soc_reads [OF f] Let_def div bind_simps
    by (subst touch, simp) (subst touch, simp, rule cons, subst touch, simp, subst touch, simp, simp)
qed

lemma soc_update_zero:
  assumes f: "f = a # b # c # c1 # c2 # v1 # v2 # x # k1 # k2 # k3 # y # 0 # 0 # 0 # rest"
  shows "updateVoltageCurrentSOC now f (u, d) = (Inl ZeroDivisionError, (u\<lparr>max_cap := PFloat 0\<rparr>, d))"
proof -
  have len: "14 < length f" using f by simp
  have touch: "touch f ks s = (Inr (), s)" if "\<forall>k \<in> set ks. 0 \<le> k \<and> k \<le> 14" for ks and s :: "renogy \<times> device"
    using that len by (intro touch_all) force
  have "num_div cap (thousandth 0) = Inl ZeroDivisionError" for cap
    by (simp add: num_div_def thousandth_def flit_def)
  then show ?thesis
    unfolding updateVoltageCurrentSOC_def soc_reads [OF f]
    by (simp add: Let_def pym_simps touch on_util_def) (simp add: thousandth_def flit_def)
qed


subsection \<open>On a battery nothing raises\<close>

definition on_battery :: "renogy \<times> device \<Rightarrow> bool" where
  "on_battery = (\<lambda>(u, d). wf_device d \<and> kind (ents d) = Battery)"

lemma kind_set_attr: "kind (snd (set_attr a v e)) = kind e"
  using preservesD [OF evolves_set_attr [of a e v], of e] by (simp add: evolves_def)

lemma kind_assign_attr: "a \<noteq> A_power_switch \<Longrightarrow> kind (ents (snd (assign_attr a v d))) = kind (ents d)"
  using kind_set_attr [of a v "ents d"]
  by (cases "set_attr a v (ents d)") (simp add: assign_attr_def on_ents_def)

lemma battery_assign:
  assumes "a \<noteq> A_state" "a \<noteq> A_health" "a \<noteq> A_power_switch"
  shows "never_raises on_battery (on_device (assign_attr a v))"
proof (rule never_raisesI)
  fix s assume s: "on_battery s"
  obtain u d where d: "s = (u, d)" "wf_device d" "kind (ents d) = Battery"
    using s by (cases s) (auto simp: on_battery_def)
  obtain r d' where "assign_attr a v d = (Inr r, d')" "wf_device d'"
    using never_raisesD [OF returns_assign_attr [OF assms(1,2)] d(2)] by blast
  then show "\<not> isl (fst (on_device (assign_attr a v) s))" "on_battery (snd (on_device (assign_attr a v) s))"
    using kind_assign_attr [OF assms(3), of v d] d by (simp_all add: on_device_def on_battery_def)
qed

lemma battery_read:
  assumes "a \<in> {A_current, A_voltage, A_exp_capacity}"
  shows "never_raises on_battery (on_device (read_num a))"
proof (rule never_raisesI)
  fix s assume s: "on_battery s"
  obtain u d where d: "s = (u, d)" "wf_device d" "kind (ents d) = Battery"
    using s by (cases s) (auto simp: on_battery_def)
  have "defs (ents d) x \<noteq> None" for x
    using d by (auto simp: wf_device_def wf_entities_def vars_of_def)
  then obtain c v e where "defs (ents d) V_mcurrent = Some c" "defs (ents d) V_mvoltage = Some v"
    "defs (ents d) V_exp_capacity = Some e" by (metis not_Some_eq)
  then show "\<not> isl (fst (on_device (read_num a) s))" "on_battery (snd (on_device (read_num a) s))"
    using assms d by (auto simp: read_num_def on_device_def on_battery_def pym_simps scaled_def value_of_def
        battery_attr_def)
qed

lemma battery_util: "never_raises on_battery (on_util (modify f))"
  by (auto simp: never_raises_def on_battery_def on_util_def pym_simps)

lemma battery_util_state: "never_raises on_battery util_state"
  by (simp add: util_state_def never_raises_basic)

lemmas battery_rules = never_raises_bind never_raises_basic battery_util battery_util_state battery_read

lemma battery_from_current: "never_raises on_battery (updateCapacityFromCurrent now)"
  unfolding updateCapacityFromCurrent_def Let_def
  by (intro battery_rules battery_assign) simp_all

lemma battery_settled: "never_raises on_battery volt_settled"
  unfolding volt_settled_def by (auto intro!: battery_rules)

lemma on_device_whenp: "on_device (whenp b m) = whenp b (on_device m)"
  by (auto simp: on_device_def whenp_def ret_def fun_eq_iff)

lemma battery_voltage: "never_raises on_battery voltageToCapacity"
proof -
  have "never_raises on_battery (on_device (resync prev m v))" for prev m v
    unfolding resync_def Let_def on_device_whenp
    by (intro never_raises_whenp battery_assign) simp_all
  then show ?thesis
    unfolding voltageToCapacity_def by (auto intro!: battery_rules battery_settled never_raises_whenp)
qed

lemma battery_soc: "never_raises on_battery (soc_assignments now c v k m)"
  unfolding soc_assignments_def
  by (rule never_raises_block)
    (auto intro!: battery_util battery_assign battery_from_current battery_voltage)


text \<open>
  a response whose total capacity is zero raises before anything is stored: the device
  keeps every value it had, so its voltage and current are lost with it.
\<close>

theorem renogy_zero_capacity:
  assumes "is_bytes [c1, c2, v1, v2, x, k1, k2, k3, y]" and "device_id d = Some 48"
  shows "renogy_notification modbusCrc now
      (modbus_response modbusCrc 48 3 [c1, c2, v1, v2, x, k1, k2, k3, y, 0, 0, 0]) c (u, d) =
    (Inl ZeroDivisionError, (u\<lparr>max_cap := PFloat 0\<rparr>, d))"
proof -
  let ?p = "[c1, c2, v1, v2, x, k1, k2, k3, y, 0, 0, 0]"
  let ?f = "modbus_response modbusCrc 48 3 ?p"
  have valid: "validate_frame modbusCrc (Some ?f)"
    using assms(1) by (intro hacien_crc.response_accepted) (simp_all add: is_byte_def FUNCTION_WRITE_RESPONSE_def)
  obtain lo hi where f: "?f = 48 # 3 # 12 # ?p @ [lo, hi]" by (simp add: modbus_response_def Let_def)
  have "updateVoltageCurrentSOC now ?f (u, d) = (Inl ZeroDivisionError, (u\<lparr>max_cap := PFloat 0\<rparr>, d))"
    unfolding f by (rule soc_update_zero) simp
  moreover have "?f ! 0 = 48" "?f ! 1 = 3" "?f ! 2 = 12" unfolding f by simp_all
  ultimately show ?thesis
    using valid assms(2) by (simp add: renogy_notification_def Let_def pym_simps)
qed


text \<open>A battery as the program creates it, with the Renogy id.\<close>

definition renogy_battery :: device where
  "renogy_battery = (sample_device ''battery_1'' [] 5)\<lparr>device_id := Some 48\<rparr>"

lemma renogy_battery_simps [simp]:
  "device_id renogy_battery = Some 48" "ents renogy_battery = battery_device" "kind battery_device = Battery"
  "wf_device renogy_battery"
proof -
  show e: "ents renogy_battery = battery_device"
    by (simp add: renogy_battery_def sample_device_def new_device_def sample_config_def parse_interval_def
        apply_limit_overrides_def entities_for_def)
  show "device_id renogy_battery = Some 48" by (simp add: renogy_battery_def)
  show "kind battery_device = Battery" by (simp add: battery_device_def power_device_def)
  have "queue renogy_battery = Some \<lparr>items = [], maxsize = 5\<rparr>"
    by (simp add: renogy_battery_def)
  with e show "wf_device renogy_battery" by (simp add: wf_device_def wf_battery_device within_bound_def)
qed


theorem renogy_zero_capacity_witness:
  "fst (notify_callback (renogy_plugin modbusCrc 60) []
     (modbus_response modbusCrc 48 3 [0, 100, 0, 133, 0, 1, 134, 160, 0, 0, 0, 0])
     (renogy_init 0, renogy_battery\<lparr>send_ack := False\<rparr>)) = Inr ()"
  using renogy_zero_capacity [of 0 100 0 133 0 1 134 160 0 "renogy_battery\<lparr>send_ack := False\<rparr>" 60 "[]" "renogy_init 0"]
  by (simp add: is_byte_def notify_callback_def on_notification_def renogy_plugin_def pym_simps)

subsection \<open>The reset from the voltage\<close>

lemma reading_far:
  assumes "dmaxdiff e = Fin 5" and "rejected e = 0" and "5 < fdiff q (num_val (dval e))"
    and "num_val (dval e) \<noteq> 0" and "num_val (dval e) \<noteq> 2731"
  shows "num_val (dval (reading e q)) = num_val (dval e)"
proof -
  have "next_rejected q e \<le> 1" using assms(2) by (simp add: next_rejected_def split: option.split)
  then have r: "next_rejected q e \<le> 2" by simp
  consider "q = num_val (dval e)" | "q \<noteq> num_val (dval e)" "\<not> acceptable e q" | "acceptable e q" "outlier e q"
    using assms by (auto simp: outlier_def)
  then show ?thesis
    using r by cases (simp_all add: reading_same reading_out_of_band reading_rejected)
qed

lemma fdiff_commute: "fdiff x y = fdiff y x"
  using fl_minus [of "x - y"] by (simp add: fdiff_def)

lemma to_float_small: "\<bar>num_val n\<bar> \<le> 400 \<Longrightarrow> to_float n = num_val n"
  by (cases n) (simp_all add: fl_of_int flip: of_int_abs)

lemma to_float_ge: "50 \<le> num_val n \<Longrightarrow> 50 \<le> to_float n"
  using fl_mono [of 50 "num_val n"] by (cases n) simp_all

lemma resync_far:
  assumes m: "50 \<le> num_val m" and p: "\<bar>num_val p\<bar> \<le> 400"
    and far: "num_lt (flit (1/10)) (num_quot (num_abs (num_sub p (PFloat q))) m)"
  shows "5 < fdiff q (num_val p)"
proof (rule ccontr)
  assume "\<not> 5 < fdiff q (num_val p)"
  then have five: "\<bar>fl (num_val p - q)\<bar> \<le> 5" 
    using fdiff_commute [of q "num_val p"] by (simp add: fdiff_def)
  have "num_sub p (PFloat q) = PFloat (fl (num_val p - q))"
    using to_float_small [OF p] by (cases p) simp_all
  moreover have "num_quot (PFloat x) m = PFloat (fl (x / to_float m))" for x by (cases m) simp_all
  ultimately have "fl (1/10) < fl (\<bar>fl (num_val p - q)\<bar> / to_float m)"
    using far by (simp add: num_lt_def flit_def)
  moreover have "\<bar>fl (num_val p - q)\<bar> / to_float m \<le> 1/10"
    using five to_float_ge [OF m] by (simp add: divide_le_eq)
  then have "fl (\<bar>fl (num_val p - q)\<bar> / to_float m) \<le> fl (1/10)" by (rule fl_mono)
  ultimately show False by simp
qed

lemma resync_keeps:
  assumes "wf_device d" and "kind (ents d) = Battery" and e: "defs (ents d) V_exp_capacity = Some e"
    and "dmaxdiff e = Fin 5" and "rejected e = 0" and p: "0 < num_val (dval e)" "num_val (dval e) \<le> 400"
    and m: "50 \<le> num_val m"
  shows "map_option (\<lambda>e. num_val (dval e)) (defs (ents (snd (resync (dval e) m v d))) V_exp_capacity) = Some (num_val (dval e))"
proof -
  let ?new = "num_quot (num_mul m (volt_percent (dval e) m v)) (PInt 100)"
  obtain q where q: "?new = PFloat q" by (metis num_quot.elims)
  show ?thesis
  proof (cases "num_lt (flit (1/10)) (num_quot (num_abs (num_sub (dval e) ?new)) m)")
    case True
    then have "5 < fdiff q (num_val (dval e))" using p m by (intro resync_far) (simp_all add: q)
    then have "num_val (dval (reading e q)) = num_val (dval e)"
      using assms by (intro reading_far) auto
    then show ?thesis using True q e assms(2)
      by (simp add: resync_def Let_def pym_simps assign_attr_def on_ents_def set_exp_capacity_def run_assign)
  next
    case False
    then show ?thesis using e by (simp add: resync_def Let_def pym_simps)
  qed
qed

lemma volt_settled_runs:
  assumes "wf_device d"
  shows "\<exists>go u'. volt_settled (u, d) = (Inr go, (u', d))"
proof -
  have "defs (ents d) V_mcurrent \<noteq> None"
    using assms by (auto simp: wf_device_def wf_entities_def vars_of_def dom_def set_eq_iff split: if_splits)
  then obtain c where "defs (ents d) V_mcurrent = Some c" by blast
  then have "read_num A_current d = (Inr (milli (dval c)), d)"
    by (simp add: read_num_def pym_simps scaled_def value_of_def)
  then show ?thesis
    by (auto simp: volt_settled_def on_device_def on_util_def util_state_def pym_simps
        intro: exI [of _ True] exI [of _ False])
qed

text \<open>
  the hard reset of the remaining capacity from the resting voltage never takes place
  once the plugin has a capacity: a reset worth making moves the value by a tenth of the
  total capacity, that is by more than 5 Ah for any battery of 50 Ah or more, and 5 is the
  \<open>maxdiff\<close> the value is validated with. Whatever the voltage and the counter, the capacity
  \<open>voltageToCapacity\<close> leaves behind is the one it found.
\<close>

theorem renogy_resync_rejected:
  assumes "wf_device d" and "kind (ents d) = Battery" and "defs (ents d) V_exp_capacity = Some e"
    and "dmaxdiff e = Fin 5" and "rejected e = 0" and "0 < num_val (dval e)" and "num_val (dval e) \<le> 400"
    and "50 \<le> num_val (max_cap u)"
  shows "map_option (\<lambda>e. num_val (dval e)) (defs (ents (snd (snd (voltageToCapacity (u, d))))) V_exp_capacity) =
    Some (num_val (dval e))"
proof -
  have "defs (ents d) V_mvoltage \<noteq> None"
    using assms(1) by (auto simp: wf_device_def wf_entities_def vars_of_def dom_def set_eq_iff split: if_splits)
  then obtain v where "defs (ents d) V_mvoltage = Some v" by blast
  then have reads: "read_num A_exp_capacity d = (Inr (dval e), d)" "read_num A_voltage d = (Inr (milli (dval v)), d)"
    using assms(2,3) by (simp_all add: read_num_def pym_simps scaled_def value_of_def battery_attr_def)
  obtain go u' where settled: "volt_settled (u, d) = (Inr go, (u', d))"
    using volt_settled_runs [OF assms(1)] by blast
  obtain r d' where r: "resync (dval e) (max_cap u) (milli (dval v)) d = (r, d')" by (rule prod.exhaust)
  have "snd (snd (voltageToCapacity (u, d))) \<in> {d, d'}"
    using reads settled r assms(6)
    by (auto simp: voltageToCapacity_def on_device_def util_state_def pym_simps)
  moreover have "map_option (\<lambda>e. num_val (dval e)) (defs (ents d') V_exp_capacity) = Some (num_val (dval e))"
    using resync_keeps [OF assms(1-7) assms(8), of "milli (dval v)"] r by simp
  ultimately show ?thesis using assms(3) by auto
qed

lemma quotient_small:
  assumes "0 < num_val p" and "num_val p \<le> 400" and "num_val p \<le> num_val m"
  shows "num_val (num_quot p m) \<le> 1"
proof -
  have p: "to_float p = num_val p" using assms(1,2) by (intro to_float_small) simp
  have m: "num_val p \<le> to_float m"
  proof (cases m)
    case (PInt b)
    show ?thesis
    proof (cases "b \<le> 400")
      case True
      have "0 < (of_int b :: rat)" using assms PInt by simp
      then have "0 < b" by simp
      with True have "fl (of_int b) = of_int b" by (intro fl_of_int) simp
      with assms PInt show ?thesis by simp
    next
      case False
      then have "fl 400 \<le> fl (of_int b)" by (intro fl_mono) simp
      with assms PInt show ?thesis by simp
    qed
  qed (use assms in simp)
  have "fl (x / y) \<le> 1" if "x \<le> y" "0 < x" for x y
    using fl_mono [of "x / y" 1] that by simp
  from this [OF m] this [OF assms(3)] show ?thesis
    using p assms(1) by (cases p; cases m) simp_all
qed

text \<open>
  what the voltage table says at its edges: at 13.2 V a battery whose capacity is known
  counts as half full, whatever the capacity, because the quotient of the capacities is
  compared with percentages; and a battery below 10 V, which only a configured lower limit
  lets through, counts as full.
\<close>

theorem renogy_volt_percent_edges:
  assumes "0 < num_val prev" and "num_val prev \<le> 400" and "num_val prev \<le> num_val maximum"
  shows "(num_val v < 10 \<longrightarrow> volt_percent p m v = PInt 100) \<and>
    (num_le (flit (132/10)) v \<and> num_lt v (flit (133/10)) \<longrightarrow> volt_percent prev maximum v = PInt 50)"
proof (intro conjI impI)
  assume v: "num_val v < 10"
  have "\<not> num_le (flit x) v" if "10 \<le> x" for x
  proof -
    have "10 \<le> fl x" using fl_mono [OF that] by simp
    with v show ?thesis by (simp add: num_le_def flit_def)
  qed
  then show "volt_percent p m v = PInt 100" by (simp add: volt_percent_def)
next
  assume v: "num_le (flit (132/10)) v \<and> num_lt v (flit (133/10))"
  have "fl (133/10) \<le> fl (134/10)" "fl (134/10) \<le> fl (135/10)" by (rule fl_mono, simp)+
  with v have big: "\<not> num_le (flit (135/10)) v" "\<not> num_le (flit (134/10)) v" "\<not> num_le (flit (133/10)) v"
    by (auto simp: num_le_def num_lt_def flit_def)
  have "num_lt (num_quot prev maximum) (PInt 50)"
    using quotient_small [OF assms] by (simp add: num_lt_def)
  moreover from this have "\<not> num_lt (PInt 80) (num_quot prev maximum)" by (simp add: num_lt_def)
  moreover have "\<not> num_eq prev (PInt 0)" using assms(1) by (simp add: num_eq_def)
  ultimately show "volt_percent prev maximum v = PInt 50"
    using v big by (simp add: volt_percent_def)
qed

theorem renogy_volt_percent_edges_witness:
  "volt_percent (PInt 90) (PInt 100) (flit (132/10)) = PInt 50 \<and> volt_percent (PInt 90) (PInt 100) (PInt 9) = PInt 100"
proof -
  have "fl (132/10) < fl (133/10)" by code_simp
  then have "num_le (flit (132/10)) (flit (132/10))" "num_lt (flit (132/10)) (flit (133/10))"
    by (simp_all add: num_le_def num_lt_def flit_def)
  then show ?thesis
    using renogy_volt_percent_edges [of "PInt 90" "PInt 100" "flit (132/10)" "PInt 90" "PInt 100"]
      renogy_volt_percent_edges [of "PInt 90" "PInt 100" "PInt 9" "PInt 90" "PInt 100"] by simp
qed

theorem renogy_resync_rejected_witness:
  "map_option (\<lambda>e. num_val (dval e)) (defs (ents (snd (snd (voltageToCapacity
     ((renogy_init 0)\<lparr>max_cap := PInt 100, volt_change_count := 299\<rparr>,
      renogy_battery\<lparr>ents := snd (set_voltage (PInt 12) (snd (set_exp_capacity (PInt 90) battery_device)))\<rparr>)))))
     V_exp_capacity) = Some 90"
proof -
  let ?e = "snd (set_voltage (PInt 12) (snd (set_exp_capacity (PInt 90) battery_device)))"
  let ?d = "renogy_battery\<lparr>ents := ?e\<rparr>"
  have wf: "wf_entities ?e"
    using preservesD [OF wf_set_attr [of A_voltage "PInt 12"]] preservesD [OF wf_set_attr [of A_exp_capacity "PInt 90"] wf_battery_device]
    by simp
  then have "wf_device ?d" using renogy_battery_simps(4) by (simp add: wf_device_def)
  moreover have "defs ?e V_exp_capacity = Some (store_reading 90 (mk_defn 0 0 400 5))" "kind ?e = Battery"
    by (simp_all add: set_voltage_def set_mvoltage_def set_exp_capacity_def run_assign battery_device_def power_device_def
        reading_def validate_defn_def mk_defn_def)
  ultimately show ?thesis
    using renogy_resync_rejected [of ?d "store_reading 90 (mk_defn 0 0 400 5)" "(renogy_init 0)\<lparr>max_cap := PInt 100, volt_change_count := 299\<rparr>"]
    by (simp add: mk_defn_def store_reading_def)
qed

end
