(* ===== verification/VEDirect.thy ===== *)
theory VEDirect
  imports Registers Codec
begin

section \<open>plugins/VEDirect: a Victron inverter\<close>

text \<open>
  The VEDirect inverters push their values on three characteristics; the plugin opens the
  session with a fixed series of writes, keeps it alive, and decodes packets of 8 and of 7
  bytes, on the bulk characteristic several in a row. \<open>time.sleep\<close> is counted in tenths of a
  second (\<open>ve_blocked\<close>): it runs on the event loop. The theorems: no packet raises and the
  reassembly buffer stays small; which current a packet stands for; what the polls of a
  session write and how long they block.
\<close>

record vedirect =
  char_buffer :: bytes
  is_initialized :: bool
  ve_loop_count :: int
  ve_blocked :: nat

definition vedirect_init :: vedirect where
  "vedirect_init = \<lparr>char_buffer = [], is_initialized = False, ve_loop_count = 0, ve_blocked = 0\<rparr>"

definition vedirect_config :: plugin_config where
  "vedirect_config =
     \<lparr>cfg_notify_chars = [''306b0002-b081-4037-83dc-e59fcc3cdfd0'', ''306b0003-b081-4037-83dc-e59fcc3cdfd0'',
        ''306b0004-b081-4037-83dc-e59fcc3cdfd0''],
      cfg_write_polling = Some ''306b0002-b081-4037-83dc-e59fcc3cdfd0'',
      cfg_write_commands = Some ''306b0003-b081-4037-83dc-e59fcc3cdfd0'',
      cfg_device_id = None, cfg_need_polling = True, cfg_send_ack = False\<rparr>"

subsection \<open>Writes\<close>

definition ve_sleep :: "nat \<Rightarrow> (vedirect, unit) util" where
  "ve_sleep tenths = on_util (modify (\<lambda>u. u\<lparr>ve_blocked := ve_blocked u + tenths\<rparr>))"

definition ve_poll_write :: "bytes \<Rightarrow> nat \<Rightarrow> (vedirect, unit) util" where
  "ve_poll_write bs tenths = block [on_device (write_to_polling (Bytes bs)), ve_sleep tenths]"

definition ve_command_write :: "bytes \<Rightarrow> nat \<Rightarrow> (vedirect, unit) util" where
  "ve_command_write bs tenths = block [on_device (write_to_commands (Bytes bs)), ve_sleep tenths]"

definition send_magic_packets :: "(vedirect, unit) util" where
  "send_magic_packets =
     block
       [ve_poll_write [0xfa, 0x80, 0xff] 1,
        ve_poll_write [0xf9, 0x80] 1,
        ve_command_write [0x01] 1,
        ve_command_write [0x03, 0x00] 1,
        ve_command_write [0x06, 0x00, 0x82, 0x18, 0x93, 0x42, 0x10, 0x27, 0x03, 0x01, 0x03, 0x03] 1,
        ve_command_write [0x81, 0x18, 0x90, 0x05, 0x00, 0x81, 0x19, 0xec, 0x3f, 0x05, 0x00, 0x81, 0x19, 0xec, 0x12] 1,
        ve_command_write [0x19, 0xec, 0xdc, 0x05, 0x03, 0x81, 0x19, 0xec, 0xeb, 0x05, 0x03, 0x81, 0x19, 0xec, 0xed] 50,
        ve_poll_write [0xf9, 0x41] 1,
        ve_command_write [0x06, 0x00, 0x82, 0x18, 0x93, 0x42, 0x10, 0x27] 50,
        ve_poll_write [0xf9, 0x41] 1]"

definition keep_alive :: "(vedirect, unit) util" where
  "keep_alive =
     block
       [ve_command_write [0x06, 0x00, 0x82, 0x18, 0x93, 0x42, 0x10, 0x27, 0x03, 0x01, 0x03, 0x03] 1,
        ve_poll_write [0xf9, 0x41] 1]"

definition vedirect_poll :: "(vedirect, payload) util" where
  "vedirect_poll =
     bind util_state (\<lambda>u.
     bind (if \<not> is_initialized u \<and> ve_loop_count u = 2 then
             block [send_magic_packets, on_util (modify (\<lambda>u. u\<lparr>is_initialized := True\<rparr>))]
           else if ve_loop_count u = 5 then
             block [keep_alive, on_util (modify (\<lambda>u. u\<lparr>ve_loop_count := 0\<rparr>))]
           else ret ()) (\<lambda>_.
     bind (on_util (modify (\<lambda>u. u\<lparr>ve_loop_count := ve_loop_count u + 1\<rparr>))) (\<lambda>_.
       ret NoData)))"

subsection \<open>Commands\<close>

definition ve_request :: "string \<Rightarrow> payload" where
  "ve_request cmd =
     (if cmd = ''PowerOn'' then Bytes [0x06, 0x03, 0x82, 0x19, 0x02, 0x00, 0x41, 0x02]
      else if cmd = ''PowerOff'' then Bytes [0x06, 0x03, 0x82, 0x19, 0x02, 0x00, 0x41, 0x04]
      else if cmd = ''PowerEco'' then Bytes [0x06, 0x03, 0x82, 0x19, 0x02, 0x00, 0x41, 0x05]
      else if cmd = ''PollData'' then Bytes [0xf9, 0x41]
      else NoData)"

definition vedirect_cmd :: "string \<Rightarrow> string \<Rightarrow> (vedirect, payload list) util" where
  "vedirect_cmd command value =
     (if command \<noteq> ''power_switch'' then ret []
      else case py_int value of
             None \<Rightarrow> throw ValueError
           | Some n \<Rightarrow>
               ret (if n = 0 then [ve_request ''PowerOff'']
                    else if n = 1 then [ve_request ''PowerOn'']
                    else if n = 5 then [ve_request ''PowerEco'']
                    else []))"

subsection \<open>Packets\<close>

definition assign_num :: "attr \<Rightarrow> pynum \<Rightarrow> (vedirect, unit) util" where
  "assign_num a v = on_device (assign_attr a v)"

definition ve_values8 :: "bytes \<Rightarrow> (vedirect, unit) util" where
  "ve_values8 value =
     (let ptype = from_little (section_of value 3 5); pval = from_little (section_of value 6 8) in
      if ptype = 34 then
        block
          [assign_num A_voltage (hundredth pval),
           bind (on_device (read_num A_voltage)) (\<lambda>v.
             whenp (num_lt v (PInt 1)) (assign_num A_voltage (PInt 0))),
           whenp (pval > 10000) (assign_num A_power_switch (PInt 1))]
      else if ptype = 36333 then assign_num A_input_voltage (hundredth pval)
      else if ptype = 36845 then
        assign_num A_current (tenth (if pval > 32768 then - (65536 - pval) else pval))
      else if ptype = 290 then
        (if pval = 0 then assign_num A_current (PInt 0)
         else if pval = 65535 then ret ()
         else if pval = 65534 then assign_num A_power_switch (PInt 1)
         else if pval = 65533 then assign_num A_current (PInt 0)
         else assign_num A_current (tenth pval))
      else ret ())"

text \<open>\<open>int(str(b), 16)\<close>: the decimal digits of a byte, read as hexadecimal.\<close>

definition dec_as_hex :: "int \<Rightarrow> int" where
  "dec_as_hex b = b div 100 * 256 + b div 10 mod 10 * 16 + b mod 10"

definition ve_values7 :: "bytes \<Rightarrow> (vedirect, unit) util" where
  "ve_values7 value =
     (let ptype = dec_as_hex (value ! 4); pval = dec_as_hex (value ! 6) in
      if ptype = 0 then
        block
          [whenp (pval = 2) (assign_num A_power_switch (PInt 1)),
           whenp (pval = 4) (assign_num A_power_switch (PInt 0)),
           whenp (pval = 5) (assign_num A_power_switch (PInt 1))]
      else if ptype = 1 then
        block
          [whenp (pval = 0) (assign_num A_power_switch (PInt 0)),
           whenp (pval = 1) (assign_num A_power_switch (PInt 1)),
           whenp (pval = 9) (assign_num A_power_switch (PInt 1))]
      else ret ())"

definition set_values :: "bytes \<Rightarrow> (vedirect, unit) util" where
  "set_values value =
     (if length value = 8 then ve_values8 value
      else if length value = 7 then ve_values7 value
      else ret ())"

text \<open>The loop over the buffer: its whole 8-byte pieces, what is left over is dropped.\<close>

fun eights :: "bytes \<Rightarrow> bytes list" where
  "eights (a # b # c # d # e # f # g # h # rest) = [a, b, c, d, e, f, g, h] # eights rest"
| "eights _ = []"

definition set_bulk_values :: "bytes \<Rightarrow> (vedirect, unit) util" where
  "set_bulk_values value =
     bind (on_util (modify (\<lambda>u. u\<lparr>char_buffer :=
        (if from_little (section_of value 0 2) = 776 then value else char_buffer u @ value)\<rparr>))) (\<lambda>_.
     bind util_state (\<lambda>u.
       whenp (20 < length (char_buffer u))
         (block (map set_values (eights (char_buffer u)) @
            [on_util (modify (\<lambda>u. u\<lparr>char_buffer := []\<rparr>))]))))"

definition vedirect_notification :: "bytes \<Rightarrow> uuid \<Rightarrow> (vedirect, bool) util" where
  "vedirect_notification value char =
     bind (if char = ''306b0004-b081-4037-83dc-e59fcc3cdfd0'' then set_bulk_values value else set_values value)
       (\<lambda>_. ret True)"

text \<open>\<open>ackData\<close> takes no argument, so calling it with one raises; \<open>SEND_ACK\<close> is off.\<close>

definition vedirect_plugin :: "vedirect plugin" where
  "vedirect_plugin =
     \<lparr>notification = vedirect_notification, poll_request = vedirect_poll,
      cmd_request = Some vedirect_cmd, ack_data = (\<lambda>v. throw TypeError)\<rparr>"


subsection \<open>The contract of a plugin\<close>

definition vedirect_inv :: "vedirect \<Rightarrow> bool" where
  "vedirect_inv u \<longleftrightarrow> length (char_buffer u) \<le> 20 \<and> 0 \<le> ve_loop_count u \<and> ve_loop_count u \<le> 5"

lemma returns_assign_num: "a \<noteq> A_state \<Longrightarrow> a \<noteq> A_health \<Longrightarrow> never_raises (keeps util_inv) (assign_num a v)"
  unfolding assign_num_def by (intro returns_on_device returns_assign_attr)

lemma returns_read_voltage: "never_raises wf_device (read_num A_voltage)"
proof (rule never_raisesI)
  fix d assume d: "wf_device d"
  then have "defs (ents d) V_mvoltage \<noteq> None"
    by (auto simp: wf_device_def wf_entities_def vars_of_def dom_def set_eq_iff split: if_splits)
  then obtain v where "defs (ents d) V_mvoltage = Some v" by blast
  with d show "\<not> isl (fst (read_num A_voltage d))" "wf_device (snd (read_num A_voltage d))"
    by (simp_all add: read_num_def pym_simps scaled_def value_of_def)
qed

lemma returns_values: "never_raises (keeps util_inv) (set_values value)"
proof -
  have "never_raises (keeps util_inv) (ve_values8 value)"
    unfolding ve_values8_def Let_def
    by (auto intro!: never_raises_bind never_raises_basic never_raises_whenp returns_assign_num
        returns_on_device returns_read_voltage)
  moreover have "never_raises (keeps util_inv) (ve_values7 value)"
    unfolding ve_values7_def Let_def
    by (auto intro!: never_raises_bind never_raises_basic never_raises_whenp returns_assign_num)
  ultimately show ?thesis unfolding set_values_def by (simp add: never_raises_basic)
qed

lemma returns_bulk: "never_raises (keeps (\<lambda>u. True)) (set_bulk_values value)"
proof -
  have buf: "never_raises (keeps (\<lambda>u. True)) (on_util (modify f))" for f :: "vedirect \<Rightarrow> vedirect"
    by (rule returns_on_util)
  have "never_raises (keeps (\<lambda>u. True)) (block (map set_values ps @ [on_util (modify f)]))" for ps f
    by (rule never_raises_block) (auto intro: returns_values buf)
  then show ?thesis
    unfolding set_bulk_values_def util_state_def
    by (intro never_raises_bind never_raises_whenp never_raises_basic buf)
qed

lemma values_keep_util: "preserves (\<lambda>(w, d). w = u) (set_values value)"
proof -
  have dev: "preserves (\<lambda>(w, d). w = u) (on_device m)" for m :: "(device, 'c) pym"
    by (auto simp: preserves_def on_device_def split: prod.split)
  then have "preserves (\<lambda>(w, d). w = u) (assign_num a v)" for a v
    unfolding assign_num_def .
  with dev show ?thesis
    unfolding set_values_def ve_values8_def ve_values7_def Let_def
    by (auto intro!: preserves_bind preserves_ret preserves_whenp)
qed

lemma block_snoc: "block (ms @ [m]) = bind (block ms) (\<lambda>_. m)"
proof (induction ms)
  case Nil
  have "bind m (\<lambda>_. ret ()) = m"
    by (auto simp: bind_def ret_def fun_eq_iff split: prod.split sum.split)
  then show ?case by simp
qed (simp add: bind_assoc)

lemma bulk_runs:
  assumes d: "wf_device d"
  shows "\<exists>d'. set_bulk_values value (u, d) =
    (let b = (if from_little (section_of value 0 2) = 776 then value else char_buffer u @ value)
     in (Inr (), (u\<lparr>char_buffer := (if 20 < length b then [] else b)\<rparr>, d'))) \<and> wf_device d'"
proof -
  let ?b = "if from_little (section_of value 0 2) = 776 then value else char_buffer u @ value"
  let ?u = "u\<lparr>char_buffer := ?b\<rparr>" and ?ms = "map set_values (eights ?b)"
  have "never_raises (keeps (\<lambda>_. True)) (block ?ms)"
    by (rule never_raises_block) (auto intro: returns_values)
  from never_raisesD [OF this, of "(?u, d)"] d obtain w d'
    where run: "block ?ms (?u, d) = (Inr (), (w, d'))" and d': "wf_device d'"
    by (auto simp: keeps_def)
  have "preserves (\<lambda>(w, d). w = ?u) (block ?ms)"
    by (rule preserves_block) (auto intro: values_keep_util)
  from preservesD [OF this, of "(?u, d)"] run have "w = ?u" by simp
  with run have "block (?ms @ [on_util (modify (\<lambda>u. u\<lparr>char_buffer := []\<rparr>))]) (?u, d) =
      (Inr (), (u\<lparr>char_buffer := []\<rparr>, d'))"
    by (simp add: block_snoc run_bind on_util_def pym_simps)
  then show ?thesis
    using d d' by (cases "20 < length ?b") (auto simp: set_bulk_values_def util_state_def on_util_def pym_simps Let_def)
qed

lemma packet_total:
  assumes "wf_device d" and "length (char_buffer u) \<le> 20"
  shows "\<exists>b d'. vedirect_notification value c (u, d) = (Inr True, (u\<lparr>char_buffer := b\<rparr>, d')) \<and>
    wf_device d' \<and> length b \<le> 20"
proof (cases "c = ''306b0004-b081-4037-83dc-e59fcc3cdfd0''")
  case True
  obtain d' where d': "set_bulk_values value (u, d) =
    (let b = (if from_little (section_of value 0 2) = 776 then value else char_buffer u @ value)
     in (Inr (), (u\<lparr>char_buffer := (if 20 < length b then [] else b)\<rparr>, d')))" "wf_device d'"
    using bulk_runs [OF assms(1)] by blast
  with True show ?thesis by (auto simp: vedirect_notification_def pym_simps Let_def)
next
  case False
  have "never_raises (keeps (\<lambda>_. True)) (set_values value)" by (rule returns_values)
  from never_raisesD [OF this, of "(u, d)"] assms(1) obtain w d'
    where run: "set_values value (u, d) = (Inr (), (w, d'))" "wf_device d'"
    by (auto simp: keeps_def)
  moreover have "w = u" using preservesD [OF values_keep_util, of u "(u, d)" "value"] run by simp
  ultimately show ?thesis
    using False assms(2) by (auto simp: vedirect_notification_def pym_simps intro!: exI [of _ "char_buffer u"])
qed

text \<open>
  no packet raises, whatever its characteristic, its length and its content, and between
  notifications the reassembly buffer holds at most 20 bytes; nothing else of the plugin's
  state is touched.
\<close>

theorem vedirect_total:
  assumes "wf_device d" and "length (char_buffer u) \<le> 20"
  shows "\<exists>b d'. vedirect_notification value c (u, d) = (Inr True, (u\<lparr>char_buffer := b\<rparr>, d')) \<and>
    wf_device d' \<and> length b \<le> 20"
  using assms by (rule packet_total)

theorem vedirect_total_witness:
  "\<exists>b d'. vedirect_notification (8 # 3 # replicate 10 1) ''306b0004-b081-4037-83dc-e59fcc3cdfd0''
     (vedirect_init\<lparr>char_buffer := replicate 20 7\<rparr>, sample_device ''inverter_1'' [] 5) =
       (Inr True, (vedirect_init\<lparr>char_buffer := replicate 20 7\<rparr>\<lparr>char_buffer := b\<rparr>, d')) \<and>
     wf_device d' \<and> length b \<le> 20"
  by (rule vedirect_total) (simp_all add: wf_device_def wf_entities_for within_bound_def)


subsection \<open>What the polls of a session write\<close>

definition in_session :: "device \<Rightarrow> uuid \<Rightarrow> uuid \<Rightarrow> bool" where
  "in_session d p c \<longleftrightarrow> connected d \<and> loop_alive d \<and> write_polling d = Some p \<and> write_commands d = Some c"

definition magic_writes :: "uuid \<Rightarrow> uuid \<Rightarrow> (bytes \<times> uuid) list" where
  "magic_writes p c =
     [([0xfa, 0x80, 0xff], p), ([0xf9, 0x80], p), ([0x01], c), ([0x03, 0x00], c),
      ([0x06, 0x00, 0x82, 0x18, 0x93, 0x42, 0x10, 0x27, 0x03, 0x01, 0x03, 0x03], c),
      ([0x81, 0x18, 0x90, 0x05, 0x00, 0x81, 0x19, 0xec, 0x3f, 0x05, 0x00, 0x81, 0x19, 0xec, 0x12], c),
      ([0x19, 0xec, 0xdc, 0x05, 0x03, 0x81, 0x19, 0xec, 0xeb, 0x05, 0x03, 0x81, 0x19, 0xec, 0xed], c),
      ([0xf9, 0x41], p), ([0x06, 0x00, 0x82, 0x18, 0x93, 0x42, 0x10, 0x27], c), ([0xf9, 0x41], p)]"

definition keep_writes :: "uuid \<Rightarrow> uuid \<Rightarrow> (bytes \<times> uuid) list" where
  "keep_writes p c =
     [([0x06, 0x00, 0x82, 0x18, 0x93, 0x42, 0x10, 0x27, 0x03, 0x01, 0x03, 0x03], c), ([0xf9, 0x41], p)]"

lemma run_ve_writes:
  assumes "in_session d p c"
  shows "ve_poll_write bs n (u, d) = (Inr (), (u\<lparr>ve_blocked := ve_blocked u + n\<rparr>, d\<lparr>writes := writes d @ [(bs, p)]\<rparr>))"
    and "ve_command_write bs n (u, d) = (Inr (), (u\<lparr>ve_blocked := ve_blocked u + n\<rparr>, d\<lparr>writes := writes d @ [(bs, c)]\<rparr>))"
  using assms
  by (simp_all add: ve_poll_write_def ve_command_write_def ve_sleep_def in_session_def pym_simps on_device_def
      on_util_def write_to_polling_def write_to_commands_def characteristic_write_value_def)

lemma in_session_writes [simp]: "in_session (d\<lparr>writes := ws\<rparr>) p c = in_session d p c"
  by (simp add: in_session_def)

lemma run_send_magic:
  "in_session d p c \<Longrightarrow> send_magic_packets (u, d) =
     (Inr (), (u\<lparr>ve_blocked := ve_blocked u + 108\<rparr>, d\<lparr>writes := writes d @ magic_writes p c\<rparr>))"
  by (simp add: send_magic_packets_def run_bind run_ve_writes run_simps magic_writes_def)

lemma run_keep_alive:
  "in_session d p c \<Longrightarrow> keep_alive (u, d) =
     (Inr (), (u\<lparr>ve_blocked := ve_blocked u + 2\<rparr>, d\<lparr>writes := writes d @ keep_writes p c\<rparr>))"
  by (simp add: keep_alive_def run_bind run_ve_writes run_simps keep_writes_def)

text \<open>One poll, by the plugin's counter: the session is opened, kept alive, or left alone.\<close>

lemma run_vedirect_poll:
  assumes "in_session d p c"
  shows "vedirect_poll (u, d) =
    (Inr NoData,
      (if \<not> is_initialized u \<and> ve_loop_count u = 2 then
         (u\<lparr>is_initialized := True, ve_loop_count := 3, ve_blocked := ve_blocked u + 108\<rparr>,
          d\<lparr>writes := writes d @ magic_writes p c\<rparr>)
       else if ve_loop_count u = 5 then
         (u\<lparr>ve_loop_count := 1, ve_blocked := ve_blocked u + 2\<rparr>, d\<lparr>writes := writes d @ keep_writes p c\<rparr>)
       else (u\<lparr>ve_loop_count := ve_loop_count u + 1\<rparr>, d)))"
  using run_send_magic [OF assms] run_keep_alive [OF assms]
  by (simp add: vedirect_poll_def util_state_def run_bind run_simps on_util_def)

definition vedirect_polls :: "nat \<Rightarrow> vedirect \<times> device \<Rightarrow> vedirect \<times> device" where
  "vedirect_polls n = ((\<lambda>s. snd (vedirect_poll s)) ^^ n)"

text \<open>
  C38: on a connection that stays up, the third poll of the process opens the session, every
  fifth one from the sixth on keeps it alive, and no other poll writes; and since the pauses
  between the writes are slept on the event loop, the opening holds up every device for 10.8
  seconds and each keep-alive for 0.2.
\<close>

theorem vedirect_session:
  assumes "in_session d p c"
  shows "writes (snd (vedirect_polls n (vedirect_init, d))) =
      writes d @ (if 3 \<le> n then magic_writes p c else []) @ concat (replicate ((n - 1) div 5) (keep_writes p c)) \<and>
    ve_blocked (fst (vedirect_polls n (vedirect_init, d))) = (if 3 \<le> n then 108 else 0) + 2 * ((n - 1) div 5)"
proof -
  let ?k = "\<lambda>n. (if 3 \<le> n then magic_writes p c else []) @ concat (replicate ((n - 1) div 5) (keep_writes p c))"
  let ?t = "\<lambda>n. (if 3 \<le> n then 108 else 0) + 2 * ((n - 1) div 5)"
  have "vedirect_polls n (vedirect_init, d) =
      (vedirect_init\<lparr>is_initialized := 3 \<le> n, ve_loop_count := (if n = 0 then 0 else int ((n - 1) mod 5 + 1)),
         ve_blocked := ?t n\<rparr>, d\<lparr>writes := writes d @ ?k n\<rparr>)"
  proof (induction n)
    case 0
    show ?case by (simp add: vedirect_polls_def vedirect_init_def)
  next
    case (Suc n)
    let ?u = "vedirect_init\<lparr>is_initialized := 3 \<le> n, ve_loop_count := (if n = 0 then 0 else int ((n - 1) mod 5 + 1)),
        ve_blocked := ?t n\<rparr>" and ?d = "d\<lparr>writes := writes d @ ?k n\<rparr>"
    have step: "vedirect_polls (Suc n) (vedirect_init, d) = snd (vedirect_poll (?u, ?d))"
      unfolding Suc.IH [symmetric] by (simp add: vedirect_polls_def)
    have s: "in_session ?d p c" using assms by simp
    consider "n = 0" | "n = 2" | "0 < n" "n \<noteq> 2" "(n - 1) mod 5 = 4" | "0 < n" "n \<noteq> 2" "(n - 1) mod 5 \<noteq> 4" by linarith
    then show ?case
    proof cases
      case 3
      then obtain m where m: "n = Suc m" "m mod 5 = 4" by (cases n) auto
      then have "Suc m mod 5 = 0" "Suc m div 5 = Suc (m div 5)" "3 \<le> n" by presburger+
      then show ?thesis
        unfolding step run_vedirect_poll [OF s] using m by (simp add: replicate_append_same [symmetric])
    next
      case 4
      then obtain m where m: "n = Suc m" "m mod 5 \<noteq> 4" "m \<noteq> 1" by (cases n) auto
      then have "Suc m mod 5 = Suc (m mod 5)" "Suc m div 5 = m div 5" by presburger+
      moreover have "3 \<le> Suc m \<longleftrightarrow> 2 \<le> Suc m" "m mod 5 = 1 \<Longrightarrow> 3 \<le> Suc m" using m by presburger+
      ultimately show ?thesis
        unfolding step run_vedirect_poll [OF s] using m by auto
    qed (unfold step run_vedirect_poll [OF s], simp_all add: vedirect_init_def)
  qed
  then show ?thesis by simp
qed

theorem vedirect_session_witness:
  "ve_blocked (fst (vedirect_polls 6 (vedirect_init, (sample_device ''inverter_1'' [] 5)
     \<lparr>connected := True, write_polling := Some ''0002'', write_commands := Some ''0003''\<rparr>))) = 110"
proof -
  let ?d = "(sample_device ''inverter_1'' [] 5)\<lparr>connected := True, write_polling := Some ''0002'', write_commands := Some ''0003''\<rparr>"
  have "in_session ?d ''0002'' ''0003''"
    by (simp add: in_session_def sample_device_def new_device_def sample_config_def parse_interval_def)
  from vedirect_session [OF this, of 6] show ?thesis by simp
qed


subsection \<open>The current\<close>

lemma sint_uint_16: "sint (w :: 16 word) = (if 32767 < uint w then uint w - 65536 else uint w)"
proof -
  have "0 \<le> uint w" and "uint w < 65536" using uint_lt2p [of w] by simp_all
  moreover have "sint w = (uint w + 32768) mod 65536 - 32768"
    by (simp add: sint_uint signed_take_bit_eq_take_bit_shift take_bit_eq_mod)
  ultimately show ?thesis by (smt (verit) mod_add_self2 mod_pos_pos_trivial minus_mod_self2)
qed


text \<open>
  a current packet stands for the two's-complement word it carries, in tenths of an
  ampere, for every word but one: the least, \<open>0x8000\<close>, is taken as positive.
\<close>

theorem vedirect_current:
  fixes w :: "16 word"
  assumes "c \<noteq> ''306b0004-b081-4037-83dc-e59fcc3cdfd0''" and "wf_device d"
  shows "vedirect_notification [a, b, x, 0xed, 0x8f, y, uint w mod 256, uint w div 256] c (u, d) =
    (Inr True, (u, snd (assign_attr A_current (tenth (if w = 0x8000 then 32768 else sint w)) d)))"
proof -
  let ?v = "if uint w > 32768 then - (65536 - uint w) else uint w"
  have v: "?v = (if w = 0x8000 then 32768 else sint w)"
  proof (cases "w = 0x8000")
    case False
    then have "uint w \<noteq> 32768" by (metis of_int_numeral word_of_int_uint)
    then show ?thesis using False by (auto simp: sint_uint_16)
  qed simp
  have "set_values [a, b, x, 0xed, 0x8f, y, uint w mod 256, uint w div 256] = assign_num A_current (tenth ?v)"
    by (simp add: set_values_def ve_values8_def section_of_def from_little_def Let_def)
  moreover obtain d' where "assign_attr A_current (tenth ?v) d = (Inr (), d')"
    using never_raisesD [OF returns_assign_attr assms(2), of A_current "tenth ?v"] by auto
  ultimately show ?thesis
    using assms(1) v by (simp add: vedirect_notification_def pym_simps assign_num_def on_device_def)
qed

theorem vedirect_current_witness:
  "fst (vedirect_notification [8, 0, 25, 0xed, 0x8f, 66, 156, 255] ''306b0003-b081-4037-83dc-e59fcc3cdfd0''
     (vedirect_init, sample_device ''inverter_1'' [] 5)) = Inr True"
proof -
  have "wf_device (sample_device ''inverter_1'' [] 5)"
    by (simp add: wf_device_def wf_entities_for within_bound_def)
  then show ?thesis
    using vedirect_current [of "''306b0003-b081-4037-83dc-e59fcc3cdfd0''" "sample_device ''inverter_1'' [] 5" 8 0 25 66
        "0xff9c" vedirect_init]
    by simp
qed

subsection \<open>The plugin keeps its contract\<close>

lemma keeps_vedirect: "preserves (keeps vedirect_inv) (vedirect_notification bs c)"
proof (rule preservesI)
  fix s :: "vedirect \<times> device" assume "keeps vedirect_inv s"
  then obtain u d where s: "s = (u, d)" "vedirect_inv u" "wf_device d" by (cases s) (auto simp: keeps_def)
  then obtain b d' where "vedirect_notification bs c s = (Inr True, (u\<lparr>char_buffer := b\<rparr>, d'))" "wf_device d'" "length b \<le> 20"
    using packet_total [of d u bs c] by (auto simp: vedirect_inv_def)
  with s show "keeps vedirect_inv (snd (vedirect_notification bs c s))"
    by (simp add: keeps_def vedirect_inv_def)
qed

lemma keeps_ve_writes:
  "preserves (keeps vedirect_inv) (ve_poll_write bs n)" "preserves (keeps vedirect_inv) (ve_command_write bs n)"
proof -
  have "preserves (keeps vedirect_inv) (ve_sleep n)"
    unfolding ve_sleep_def by (intro keeps_on_util preserves_modify) (simp add: vedirect_inv_def)
  then show "preserves (keeps vedirect_inv) (ve_poll_write bs n)" "preserves (keeps vedirect_inv) (ve_command_write bs n)"
    unfolding ve_poll_write_def ve_command_write_def
    by - (rule preserves_block; auto intro!: keeps_on_device wf_write_to)+
qed

lemma keeps_ve_blocks:
  "preserves (keeps vedirect_inv) send_magic_packets" "preserves (keeps vedirect_inv) keep_alive"
  unfolding send_magic_packets_def keep_alive_def
  by (rule preserves_block; auto intro: keeps_ve_writes)+

lemma keeps_vedirect_poll: "preserves (keeps vedirect_inv) vedirect_poll"
proof (rule preservesI)
  fix s :: "vedirect \<times> device" assume "keeps vedirect_inv s"
  then obtain u d where s: "s = (u, d)" "vedirect_inv u" "wf_device d" by (cases s) (auto simp: keeps_def)
  then have k: "keeps vedirect_inv (u, d)" by (simp add: keeps_def)
  have magic: "keeps vedirect_inv (snd (send_magic_packets (u, d)))"
    and alive: "keeps vedirect_inv (snd (keep_alive (u, d)))"
    using preservesD [OF keeps_ve_blocks(1) k] preservesD [OF keeps_ve_blocks(2) k] by simp_all
  have count: "ve_loop_count (fst (snd (send_magic_packets (u, d)))) = ve_loop_count u"
  proof -
    let ?P = "\<lambda>(v, d). ve_loop_count v = ve_loop_count u"
    have "preserves ?P (on_device m)" for m :: "(device, 'c) pym"
      by (auto simp: preserves_def on_device_def split: prod.split)
    moreover have "preserves ?P (ve_sleep n)" for n
      by (auto simp: preserves_def ve_sleep_def on_util_def pym_simps)
    ultimately have "preserves ?P (ve_poll_write bs n)" "preserves ?P (ve_command_write bs n)" for bs n
      unfolding ve_poll_write_def ve_command_write_def
      by - (rule preserves_block; fastforce)+
    then have "preserves ?P send_magic_packets"
      unfolding send_magic_packets_def by - (rule preserves_block; auto)
    from preservesD [OF this, of "(u, d)"] show ?thesis by (simp add: case_prod_beta)
  qed
  obtain r v e where m: "send_magic_packets (u, d) = (r, (v, e))" by (metis prod.exhaust)
  obtain r' v' e' where a: "keep_alive (u, d) = (r', (v', e'))" by (metis prod.exhaust)
  show "keeps vedirect_inv (snd (vedirect_poll s))"
    using s(2,3) magic alive count m a
    by (cases r; cases r') (auto simp: s(1) vedirect_poll_def util_state_def run_bind run_simps on_util_def
        keeps_def vedirect_inv_def)
qed

lemma keeps_vedirect_cmd: "preserves (keeps vedirect_inv) (vedirect_cmd command text)"
  unfolding vedirect_cmd_def by (auto intro!: preserves_ret preserves_throw split: option.split)

interpretation vedirect: plugin_contract vedirect_plugin vedirect_inv
  by unfold_locales
    (auto simp: vedirect_plugin_def intro: keeps_vedirect keeps_vedirect_poll keeps_vedirect_cmd preserves_throw)

end
