(* ===== verification/Mqtt.thy ===== *)
theory Mqtt
  imports Device
begin

section \<open>datalogger.py: DataLoggerMqtt\<close>

text \<open>
  The MQTT side of the datalogger: the topics and retained discovery configs Home Assistant
  reads, the command topics, and the callbacks of the client library. paho's client is not
  part of the repository: what a call of its \<open>publish\<close> or \<open>subscribe\<close> yields is the argument
  \<open>broker\<close>, a function of the calls before it, and the calls that went through are recorded
  in \<open>outbox\<close> and \<open>subscriptions\<close>. A config is kept as the value given to \<open>json.dumps\<close>. Names
  are 8-bit strings, and \<open>title\<close> and \<open>capitalize\<close> those of ASCII. One method call happens at
  one instant.
\<close>

subsection \<open>Messages, the client, and the state\<close>

datatype json = JStr string | JNum int | JBool bool | JArr "json list" | JObj "(string \<times> json) list"

datatype body = Value pyval | Text string | Config json | NoBody

record message =
  topic :: string
  body :: body
  qos :: nat
  retain :: bool

record broker =
  pub_rc :: "message list \<Rightarrow> message \<Rightarrow> py_error + int"
  sub_result :: "string list \<Rightarrow> string \<Rightarrow> py_error + unit"

text \<open>
  The events in \<open>trigger\<close> are all one event, set by \<open>on_message\<close> (\<open>woken\<close>); \<open>triggers\<close> are the
  devices it is registered for. The set of command topics is a list without repetition.
\<close>

record mqtt =
  mprefix :: string
  device_types :: "string \<rightharpoonup> string"
  aliases :: "string \<rightharpoonup> string"
  command_topics :: "string list"
  sensors :: "string \<rightharpoonup> rat"
  command_sets :: "string \<rightharpoonup> (string \<times> string) list"
  triggers :: "string list"
  woken :: bool
  listener_created :: "string \<times> string \<rightharpoonup> rat"
  outbox :: "message list"
  subscriptions :: "string list"

record instant =
  mono :: rat
  wall :: rat

definition slash_prefix :: "string \<Rightarrow> string" where
  "slash_prefix p = (if ends_with p ''/'' then p else p @ ''/'')"

definition new_mqtt :: "string option \<Rightarrow> (string \<rightharpoonup> string) \<Rightarrow> mqtt" where
  "new_mqtt pfx types =
     \<lparr>mprefix = slash_prefix (case pfx of None \<Rightarrow> ''solar-monitor'' | Some p \<Rightarrow> p),
      device_types = types, aliases = Map.empty, command_topics = [], sensors = Map.empty,
      command_sets = Map.empty, triggers = [], woken = False, listener_created = Map.empty,
      outbox = [], subscriptions = []\<rparr>"

definition client_publish :: "broker \<Rightarrow> message \<Rightarrow> (mqtt, int) pym" where
  "client_publish b msg = (\<lambda>m.
     case pub_rc b (outbox m) msg of
       Inl e \<Rightarrow> (Inl e, m)
     | Inr rc \<Rightarrow> (Inr rc, m\<lparr>outbox := outbox m @ [msg]\<rparr>))"

definition client_subscribe :: "broker \<Rightarrow> string \<Rightarrow> (mqtt, unit) pym" where
  "client_subscribe b t = (\<lambda>m.
     case sub_result b (subscriptions m) t of
       Inl e \<Rightarrow> (Inl e, m)
     | Inr _ \<Rightarrow> (Inr (), m\<lparr>subscriptions := subscriptions m @ [t]\<rparr>))"

subsection \<open>Topics and names\<close>

definition state_topic :: "mqtt \<Rightarrow> string \<Rightarrow> string \<Rightarrow> string" where
  "state_topic m dev var = mprefix m @ dev @ ''/'' @ var @ ''/state''"

definition set_topic :: "mqtt \<Rightarrow> string \<Rightarrow> string \<Rightarrow> string" where
  "set_topic m dev var = mprefix m @ dev @ ''/'' @ var @ ''/set''"

definition availability_topic :: "mqtt \<Rightarrow> string \<Rightarrow> string" where
  "availability_topic m dev = mprefix m @ dev @ ''/availability''"

definition ha_topic :: "string \<Rightarrow> string \<Rightarrow> string \<Rightarrow> string" where
  "ha_topic component dev var = ''homeassistant/'' @ component @ ''/'' @ dev @ ''/'' @ var @ ''/config''"

definition is_letter :: "char \<Rightarrow> bool" where
  "is_letter c = (let n = (of_char c :: nat) in 65 \<le> n \<and> n \<le> 90 \<or> 97 \<le> n \<and> n \<le> 122)"

definition upper :: "char \<Rightarrow> char" where
  "upper c = (let n = (of_char c :: nat) in if 97 \<le> n \<and> n \<le> 122 then char_of (n - 32) else c)"

fun title_from :: "bool \<Rightarrow> string \<Rightarrow> string" where
  "title_from inside [] = []"
| "title_from inside (c # cs) =
     (if is_letter c then (if inside then fold_case c else upper c) # title_from True cs
      else c # title_from False cs)"

text \<open>\<open>s.replace("_", " ").title()\<close> and \<open>s.capitalize()\<close>\<close>

definition display_name :: "string \<Rightarrow> string" where
  "display_name s = title_from False (map (\<lambda>c. if c = CHR ''_'' then CHR '' '' else c) s)"

definition capitalize :: "string \<Rightarrow> string" where
  "capitalize s = (case s of [] \<Rightarrow> [] | c # cs \<Rightarrow> upper c # map fold_case cs)"

definition truthy :: "string option \<Rightarrow> string option" where
  "truthy s = (case s of None \<Rightarrow> None | Some t \<Rightarrow> if t = [] then None else Some t)"

definition device_block :: "mqtt \<Rightarrow> string \<Rightarrow> json" where
  "device_block m dev =
     (let base = butlast (mprefix m);
          dtype = truthy (device_types m dev)
      in JObj
        ([(''identifiers'', JArr [JStr (base @ ''_'' @ dev)]),
          (''name'', JStr (capitalize base @ '' '' @ display_name dev))] @
         (case dtype of None \<Rightarrow> [] | Some t \<Rightarrow> [(''manufacturer'', JStr t)]) @
         (case truthy (aliases m dev) of
            Some a \<Rightarrow> [(''model'', JStr a)]
          | None \<Rightarrow> (case dtype of None \<Rightarrow> [] | Some t \<Rightarrow> [(''model'', JStr t)]))))"

subsection \<open>Discovery\<close>

definition unique_id :: "mqtt \<Rightarrow> string \<Rightarrow> string \<Rightarrow> string" where
  "unique_id m dev var = butlast (mprefix m) @ ''_'' @ dev @ ''_'' @ var"

definition switch_config :: "mqtt \<Rightarrow> string \<Rightarrow> string \<Rightarrow> (string \<times> json) list" where
  "switch_config m dev var =
     [(''name'', JStr (display_name var)),
      (''unique_id'', JStr (unique_id m dev var)),
      (''state_topic'', JStr (state_topic m dev var)),
      (''command_topic'', JStr (set_topic m dev var)),
      (''payload_on'', JNum 1),
      (''payload_off'', JNum 0),
      (''device'', device_block m dev),
      (''availability_topic'', JStr (availability_topic m dev)),
      (''payload_available'', JStr ''online''),
      (''payload_not_available'', JStr ''offline'')]"

definition classed :: "string \<Rightarrow> string \<Rightarrow> (string \<times> json) list" where
  "classed cls unit = [(''device_class'', JStr cls), (''unit_of_measurement'', JStr unit)]"

definition iconed :: "string \<Rightarrow> (string \<times> json) list" where
  "iconed icon = [(''icon'', JStr icon)]"

definition sensor_extras :: "string \<Rightarrow> string \<Rightarrow> (string \<times> json) list" where
  "sensor_extras dev var =
     (if var = ''temperature'' then classed ''temperature'' [CHR 0xB0, CHR ''C'']
      else if var = ''soc'' then classed ''battery'' ''%''
      else if var = ''power'' \<or> var = ''charge_power'' \<or> var = ''input_power'' then classed ''power'' ''W''
      else if var = ''voltage'' \<or> var = ''charge_voltage'' \<or> var = ''input_voltage'' then
        [(''device_class'', JStr ''voltage''), (''icon'', JStr ''mdi:flash''), (''unit_of_measurement'', JStr ''V'')]
      else if var = ''current'' \<or> var = ''charge_current'' \<or> var = ''input_current'' then
        [(''device_class'', JStr ''current''), (''icon'', JStr ''mdi:current-dc''), (''unit_of_measurement'', JStr ''A'')]
      else if ends_with var ''_state'' then
        [(''device_class'', JStr ''enum''),
         (''options'', JArr [JStr ''charging'', JStr ''standby'', JStr ''discharging''])]
      else if var = ''charge_cycles'' then iconed ''mdi:recycle''
      else if var = ''health'' then iconed ''mdi:heart-flash''
      else if contains dev ''battery'' \<and> contains var ''cell'' then
        [(''icon'', JStr ''mdi:battery''), (''unit_of_measurement'', JStr ''mV''), (''device_class'', JStr ''voltage'')]
      else if contains dev ''battery'' then iconed ''mdi:battery''
      else if contains dev ''regulator'' then iconed ''mdi:solar-power''
      else if contains dev ''inverter'' then iconed ''mdi:current-ac''
      else if contains dev ''rectifier'' then iconed ''mdi:current-ac''
      else [])"

definition sensor_config :: "mqtt \<Rightarrow> string \<Rightarrow> string \<Rightarrow> (string \<times> json) list" where
  "sensor_config m dev var =
     [(''name'', JStr (display_name var)),
      (''unique_id'', JStr (unique_id m dev var)),
      (''state_topic'', JStr (state_topic m dev var)),
      (''force_update'', JBool True),
      (''device'', device_block m dev),
      (''availability_topic'', JStr (availability_topic m dev)),
      (''payload_available'', JStr ''online''),
      (''payload_not_available'', JStr ''offline'')] @ sensor_extras dev var"

definition config_message :: "string \<Rightarrow> (string \<times> json) list \<Rightarrow> message" where
  "config_message t entries = \<lparr>topic = t, body = Config (JObj entries), qos = 1, retain = True\<rparr>"

definition create_switch :: "broker \<Rightarrow> string \<Rightarrow> string \<Rightarrow> (mqtt, unit) pym" where
  "create_switch b dev var = (\<lambda>m.
     bind (client_publish b (config_message (ha_topic ''switch'' dev var) (switch_config m dev var))) (\<lambda>_. ret ()) m)"

definition create_sensor :: "broker \<Rightarrow> string \<Rightarrow> string \<Rightarrow> (mqtt, unit) pym" where
  "create_sensor b dev var = (\<lambda>m.
     bind (client_publish b (config_message (ha_topic ''sensor'' dev var) (sensor_config m dev var))) (\<lambda>_. ret ()) m)"

definition delete_entity :: "broker \<Rightarrow> string \<Rightarrow> string \<Rightarrow> string \<Rightarrow> (mqtt, unit) pym" where
  "delete_entity b component dev var =
     bind (client_publish b \<lparr>topic = ha_topic component dev var, body = NoBody, qos = 0, retain = False\<rparr>) (\<lambda>_. ret ())"

definition create_listener :: "broker \<Rightarrow> instant \<Rightarrow> string \<Rightarrow> string \<Rightarrow> (mqtt, unit) pym" where
  "create_listener b t dev var =
     block
       [modify (\<lambda>m. m\<lparr>command_topics := List.insert (set_topic m dev var) (command_topics m)\<rparr>),
        try_except
          (block [\<lambda>m. client_subscribe b (set_topic m dev var) m,
                  modify (\<lambda>m. m\<lparr>listener_created := (listener_created m)((dev, var) \<mapsto> wall t)\<rparr>)])
          (\<lambda>_. ret ()),
        modify (\<lambda>m. m\<lparr>command_sets := (case command_sets m dev of
           None \<Rightarrow> (command_sets m)(dev \<mapsto> []) | Some _ \<Rightarrow> command_sets m)\<rparr>)]"

subsection \<open>Publishing\<close>

definition DISCOVERY_REPUBLISH_SECONDS :: rat where
  "DISCOVERY_REPUBLISH_SECONDS = 3600"

definition is_switch :: "string \<Rightarrow> bool" where
  "is_switch var = contains var ''power_switch''"

definition discovery_due :: "mqtt \<Rightarrow> instant \<Rightarrow> string \<Rightarrow> bool \<Rightarrow> bool" where
  "discovery_due m t tpc refresh =
     (case sensors m tpc of
        None \<Rightarrow> True
      | Some published_at \<Rightarrow> refresh \<and> fl (mono t - published_at) \<ge> DISCOVERY_REPUBLISH_SECONDS)"

definition announce :: "broker \<Rightarrow> instant \<Rightarrow> string \<Rightarrow> string \<Rightarrow> (mqtt, unit) pym" where
  "announce b t dev var =
     (if is_switch var then block [create_switch b dev var, create_listener b t dev var]
      else create_sensor b dev var)"

definition state_message :: "string \<Rightarrow> string \<Rightarrow> pyval \<Rightarrow> message" where
  "state_message tpc var v = \<lparr>topic = tpc, body = Value v, qos = (if is_switch var then 1 else 0), retain = True\<rparr>"

text \<open>\<open>self._listener_created[device, var]\<close> raises when the listener was never created.\<close>

definition renew_listener :: "broker \<Rightarrow> instant \<Rightarrow> string \<Rightarrow> string \<Rightarrow> (mqtt, unit) pym" where
  "renew_listener b t dev var =
     (if is_switch var then
        bind (gets (\<lambda>m. listener_created m (dev, var))) (\<lambda>created.
          case created of
            None \<Rightarrow> throw KeyError
          | Some c \<Rightarrow> whenp (wall t > fl (c + 300)) (create_listener b t dev var))
      else ret ())"

definition mqtt_publish :: "broker \<Rightarrow> instant \<Rightarrow> string \<Rightarrow> string \<Rightarrow> pyval \<Rightarrow> bool \<Rightarrow> (mqtt, bool) pym" where
  "mqtt_publish b t dev var v refresh = (\<lambda>m0.
     let tpc = state_topic m0 dev var in
     bind (whenp (discovery_due m0 t tpc refresh)
        (block [announce b t dev var,
                modify (\<lambda>m. m\<lparr>sensors := (sensors m)(tpc \<mapsto> mono t)\<rparr>)])) (\<lambda>_.
     bind (client_publish b (state_message tpc var v)) (\<lambda>rc.
     bind (renew_listener b t dev var) (\<lambda>_.
       ret (rc = 0)))) m0)"

definition mqtt_set_alias :: "string \<Rightarrow> string \<Rightarrow> (mqtt, unit) pym" where
  "mqtt_set_alias dev name =
     modify (\<lambda>m. if name = [] then m else m\<lparr>aliases := (aliases m)(strip dev \<mapsto> strip name)\<rparr>)"

definition mqtt_set_available :: "broker \<Rightarrow> string \<Rightarrow> bool \<Rightarrow> (mqtt, unit) pym" where
  "mqtt_set_available b dev online = (\<lambda>m.
     bind (client_publish b
       \<lparr>topic = availability_topic m (strip dev), body = Text (if online then ''online'' else ''offline''),
        qos = 1, retain = True\<rparr>) (\<lambda>_. ret ()) m)"

subsection \<open>The client's callbacks\<close>

text \<open>The broker forgets the subscriptions on every reconnect.\<close>

definition mqtt_on_connect :: "broker \<Rightarrow> (mqtt, unit) pym" where
  "mqtt_on_connect b = (\<lambda>m.
     block (map (\<lambda>t. try_except (client_subscribe b t) (\<lambda>_. ret ())) (command_topics m)) m)"

text \<open>A payload that is not UTF-8 is \<open>None\<close>: decoding it raises, and the handler logs that.\<close>

definition on_message_body :: "string \<Rightarrow> string option \<Rightarrow> (mqtt, unit) pym" where
  "on_message_body tpc payload =
     (case payload of
        None \<Rightarrow> throw ValueError
      | Some text \<Rightarrow>
          (let parts = split_on CHR ''/'' tpc in
           if length parts < 4 then ret ()
           else
             bind (lift (py_get parts (- 3))) (\<lambda>dev.
             bind (lift (py_get parts (- 2))) (\<lambda>var.
             block
               [modify (\<lambda>m. m\<lparr>command_sets := (command_sets m)(dev \<mapsto>
                  (case command_sets m dev of None \<Rightarrow> [] | Some xs \<Rightarrow> xs) @ [(var, text)])\<rparr>),
                modify (\<lambda>m. if dev \<in> set (triggers m) then m\<lparr>woken := True\<rparr> else m)]))))"

definition mqtt_on_message :: "string \<Rightarrow> string option \<Rightarrow> (mqtt, unit) pym" where
  "mqtt_on_message tpc payload = try_except (on_message_body tpc payload) (\<lambda>_. ret ())"

subsection \<open>Histories\<close>

text \<open>The calls the rest of the program and the client library make, in any order.\<close>

datatype mqtt_call =
    Publish instant string string pyval bool
  | SetAlias string string
  | Availability string bool
  | Reconnected
  | Arrived string "string option"

fun mqtt_do :: "broker \<Rightarrow> mqtt_call \<Rightarrow> mqtt \<Rightarrow> mqtt" where
  "mqtt_do b (Publish t dev var v refresh) m = snd (mqtt_publish b t dev var v refresh m)"
| "mqtt_do b (SetAlias dev name) m = snd (mqtt_set_alias dev name m)"
| "mqtt_do b (Availability dev online) m = snd (mqtt_set_available b dev online m)"
| "mqtt_do b Reconnected m = snd (mqtt_on_connect b m)"
| "mqtt_do b (Arrived tpc payload) m = snd (mqtt_on_message tpc payload m)"

definition mqtt_run :: "broker \<Rightarrow> mqtt_call list \<Rightarrow> mqtt \<Rightarrow> mqtt" where
  "mqtt_run b cs m = fold (mqtt_do b) cs m"

subsection \<open>What is published was announced\<close>

text \<open>The retained config that tells Home Assistant about the state topic \<open>t\<close>.\<close>

fun announces :: "string \<Rightarrow> message \<Rightarrow> bool" where
  "announces t \<lparr>topic = _, body = Config (JObj entries), qos = q, retain = r\<rparr> =
     (map_of entries ''state_topic'' = Some (JStr t) \<and> q = 1 \<and> r)"
| "announces t _ = False"

text \<open>The config that tells it to send commands to the topic \<open>t\<close>.\<close>

fun commands :: "string \<Rightarrow> message \<Rightarrow> bool" where
  "commands t \<lparr>topic = _, body = Config (JObj entries), qos = _, retain = _\<rparr> =
     (map_of entries ''command_topic'' = Some (JStr t))"
| "commands t _ = False"

fun is_state :: "message \<Rightarrow> bool" where
  "is_state \<lparr>topic = _, body = Value _, qos = _, retain = _\<rparr> = True"
| "is_state _ = False"

fun well_announced :: "message list \<Rightarrow> message list \<Rightarrow> bool" where
  "well_announced past [] = True"
| "well_announced past (x # xs) =
     ((is_state x \<longrightarrow> list_ex (announces (topic x)) past) \<and> well_announced (past @ [x]) xs)"

lemma well_announced_append:
  "well_announced past (xs @ ys) \<longleftrightarrow> well_announced past xs \<and> well_announced (past @ xs) ys"
  by (induction xs arbitrary: past) auto

definition mqtt_inv :: "mqtt \<Rightarrow> bool" where
  "mqtt_inv m \<longleftrightarrow>
     well_announced [] (outbox m) \<and>
     (\<forall>t. sensors m t \<noteq> None \<longrightarrow> list_ex (announces t) (outbox m)) \<and>
     (\<forall>c t. c \<in> set (outbox m) \<longrightarrow> commands t c \<longrightarrow> t \<in> set (command_topics m)) \<and>
     distinct (command_topics m)"

lemma commands_configs:
  "commands c (config_message t (switch_config m dev var)) \<longleftrightarrow> c = set_topic m dev var"
  by (auto simp: config_message_def switch_config_def)

lemma commands_sensor: "\<not> commands c (config_message t (sensor_config m dev var))"
proof -
  have "map_of (sensor_extras dev var) ''command_topic'' = None"
    by (simp add: sensor_extras_def classed_def iconed_def)
  then show ?thesis by (simp add: config_message_def sensor_config_def)
qed

lemma announces_configs:
  "announces (state_topic m dev var) (config_message t (switch_config m dev var))"
  "announces (state_topic m dev var) (config_message t (sensor_config m dev var))"
  by (simp_all add: config_message_def switch_config_def sensor_config_def)

text \<open>Creating a listener never raises, and leaves the messages and the sensors alone.\<close>

lemma create_listener_runs:
  "\<exists>m'. create_listener b t dev var m = (Inr (), m') \<and> outbox m' = outbox m \<and> sensors m' = sensors m \<and>
     mprefix m' = mprefix m \<and> command_topics m' = List.insert (set_topic m dev var) (command_topics m) \<and>
     command_sets m' dev \<noteq> None"
  by (auto simp: create_listener_def client_subscribe_def pym_simps split: sum.splits option.splits)

lemma announce_runs:
  assumes "announce b t dev var m = (r, m')"
  shows "sensors m' = sensors m \<and> mprefix m' = mprefix m \<and>
    (distinct (command_topics m) \<longrightarrow> distinct (command_topics m')) \<and> set (command_topics m) \<subseteq> set (command_topics m') \<and>
    (case r of
       Inl e \<Rightarrow> outbox m' = outbox m
     | Inr _ \<Rightarrow> (\<exists>c. outbox m' = outbox m @ [c] \<and> announces (state_topic m dev var) c \<and> \<not> is_state c \<and>
           (\<forall>s. commands s c \<longrightarrow> s \<in> set (command_topics m'))) \<and>
         (is_switch var \<longrightarrow> set_topic m dev var \<in> set (command_topics m')))"
proof (cases "is_switch var")
  case True
  let ?c = "config_message (ha_topic ''switch'' dev var) (switch_config m dev var)"
  have c: "\<not> is_state ?c" by (simp add: config_message_def)
  show ?thesis
  proof (cases "pub_rc b (outbox m) ?c")
    case (Inl e)
    with True assms show ?thesis
      by (auto simp: announce_def create_switch_def client_publish_def pym_simps)
  next
    case (Inr rc)
    obtain m2 where "create_listener b t dev var (m\<lparr>outbox := outbox m @ [?c]\<rparr>) = (Inr (), m2)"
      "outbox m2 = outbox m @ [?c]" "sensors m2 = sensors m" "mprefix m2 = mprefix m"
      "command_topics m2 = List.insert (set_topic m dev var) (command_topics m)"
      using create_listener_runs [of b t dev var "m\<lparr>outbox := outbox m @ [?c]\<rparr>"] by (auto simp: set_topic_def)
    with True Inr assms c announces_configs(1) commands_configs show ?thesis
      by (auto simp: announce_def create_switch_def client_publish_def pym_simps)
  qed
next
  case False
  let ?c = "config_message (ha_topic ''sensor'' dev var) (sensor_config m dev var)"
  have "\<not> is_state ?c" by (simp add: config_message_def)
  with False assms announces_configs(2) commands_sensor show ?thesis
    by (auto simp: announce_def create_sensor_def client_publish_def pym_simps split: sum.splits)
qed

lemma renew_listener_runs:
  assumes "renew_listener b t dev var m = (r, m')"
  shows "sensors m' = sensors m \<and> outbox m' = outbox m \<and> mprefix m' = mprefix m \<and>
    (distinct (command_topics m) \<longrightarrow> distinct (command_topics m')) \<and> set (command_topics m) \<subseteq> set (command_topics m')"
proof -
  obtain m2 where "create_listener b t dev var m = (Inr (), m2)" "outbox m2 = outbox m" "sensors m2 = sensors m"
    "mprefix m2 = mprefix m" "command_topics m2 = List.insert (set_topic m dev var) (command_topics m)"
    using create_listener_runs [of b t dev var m] by blast
  with assms show ?thesis
    by (auto simp: renew_listener_def pym_simps split: if_splits option.splits)
qed

text \<open>A state message goes out behind the config of its topic.\<close>

lemma mqtt_inv_state:
  assumes "mqtt_inv m" and "list_ex (announces (topic msg)) (outbox m)"
    and "\<And>t. \<not> commands t msg"
  shows "mqtt_inv (m\<lparr>outbox := outbox m @ [msg]\<rparr>)"
  using assms by (auto simp: mqtt_inv_def well_announced_append list_ex_iff)

lemma mqtt_inv_other:
  assumes "mqtt_inv m" and "\<not> is_state msg" and "\<And>t. \<not> commands t msg"
  shows "mqtt_inv (m\<lparr>outbox := outbox m @ [msg]\<rparr>)"
  using assms by (auto simp: mqtt_inv_def well_announced_append list_ex_iff)

lemma mqtt_inv_frame:
  assumes "mqtt_inv m" and "outbox m' = outbox m" and "sensors m' = sensors m" and "distinct (command_topics m')"
    and "set (command_topics m) \<subseteq> set (command_topics m')"
  shows "mqtt_inv m'"
  using assms by (auto simp: mqtt_inv_def)

lemma inv_announce:
  assumes m: "mqtt_inv m" and run: "announce b t dev var m = (r, m')"
  shows "mqtt_inv m' \<and> (\<not> isl r \<longrightarrow> list_ex (announces (state_topic m dev var)) (outbox m'))"
proof -
  note f = announce_runs [OF run]
  have d: "distinct (command_topics m')" using f m by (simp add: mqtt_inv_def)
  show ?thesis
  proof (cases r)
    case (Inl e)
    with f m d show ?thesis by (auto intro: mqtt_inv_frame)
  next
    case (Inr x)
    then obtain c where c: "outbox m' = outbox m @ [c]" "announces (state_topic m dev var) c" "\<not> is_state c"
      using f by auto
    moreover have "\<forall>s. commands s c \<longrightarrow> s \<in> set (command_topics m')" using f Inr c(1) by auto
    ultimately have "mqtt_inv m'"
      using m f d by (auto simp: mqtt_inv_def well_announced_append list_ex_iff)
    with c show ?thesis by (simp add: list_ex_iff)
  qed
qed

text \<open>The three steps of a publication: announce if due, publish, renew the listener.\<close>

lemma mqtt_publish_steps:
  "mqtt_publish b t dev var v refresh m =
     (let tpc = state_topic m dev var in
      case (if discovery_due m t tpc refresh
            then bind (announce b t dev var) (\<lambda>_. modify (\<lambda>m. m\<lparr>sensors := (sensors m)(tpc \<mapsto> mono t)\<rparr>)) m
            else (Inr (), m)) of
        (Inl e, m1) \<Rightarrow> (Inl e, m1)
      | (Inr _, m1) \<Rightarrow>
          (case pub_rc b (outbox m1) (state_message tpc var v) of
             Inl e \<Rightarrow> (Inl e, m1)
           | Inr rc \<Rightarrow>
               (case renew_listener b t dev var (m1\<lparr>outbox := outbox m1 @ [state_message tpc var v]\<rparr>) of
                  (Inl e, m2) \<Rightarrow> (Inl e, m2)
                | (Inr _, m2) \<Rightarrow> (Inr (rc = 0), m2))))"
  by (auto simp: mqtt_publish_def Let_def pym_simps client_publish_def split: sum.splits prod.splits)

lemma inv_mqtt_publish: "preserves mqtt_inv (mqtt_publish b t dev var v refresh)"
proof (rule preservesI)
  fix m assume m: "mqtt_inv m"
  let ?tpc = "state_topic m dev var"
  let ?first = "if discovery_due m t ?tpc refresh
    then bind (announce b t dev var) (\<lambda>_. modify (\<lambda>m. m\<lparr>sensors := (sensors m)(?tpc \<mapsto> mono t)\<rparr>)) m else (Inr (), m)"
  obtain r1 m1 where one: "?first = (r1, m1)" by (rule prod.exhaust)
  have inv1: "mqtt_inv m1 \<and> (\<not> isl r1 \<longrightarrow> list_ex (announces ?tpc) (outbox m1))"
  proof (cases "discovery_due m t ?tpc refresh")
    case True
    obtain r a where a: "announce b t dev var m = (r, a)" by (rule prod.exhaust)
    from inv_announce [OF m a] a one True show ?thesis
      by (cases r) (auto simp: pym_simps mqtt_inv_def split: if_splits)
  next
    case False
    with one m show ?thesis by (auto simp: discovery_due_def mqtt_inv_def split: option.splits)
  qed
  show "mqtt_inv (snd (mqtt_publish b t dev var v refresh m))"
  proof (cases r1)
    case (Inl e)
    with one inv1 show ?thesis by (simp add: mqtt_publish_steps Let_def)
  next
    case (Inr x)
    let ?m = "m1\<lparr>outbox := outbox m1 @ [state_message ?tpc var v]\<rparr>"
    have inv2: "mqtt_inv ?m"
      using inv1 Inr by (intro mqtt_inv_state) (auto simp: state_message_def)
    obtain r2 m2 where two: "renew_listener b t dev var ?m = (r2, m2)" by (rule prod.exhaust)
    have "mqtt_inv m2"
      using renew_listener_runs [OF two] inv2 by (auto simp: mqtt_inv_def)
    with one Inr two inv1 show ?thesis
      by (cases r2) (auto simp: mqtt_publish_steps Let_def split: sum.split)
  qed
qed

lemma inv_mqtt_set_available: "preserves mqtt_inv (mqtt_set_available b dev online)"
  by (rule preservesI)
    (auto simp: mqtt_set_available_def client_publish_def pym_simps intro: mqtt_inv_other split: sum.splits)

lemma inv_mqtt_set_alias: "preserves mqtt_inv (mqtt_set_alias dev name)"
  by (rule preservesI) (auto simp: mqtt_set_alias_def pym_simps mqtt_inv_def)

lemma inv_mqtt_on_message: "preserves mqtt_inv (mqtt_on_message tpc payload)"
  unfolding mqtt_on_message_def on_message_body_def Let_def
  by (auto intro!: preserves_try preserves_bind preserves_ret preserves_throw preserves_lift preserves_block
      preserves_modify split: option.split simp: mqtt_inv_def)

lemma inv_mqtt_on_connect: "preserves mqtt_inv (mqtt_on_connect b)"
proof (rule preservesI)
  fix m assume m: "mqtt_inv m"
  have "preserves mqtt_inv (client_subscribe b t)" for t
    by (rule preservesI) (auto simp: client_subscribe_def mqtt_inv_def split: sum.splits)
  then have "preserves mqtt_inv (block (map (\<lambda>t. try_except (client_subscribe b t) (\<lambda>_. ret ())) ts))" for ts
    by (intro preserves_block) (auto intro!: preserves_try preserves_ret)
  from preservesD [OF this m] show "mqtt_inv (snd (mqtt_on_connect b m))"
    by (simp add: mqtt_on_connect_def)
qed

lemma mqtt_inv_new: "mqtt_inv (new_mqtt pfx types)"
  by (simp add: mqtt_inv_def new_mqtt_def)

lemma mqtt_inv_do: "mqtt_inv m \<Longrightarrow> mqtt_inv (mqtt_do b c m)"
  by (cases c) (auto intro: preservesD [OF inv_mqtt_publish] preservesD [OF inv_mqtt_set_available]
      preservesD [OF inv_mqtt_set_alias] preservesD [OF inv_mqtt_on_message] preservesD [OF inv_mqtt_on_connect])

lemma mqtt_inv_run: "mqtt_inv m \<Longrightarrow> mqtt_inv (mqtt_run b cs m)"
  by (induction cs arbitrary: m) (auto simp: mqtt_run_def mqtt_inv_do)

lemma well_announced_nth:
  "well_announced past xs \<Longrightarrow> i < length xs \<Longrightarrow> is_state (xs ! i) \<Longrightarrow>
   \<exists>c \<in> set (past @ take i xs). announces (topic (xs ! i)) c"
proof (induction xs arbitrary: past i)
  case (Cons x xs)
  show ?case
  proof (cases i)
    case 0
    with Cons.prems show ?thesis by (auto simp: list_ex_iff)
  next
    case (Suc k)
    with Cons.prems Cons.IH [of "past @ [x]" k] show ?thesis by auto
  qed
qed simp


definition quiet_broker :: broker where
  "quiet_broker = \<lparr>pub_rc = (\<lambda>_ _. Inr 0), sub_result = (\<lambda>_ _. Inr ())\<rparr>"



subsection \<open>Commands reach the program\<close>

lemma resubscribes:
  "\<exists>ss. subscriptions (snd (block (map (\<lambda>t. try_except (client_subscribe b t) (\<lambda>_. ret ())) ts) m)) = subscriptions m @ ss \<and>
     fst (block (map (\<lambda>t. try_except (client_subscribe b t) (\<lambda>_. ret ())) ts) m) = Inr () \<and>
     (\<forall>t \<in> set ts. (\<forall>past. sub_result b past t = Inr ()) \<longrightarrow> t \<in> set ss) \<and> set ss \<subseteq> set ts"
proof (induction ts arbitrary: m)
  case Nil
  show ?case by (simp add: pym_simps)
next
  case (Cons t ts)
  let ?one = "\<lambda>t. try_except (client_subscribe b t) (\<lambda>_. ret ())"
  show ?case
  proof (cases "sub_result b (subscriptions m) t")
    case (Inl e)
    then have run: "block (map ?one (t # ts)) m = block (map ?one ts) m"
      by (simp add: client_subscribe_def pym_simps)
    obtain ss where "subscriptions (snd (block (map ?one ts) m)) = subscriptions m @ ss"
      "fst (block (map ?one ts) m) = Inr ()"
      "\<forall>t \<in> set ts. (\<forall>past. sub_result b past t = Inr ()) \<longrightarrow> t \<in> set ss" "set ss \<subseteq> set ts"
      using Cons.IH [of m] by blast
    moreover have "\<not> (\<forall>past. sub_result b past t = Inr ())" using Inl by (metis Inl_Inr_False)
    ultimately show ?thesis unfolding run by (intro exI [of _ ss]) auto
  next
    case (Inr u)
    let ?m = "m\<lparr>subscriptions := subscriptions m @ [t]\<rparr>"
    have run: "block (map ?one (t # ts)) m = block (map ?one ts) ?m"
      using Inr by (simp add: client_subscribe_def pym_simps)
    obtain ss where "subscriptions (snd (block (map ?one ts) ?m)) = subscriptions ?m @ ss"
      "fst (block (map ?one ts) ?m) = Inr ()"
      "\<forall>t \<in> set ts. (\<forall>past. sub_result b past t = Inr ()) \<longrightarrow> t \<in> set ss" "set ss \<subseteq> set ts"
      using Cons.IH [of ?m] by blast
    then show ?thesis unfolding run by (intro exI [of _ "t # ss"]) auto
  qed
qed

text \<open>
  C27: switches survive a reconnect. After any history, \<open>on_connect\<close> does not raise and
  subscribes again to the command topic of every switch that was ever announced, except
  where the client refuses that very topic; and it subscribes to command topics only.
\<close>

theorem commands_survive_reconnect:
  assumes "m = mqtt_run b cs (new_mqtt pfx types)"
  shows "\<exists>ss. mqtt_on_connect b m = (Inr (), snd (mqtt_on_connect b m)) \<and>
    subscriptions (snd (mqtt_on_connect b m)) = subscriptions m @ ss \<and> set ss \<subseteq> set (command_topics m) \<and>
    (\<forall>c \<in> set (outbox m). \<forall>t. commands t c \<and> (\<forall>past. sub_result b past t = Inr ()) \<longrightarrow> t \<in> set ss)"
proof -
  have inv: "mqtt_inv m" using mqtt_inv_run [OF mqtt_inv_new] assms by simp
  obtain ss where ss: "subscriptions (snd (mqtt_on_connect b m)) = subscriptions m @ ss"
    "fst (mqtt_on_connect b m) = Inr ()" "set ss \<subseteq> set (command_topics m)"
    "\<forall>t \<in> set (command_topics m). (\<forall>past. sub_result b past t = Inr ()) \<longrightarrow> t \<in> set ss"
    using resubscribes [of b "command_topics m" m] unfolding mqtt_on_connect_def by blast
  then have "mqtt_on_connect b m = (Inr (), snd (mqtt_on_connect b m))" by (simp add: prod_eq_iff)
  with ss inv show ?thesis by (intro exI [of _ ss]) (auto simp: mqtt_inv_def)
qed

definition switched :: mqtt where
  "switched = mqtt_run quiet_broker
     [Publish \<lparr>mono = 5, wall = 1000\<rparr> ''regulator'' ''power_switch'' (PNum (PInt 1)) False] (new_mqtt None Map.empty)"

theorem commands_survive_reconnect_witness:
  "\<exists>ss. subscriptions (snd (mqtt_on_connect quiet_broker switched)) = subscriptions switched @ ss \<and>
     ''solar-monitor/regulator/power_switch/set'' \<in> set ss"
proof -
  let ?t = "''solar-monitor/regulator/power_switch/set''"
  have "\<exists>c \<in> set (outbox switched). commands ?t c"
    by (simp add: switched_def mqtt_run_def mqtt_publish_steps Let_def discovery_due_def new_mqtt_def announce_def
        is_switch_def create_switch_def create_listener_def client_publish_def client_subscribe_def
        quiet_broker_def pym_simps renew_listener_def set_topic_def state_topic_def slash_prefix_def ends_with_def
        commands_configs)
  moreover have "sub_result quiet_broker past ?t = Inr ()" for past by (simp add: quiet_broker_def)
  ultimately show ?thesis
    using commands_survive_reconnect [OF switched_def] by blast
qed

lemma parts_of_set_topic:
  assumes "CHR ''/'' \<notin> set dev" and "CHR ''/'' \<notin> set var"
  shows "split_on CHR ''/'' (p @ ''/'' @ dev @ ''/'' @ var @ ''/set'') = split_on CHR ''/'' p @ [dev, var, ''set'']"
  using assms by (simp add: split_on_append_sep [of _ p] split_on_append_sep [of _ dev] split_on_append_sep [of _ var])

text \<open>
  C28: a command published on the topic the switch was announced with arrives as that
  device's, for that variable, whatever the prefix: also one with slashes of its own.
\<close>

theorem command_routed:
  assumes "CHR ''/'' \<notin> set dev" and "CHR ''/'' \<notin> set var" and "mprefix m = p @ ''/''"
  shows "mqtt_on_message (set_topic m dev var) (Some text) m =
    (Inr (), m\<lparr>command_sets := (command_sets m)(dev \<mapsto>
        (case command_sets m dev of None \<Rightarrow> [] | Some xs \<Rightarrow> xs) @ [(var, text)]),
      woken := (woken m \<or> dev \<in> set (triggers m))\<rparr>)"
proof -
  let ?ps = "split_on CHR ''/'' p @ [dev, var, ''set'']"
  have parts: "split_on CHR ''/'' (set_topic m dev var) = ?ps"
    using parts_of_set_topic [OF assms(1,2), of p] assms(3) by (simp add: set_topic_def)
  have "py_get ?ps (- 3) = Inr dev" "py_get ?ps (- 2) = Inr var" "4 \<le> length ?ps"
  proof -
    obtain q qs where q: "split_on CHR ''/'' p = q # qs" by (cases "split_on CHR ''/'' p") simp_all
    show "py_get ?ps (- 3) = Inr dev" "py_get ?ps (- 2) = Inr var" "4 \<le> length ?ps"
      by (simp_all add: q py_get_def nth_append nat_add_distrib)
  qed
  then show ?thesis
    by (simp add: mqtt_on_message_def on_message_body_def parts Let_def pym_simps)
qed

theorem command_routed_witness:
  "command_sets (snd (mqtt_on_message ''home/solar/regulator/power_switch/set'' (Some ''0'')
     (new_mqtt (Some ''home/solar'') Map.empty))) ''regulator'' = Some [(''power_switch'', ''0'')]"
proof -
  let ?m = "new_mqtt (Some ''home/solar'') Map.empty"
  have "mprefix ?m = ''home/solar'' @ ''/''"
    by (simp add: new_mqtt_def slash_prefix_def ends_with_def)
  from command_routed [OF _ _ this, of "''regulator''" "''power_switch''" "''0''"] this show ?thesis
    by (simp add: set_topic_def) (simp add: new_mqtt_def)
qed


subsection \<open>Where it fails\<close>

text \<open>
  a switch whose first subscription raised never recovers: that publication and every
  later one, whatever the client does by then, hands its value to the client and then raises,
  so the datalogger never counts a value of it as sent.
\<close>

theorem switch_never_recovers:
  assumes "is_switch var" and "sensors m (state_topic m dev var) = None" and "listener_created m (dev, var) = None"
    and "\<And>past msg. pub_rc b past msg = Inr 0" and "\<And>past. sub_result b past (set_topic m dev var) = Inl e"
    and "\<And>past msg. pub_rc b' past msg = Inr rc"
  shows "\<exists>m1. mqtt_publish b t dev var v refresh m = (Inl KeyError, m1) \<and>
    mqtt_publish b' t' dev var v' False m1 =
      (Inl KeyError, m1\<lparr>outbox := outbox m1 @ [state_message (state_topic m dev var) var v']\<rparr>)"
proof -
  let ?tpc = "state_topic m dev var"
  let ?c = "config_message (ha_topic ''switch'' dev var) (switch_config m dev var)"
  let ?m1 = "m\<lparr>outbox := outbox m @ [?c, state_message ?tpc var v],
      command_topics := List.insert (set_topic m dev var) (command_topics m),
      command_sets := (case command_sets m dev of None \<Rightarrow> (command_sets m)(dev \<mapsto> []) | Some _ \<Rightarrow> command_sets m),
      sensors := (sensors m)(?tpc \<mapsto> mono t)\<rparr>"
  have set_eq: "set_topic (m\<lparr>outbox := ob\<rparr>) dev var = set_topic m dev var"
    "set_topic (m\<lparr>outbox := ob, command_topics := ts\<rparr>) dev var = set_topic m dev var" for ob ts
    by (simp_all add: set_topic_def)
  have "mqtt_publish b t dev var v refresh m = (Inl KeyError, ?m1)"
    using assms(1-5)
    by (simp add: mqtt_publish_steps Let_def discovery_due_def announce_def create_switch_def create_listener_def
        client_publish_def client_subscribe_def pym_simps renew_listener_def set_eq split: option.split)
  moreover have "state_topic ?m1 dev var = ?tpc" by (simp add: state_topic_def)
  then have "mqtt_publish b' t' dev var v' False ?m1 =
      (Inl KeyError, ?m1\<lparr>outbox := outbox ?m1 @ [state_message ?tpc var v']\<rparr>)"
    using assms(1,3,6)
    by (simp add: mqtt_publish_steps Let_def discovery_due_def pym_simps renew_listener_def)
  ultimately show ?thesis by blast
qed

theorem switch_never_recovers_witness:
  "\<exists>m1. mqtt_publish (quiet_broker\<lparr>sub_result := (\<lambda>_ _. Inl ValueError)\<rparr>) \<lparr>mono = 5, wall = 1000\<rparr>
       ''inverter_1'' ''power_switch'' (PNum (PInt 1)) False (new_mqtt None Map.empty) = (Inl KeyError, m1) \<and>
     fst (mqtt_publish quiet_broker \<lparr>mono = 9, wall = 1004\<rparr> ''inverter_1'' ''power_switch'' (PNum (PInt 0)) False m1) =
       Inl KeyError"
proof -
  let ?b = "quiet_broker\<lparr>sub_result := (\<lambda>_ _. Inl ValueError)\<rparr>" and ?m = "new_mqtt None Map.empty"
  obtain m1 where
    "mqtt_publish ?b \<lparr>mono = 5, wall = 1000\<rparr> ''inverter_1'' ''power_switch'' (PNum (PInt 1)) False ?m = (Inl KeyError, m1)"
    "mqtt_publish quiet_broker \<lparr>mono = 9, wall = 1004\<rparr> ''inverter_1'' ''power_switch'' (PNum (PInt 0)) False m1 =
      (Inl KeyError, m1\<lparr>outbox := outbox m1 @ [state_message (state_topic ?m ''inverter_1'' ''power_switch'') ''power_switch'' (PNum (PInt 0))]\<rparr>)"
    using switch_never_recovers [of "''power_switch''" ?m "''inverter_1''" ?b ValueError quiet_broker 0
        "\<lparr>mono = 5, wall = 1000\<rparr>" "PNum (PInt 1)" False "\<lparr>mono = 9, wall = 1004\<rparr>" "PNum (PInt 0)"]
    by (auto simp: is_switch_def new_mqtt_def quiet_broker_def)
  then show ?thesis by auto
qed

lemma never_enum:
  "list_all (\<lambda>(a, item). \<not> ends_with item ''_state'') published_items \<and> \<not> ends_with ''temperature'' ''_state'' \<and>
   \<not> ends_with ''battery_temperature'' ''_state'' \<and> \<not> ends_with (''cell_'' @ n @ ''_voltage'') ''_state''"
  by (simp add: published_items_def ends_with_def)

text \<open>
  a battery's \<open>cell_i_voltage\<close>, which is published in volts, is announced in millivolts.
\<close>

theorem cell_voltage_in_millivolts:
  "(contains dev ''battery'' \<longrightarrow>
     map_of (sensor_config m dev (''cell_'' @ n @ ''_voltage'')) ''unit_of_measurement'' = Some (JStr ''mV'')) \<and>
   (cell_voltages e = Inr cs \<longrightarrow> (i, w) \<in> set cs \<longrightarrow>
     (\<exists>ms v. cell_mvoltages e = Inr ms \<and> (i, v) \<in> set ms \<and> w = num_mul v (flit (1/1000))))"
proof (intro conjI impI)
  assume "contains dev ''battery''"
  then show "map_of (sensor_config m dev (''cell_'' @ n @ ''_voltage'')) ''unit_of_measurement'' = Some (JStr ''mV'')"
    using never_enum [of n] by (simp add: sensor_config_def sensor_extras_def)
next
  assume "cell_voltages e = Inr cs" and "(i, w) \<in> set cs"
  then show "\<exists>ms v. cell_mvoltages e = Inr ms \<and> (i, v) \<in> set ms \<and> w = num_mul v (flit (1/1000))"
    by (force simp: cell_voltages_def cell_mvoltages_def split: if_splits)
qed

theorem cell_voltage_in_millivolts_witness:
  "map_of (sensor_config (new_mqtt None Map.empty) ''battery_1'' ''cell_1_voltage'') ''unit_of_measurement'' = Some (JStr ''mV'')"
  using cell_voltage_in_millivolts [of "''battery_1''" "new_mqtt None Map.empty" "''1''"] by simp

end
