(* ===== verification/Datalogger.thy ===== *)
theory Datalogger
  imports Mqtt Registers
begin

section \<open>datalogger.py: DataLogger\<close>

text \<open>
  The cache of what was sent, in front of its two sinks: MQTT (theory \<open>Mqtt\<close>) and an HTTP
  endpoint. \<open>requests.post\<close> is the argument \<open>post_reply\<close>, a function of the posts before it.
  The nested dictionary \<open>logdata\<close> is a map from device and variable to the time and the value
  sent last. Times are in seconds; a call of \<open>log\<close> reads the clock at its start, when it
  checks the age of the cache, and inside \<open>publish\<close>. The configuration is the list of its
  sections, without defaults and interpolation. The theorems: the cache holds what was
  delivered last, an undelivered value is sent again, an unchanged one is not sent before
  the refresh interval is over, and behind the consumer loop the broker ends up with the
  newest value of every variable.
\<close>

subsection \<open>The state and its sinks\<close>

record post =
  post_url :: string
  post_auth :: "string option"
  post_device :: string
  post_var :: string
  post_val :: pyval

text \<open>A status code, a \<open>RequestException\<close>, or any other exception.\<close>

datatype post_result = Status int | Unreachable | PostRaises py_error

record sinks =
  mqtt_broker :: broker
  post_reply :: "post list \<Rightarrow> post \<Rightarrow> post_result"

record clock =
  started :: rat
  checked :: rat
  published :: instant

record datalogger =
  dl_url :: "string option"
  dl_token :: "string option"
  refresh_interval :: int
  dl_mqtt :: "mqtt option"
  logdata :: "string \<times> string \<rightharpoonup> rat \<times> pyval"
  posts :: "post list"

definition on_mqtt :: "(mqtt, 'a) pym \<Rightarrow> 'a \<Rightarrow> (datalogger, 'a) pym" where
  "on_mqtt f dflt = (\<lambda>l.
     case dl_mqtt l of
       None \<Rightarrow> (Inr dflt, l)
     | Some m \<Rightarrow> (case f m of (r, m') \<Rightarrow> (r, l\<lparr>dl_mqtt := Some m'\<rparr>)))"

subsection \<open>Construction\<close>

type_synonym config = "(string \<times> (string \<times> string) list) list"

text \<open>\<open>config.get(section, option, fallback=None)\<close> and \<open>config.getint\<close>\<close>

definition cfg_get :: "config \<Rightarrow> string \<Rightarrow> string \<Rightarrow> string option" where
  "cfg_get cfg section option =
     (case map_of cfg section of None \<Rightarrow> None | Some opts \<Rightarrow> map_of opts option)"

definition cfg_int :: "config \<Rightarrow> string \<Rightarrow> string \<Rightarrow> int \<Rightarrow> py_error + int" where
  "cfg_int cfg section option dflt =
     (case cfg_get cfg section option of
        None \<Rightarrow> Inr dflt
      | Some s \<Rightarrow> (case py_int s of None \<Rightarrow> Inl ValueError | Some n \<Rightarrow> Inr n))"

text \<open>What the client is connected with; \<open>connect\<close> may raise.\<close>

record mqtt_settings =
  host :: string
  port :: int
  credentials :: "(string \<times> string) option"
  client_id :: string

definition device_type_map :: "config \<Rightarrow> string \<rightharpoonup> string" where
  "device_type_map cfg section =
     (if truthy (cfg_get cfg section ''mac'') = None then None else truthy (cfg_get cfg section ''type''))"

definition settings_of :: "config \<Rightarrow> string \<Rightarrow> string \<Rightarrow> int \<Rightarrow> mqtt_settings" where
  "settings_of cfg gethostname broker_host port_number =
     \<lparr>host = broker_host, port = port_number,
      credentials = (case truthy (cfg_get cfg ''mqtt'' ''username'') of
          None \<Rightarrow> None
        | Some u \<Rightarrow> (case truthy (cfg_get cfg ''mqtt'' ''password'') of None \<Rightarrow> None | Some p \<Rightarrow> Some (u, p))),
      client_id = ''solar-monitor-'' @
        (case truthy (cfg_get cfg ''mqtt'' ''hostname'') of None \<Rightarrow> gethostname | Some h \<Rightarrow> h)\<rparr>"

definition connect_mqtt :: "(mqtt_settings \<Rightarrow> py_error + unit) \<Rightarrow> string \<Rightarrow> config \<Rightarrow> py_error + mqtt option" where
  "connect_mqtt connect gethostname cfg =
     (case truthy (cfg_get cfg ''mqtt'' ''broker'') of
        None \<Rightarrow> Inr None
      | Some broker_host \<Rightarrow>
          (case cfg_int cfg ''mqtt'' ''port'' 1883 of
             Inl e \<Rightarrow> Inl e
           | Inr port_number \<Rightarrow>
               (case connect (settings_of cfg gethostname broker_host port_number) of
                  Inl e \<Rightarrow> Inl e
                | Inr _ \<Rightarrow> Inr (Some (new_mqtt (cfg_get cfg ''mqtt'' ''prefix'') (device_type_map cfg))))))"

definition new_datalogger :: "(mqtt_settings \<Rightarrow> py_error + unit) \<Rightarrow> string \<Rightarrow> config \<Rightarrow> py_error + datalogger" where
  "new_datalogger connect gethostname cfg =
     (case cfg_int cfg ''datalogger'' ''refresh'' 10 of
        Inl e \<Rightarrow> Inl e
      | Inr refresh \<Rightarrow>
          (let url = truthy (cfg_get cfg ''datalogger'' ''url'') in
           case connect_mqtt connect gethostname cfg of
             Inl e \<Rightarrow> Inl e
           | Inr m \<Rightarrow> Inr
               \<lparr>dl_url = url, dl_token = (if url = None then None else cfg_get cfg ''datalogger'' ''token''),
                refresh_interval = refresh, dl_mqtt = m, logdata = Map.empty, posts = []\<rparr>))"

definition dl_set_alias :: "string \<Rightarrow> string \<Rightarrow> (datalogger, unit) pym" where
  "dl_set_alias dev name = on_mqtt (mqtt_set_alias dev name) ()"

definition dl_set_available :: "sinks \<Rightarrow> string \<Rightarrow> bool \<Rightarrow> (datalogger, unit) pym" where
  "dl_set_available s dev online = on_mqtt (mqtt_set_available (mqtt_broker s) dev online) ()"

subsection \<open>Sending\<close>

definition post_value :: "sinks \<Rightarrow> string \<Rightarrow> string \<Rightarrow> pyval \<Rightarrow> (datalogger, bool) pym" where
  "post_value s dev var v = (\<lambda>l.
     case dl_url l of
       None \<Rightarrow> (Inr True, l)
     | Some url \<Rightarrow>
         (let p = \<lparr>post_url = url, post_auth = truthy (dl_token l), post_device = dev, post_var = var, post_val = v\<rparr>;
              l' = l\<lparr>posts := posts l @ [p]\<rparr>
          in case post_reply s (posts l) p of
               Status n \<Rightarrow> (Inr (n < 400), l')
             | Unreachable \<Rightarrow> (Inr False, l')
             | PostRaises e \<Rightarrow> (Inl e, l')))"

definition send_to_server :: "sinks \<Rightarrow> instant \<Rightarrow> string \<Rightarrow> string \<Rightarrow> pyval \<Rightarrow> bool \<Rightarrow> (datalogger, bool) pym" where
  "send_to_server s t dev var v refresh =
     bind (on_mqtt (mqtt_publish (mqtt_broker s) t dev var v refresh) True) (\<lambda>sent.
     bind (post_value s dev var v) (\<lambda>posted.
       ret (sent \<and> posted)))"

text \<open>What the cache says about a reading: send it as new, send it again, or leave it.\<close>

datatype decision = New | Refresh | Keep

definition decide :: "clock \<Rightarrow> int \<Rightarrow> rat \<times> pyval \<Rightarrow> pyval \<Rightarrow> decision" where
  "decide c interval entry v =
     (if \<not> py_eq (snd entry) v then New
      else if fst entry < checked c - of_int interval * 60 then Refresh
      else Keep)"

definition cached :: "clock \<Rightarrow> datalogger \<Rightarrow> string \<times> string \<Rightarrow> rat \<times> pyval" where
  "cached c l key = (case logdata l key of None \<Rightarrow> (started c, PNone) | Some entry \<Rightarrow> entry)"

definition remember :: "string \<times> string \<Rightarrow> rat \<times> pyval \<Rightarrow> datalogger \<Rightarrow> datalogger" where
  "remember key entry l = l\<lparr>logdata := (logdata l)(key \<mapsto> entry)\<rparr>"

definition dl_log :: "sinks \<Rightarrow> clock \<Rightarrow> sample \<Rightarrow> (datalogger, unit) pym" where
  "dl_log s c = (\<lambda>(device, var, v).
     let dev = strip device; key = (dev, var) in
     bind (modify (\<lambda>l. remember key (cached c l key) l)) (\<lambda>_.
     bind (gets (\<lambda>l. decide c (refresh_interval l) (cached c l key) v)) (\<lambda>d.
       if d = Keep then ret ()
       else
         bind (send_to_server s (published c) dev var v (d = Refresh)) (\<lambda>delivered.
           whenp delivered (modify (remember key (started c, v)))))))"

subsection \<open>The cache holds what was delivered last\<close>

datatype outcome = Skipped | Delivered | Undelivered | Raised

definition log_outcome :: "sinks \<Rightarrow> clock \<Rightarrow> sample \<Rightarrow> datalogger \<Rightarrow> outcome" where
  "log_outcome s c = (\<lambda>(device, var, v) l.
     let key = (strip device, var); d = decide c (refresh_interval l) (cached c l key) v in
     if d = Keep then Skipped
     else case fst (send_to_server s (published c) (strip device) var v (d = Refresh) (remember key (cached c l key) l)) of
            Inl _ \<Rightarrow> Raised
          | Inr ok \<Rightarrow> if ok then Delivered else Undelivered)"

lemma on_mqtt_frame:
  "on_mqtt f dflt l = (r, l') \<Longrightarrow> logdata l' = logdata l \<and> refresh_interval l' = refresh_interval l \<and>
     dl_url l' = dl_url l \<and> posts l' = posts l"
  by (auto simp: on_mqtt_def split: option.splits prod.splits)

lemma post_value_frame:
  "post_value s dev var v l = (r, l') \<Longrightarrow> logdata l' = logdata l \<and> refresh_interval l' = refresh_interval l \<and>
     dl_url l' = dl_url l \<and> dl_mqtt l' = dl_mqtt l"
  by (auto simp: post_value_def Let_def split: option.splits post_result.splits)

lemma send_frame:
  assumes "send_to_server s t dev var v refresh l = (r, l')"
  shows "logdata l' = logdata l \<and> refresh_interval l' = refresh_interval l \<and> dl_url l' = dl_url l"
proof -
  obtain r1 l1 where one: "on_mqtt (mqtt_publish (mqtt_broker s) t dev var v refresh) True l = (r1, l1)"
    by (rule prod.exhaust)
  obtain r2 l2 where two: "post_value s dev var v l1 = (r2, l2)" by (rule prod.exhaust)
  have "l' = l1 \<or> l' = l2"
    using assms one two by (cases r1; cases r2) (auto simp: send_to_server_def pym_simps)
  with on_mqtt_frame [OF one] post_value_frame [OF two] show ?thesis by auto
qed

text \<open>One call of \<open>log\<close>: the cache changes with a delivery and with nothing else.\<close>

lemma dl_log_runs:
  assumes "dl_log s c (device, var, v) l = (r, l')"
  defines "key \<equiv> (strip device, var)"
  shows "logdata l' = (logdata l)(key \<mapsto>
      (if log_outcome s c (device, var, v) l = Delivered then (started c, v) else cached c l key)) \<and>
    refresh_interval l' = refresh_interval l \<and> dl_url l' = dl_url l \<and>
    (isl r \<longleftrightarrow> log_outcome s c (device, var, v) l = Raised)"
proof -
  let ?l = "remember key (cached c l key) l"
  let ?d = "decide c (refresh_interval l) (cached c l key) v"
  have cached: "cached c ?l key = cached c l key" "refresh_interval ?l = refresh_interval l"
    by (auto simp: cached_def remember_def split: option.split)
  show ?thesis
  proof (cases "?d = Keep")
    case True
    with assms cached show ?thesis
      by (auto simp: dl_log_def Let_def pym_simps log_outcome_def remember_def)
  next
    case False
    obtain r1 l1 where send: "send_to_server s (published c) (strip device) var v (?d = Refresh) ?l = (r1, l1)"
      by (rule prod.exhaust)
    from send_frame [OF send] have f: "logdata l1 = logdata ?l" "refresh_interval l1 = refresh_interval l" "dl_url l1 = dl_url l"
      by (simp_all add: remember_def)
    from False send f assms cached show ?thesis
      by (cases r1) (auto simp: dl_log_def Let_def pym_simps log_outcome_def remember_def)
  qed
qed

fun log_trace :: "sinks \<Rightarrow> (clock \<times> sample) list \<Rightarrow> datalogger \<Rightarrow> (sample \<times> outcome) list \<times> datalogger" where
  "log_trace s [] l = ([], l)"
| "log_trace s ((c, it) # es) l =
     (let (tr, l') = log_trace s es (snd (dl_log s c it l)) in ((it, log_outcome s c it l) # tr, l'))"

text \<open>The specification: of all the deliveries of a variable, the last one counts.\<close>

fun last_delivered :: "string \<times> string \<Rightarrow> (sample \<times> outcome) list \<Rightarrow> pyval \<Rightarrow> pyval" where
  "last_delivered key [] w = w"
| "last_delivered key (((device, var, v), r) # tr) w =
     last_delivered key tr (if (strip device, var) = key \<and> r = Delivered then v else w)"

definition cached_value :: "datalogger \<Rightarrow> string \<times> string \<Rightarrow> pyval" where
  "cached_value l key = (case logdata l key of None \<Rightarrow> PNone | Some (_, v) \<Rightarrow> v)"

lemma cached_value_log:
  "cached_value (snd (dl_log s c (device, var, v) l)) key =
     (if (strip device, var) = key \<and> log_outcome s c (device, var, v) l = Delivered then v else cached_value l key)"
proof -
  obtain r l' where run: "dl_log s c (device, var, v) l = (r, l')" by (rule prod.exhaust)
  from dl_log_runs [OF run] run show ?thesis
    by (auto simp: cached_value_def cached_def split: option.split)
qed

text \<open>
  C4: the cache refines the history of deliveries: whatever the sinks answer and raise, after
  any sequence of readings the value cached for a variable is the one delivered last, and
  \<open>None\<close> while there is none; a value that was sent but not delivered is never remembered.
\<close>

theorem cache_is_last_delivered:
  "cached_value (snd (log_trace s es l)) key = last_delivered key (fst (log_trace s es l)) (cached_value l key)"
proof (induction es arbitrary: l)
  case (Cons e es)
  obtain c device var v where e: "e = (c, device, var, v)" by (metis prod.exhaust)
  have "snd (log_trace s (e # es) l) = snd (log_trace s es (snd (dl_log s c (device, var, v) l)))"
    "fst (log_trace s (e # es) l) = ((device, var, v), log_outcome s c (device, var, v) l) #
       fst (log_trace s es (snd (dl_log s c (device, var, v) l)))"
    by (simp_all add: e Let_def split: prod.split)
  with Cons.IH [of "snd (dl_log s c (device, var, v) l)"] show ?case
    by (simp add: cached_value_log)
qed simp

lemma decide_keep: "decide c n e v = Keep \<longleftrightarrow> py_eq (snd e) v \<and> \<not> fst e < checked c - of_int n * 60"
  by (simp add: decide_def)

lemma log_outcome_skipped:
  "log_outcome s c (device, var, v) l = Skipped \<longleftrightarrow>
     decide c (refresh_interval l) (cached c l (strip device, var)) v = Keep"
  by (auto simp: log_outcome_def Let_def split: sum.split if_splits)

text \<open>
  a reading that was not delivered, because a sink refused it or raised, is not lost:
  the next reading with the same value is sent again, however soon it comes.
\<close>

theorem undelivered_is_resent:
  assumes "log_outcome s c (device, var, v) l \<in> {Undelivered, Raised}" and "py_eq v w" and "checked c \<le> checked c'"
  shows "log_outcome s' c' (device, var, w) (snd (dl_log s c (device, var, v) l)) \<noteq> Skipped"
proof -
  let ?key = "(strip device, var)"
  obtain r l' where run: "dl_log s c (device, var, v) l = (r, l')" by (rule prod.exhaust)
  from dl_log_runs [OF run] assms(1) have l': "cached c' l' ?key = cached c l ?key" "refresh_interval l' = refresh_interval l"
    by (auto simp: cached_def split: option.split)
  have "decide c (refresh_interval l) (cached c l ?key) v \<noteq> Keep"
    using assms(1) log_outcome_skipped [of s c device var v l] by auto
  then have "decide c' (refresh_interval l) (cached c l ?key) w \<noteq> Keep"
    using assms(2,3) py_eq_trans [of "snd (cached c l ?key)" w v] py_eq_sym [of v w]
    by (auto simp: decide_keep)
  with run l' show ?thesis by (simp add: log_outcome_skipped)
qed

text \<open>
  a value that does not change is not repeated: until the refresh interval is over, a
  reading equal to the one delivered last changes nothing at all, neither at the broker, nor
  at the endpoint, nor in the cache.
\<close>

theorem unchanged_is_quiet:
  assumes "logdata l (strip device, var) = Some (t, v)" and "py_eq v w"
    and "checked c \<le> t + of_int (refresh_interval l) * 60"
  shows "dl_log s c (device, var, w) l = (Inr (), l)"
proof -
  have entry: "cached c l (strip device, var) = (t, v)" using assms(1) by (simp add: cached_def)
  have same: "remember (strip device, var) (t, v) l = l"
    using assms(1) by (simp add: remember_def fun_upd_idem)
  from assms(2,3) have "decide c (refresh_interval l) (t, v) w = Keep" by (simp add: decide_keep)
  with entry same show ?thesis by (simp add: dl_log_def Let_def pym_simps)
qed


definition plain_logger :: "int \<Rightarrow> datalogger" where
  "plain_logger refresh = \<lparr>dl_url = Some ''http://host/ingest'', dl_token = None, refresh_interval = refresh,
     dl_mqtt = None, logdata = Map.empty, posts = []\<rparr>"

definition noon :: clock where
  "noon = \<lparr>started = 43200, checked = 43200, published = \<lparr>mono = 0, wall = 43200\<rparr>\<rparr>"

theorem undelivered_is_resent_witness:
  "log_outcome \<lparr>mqtt_broker = quiet_broker, post_reply = (\<lambda>_ _. Status 200)\<rparr> noon (''battery_1'', ''soc'', PNum (PFloat 87))
     (snd (dl_log \<lparr>mqtt_broker = quiet_broker, post_reply = (\<lambda>_ _. Status 503)\<rparr> noon (''battery_1'', ''soc'', PNum (PInt 87))
       (plain_logger 10))) \<noteq> Skipped"
proof -
  have "log_outcome \<lparr>mqtt_broker = quiet_broker, post_reply = (\<lambda>_ _. Status 503)\<rparr> noon
      (''battery_1'', ''soc'', PNum (PInt 87)) (plain_logger 10) = Undelivered"
    by (simp add: log_outcome_def Let_def decide_def cached_def plain_logger_def remember_def send_to_server_def
        on_mqtt_def post_value_def pym_simps)
  then show ?thesis
    using undelivered_is_resent [of "\<lparr>mqtt_broker = quiet_broker, post_reply = (\<lambda>_ _. Status 503)\<rparr>" noon "''battery_1''" "''soc''"
        "PNum (PInt 87)" "plain_logger 10" "PNum (PFloat 87)" noon]
    by (simp add: num_eq_def)
qed

theorem unchanged_is_quiet_witness:
  "dl_log \<lparr>mqtt_broker = quiet_broker, post_reply = (\<lambda>_ _. Status 200)\<rparr> noon ('' battery_1'', ''soc'', PNum (PFloat 87))
     ((plain_logger 10)\<lparr>logdata := [(''battery_1'', ''soc'') \<mapsto> (42600, PNum (PInt 87))]\<rparr>) =
   (Inr (), (plain_logger 10)\<lparr>logdata := [(''battery_1'', ''soc'') \<mapsto> (42600, PNum (PInt 87))]\<rparr>)"
proof -
  have "strip '' battery_1'' = ''battery_1''" by code_simp
  then show ?thesis
    using unchanged_is_quiet [of "(plain_logger 10)\<lparr>logdata := [(''battery_1'', ''soc'') \<mapsto> (42600, PNum (PInt 87))]\<rparr>"
        "'' battery_1''" "''soc''" 42600 "PNum (PInt 87)" "PNum (PFloat 87)" noon]
    by (simp add: num_eq_def noon_def plain_logger_def)
qed

subsection \<open>The datalogger behind the consumer loop\<close>

text \<open>
  The consumer calls \<open>log\<close> and \<open>LivenessTracker.record\<close> at times of its own: the sink of the
  loop is the datalogger, the number of calls so far, and the tracker; \<open>called_at\<close> and
  \<open>seen_at\<close> tell when each call happens.
\<close>

type_synonym logging = "datalogger \<times> nat \<times> tracker"

definition consume :: "sinks \<Rightarrow> (nat \<Rightarrow> clock) \<Rightarrow> sample \<Rightarrow> (logging, unit) pym" where
  "consume s called_at it = (\<lambda>(l, n, tr). case dl_log s (called_at n) it l of (r, l') \<Rightarrow> (r, (l', Suc n, tr)))"

definition report :: "(nat \<Rightarrow> rat) \<Rightarrow> string \<Rightarrow> (logging, unit) pym" where
  "report seen_at name = modify (\<lambda>(l, n, tr). (l, n, record_time name (seen_at n) tr))"

definition datalogger_inv :: "logging \<Rightarrow> bool" where
  "datalogger_inv = (\<lambda>(l, n, tr). \<forall>m. dl_mqtt l = Some m \<longrightarrow> mqtt_inv m)"

definition mqtt_ok :: "datalogger \<Rightarrow> bool" where
  "mqtt_ok l \<longleftrightarrow> (\<forall>m. dl_mqtt l = Some m \<longrightarrow> mqtt_inv m)"

lemma mqtt_ok_on_mqtt: "preserves mqtt_inv f \<Longrightarrow> preserves mqtt_ok (on_mqtt f dflt)"
  by (rule preservesI) (auto simp: mqtt_ok_def on_mqtt_def split: option.splits prod.splits dest: preservesD2)

lemma mqtt_ok_send: "preserves mqtt_ok (send_to_server s t dev var v refresh)"
proof -
  have "preserves mqtt_ok (post_value s dev var v)"
    by (rule preservesI) (auto simp: mqtt_ok_def post_value_def Let_def split: option.splits post_result.splits)
  then show ?thesis
    unfolding send_to_server_def
    by (intro preserves_bind mqtt_ok_on_mqtt inv_mqtt_publish preserves_ret)
qed

lemma mqtt_ok_log: "preserves mqtt_ok (dl_log s c it)"
proof -
  have r: "preserves mqtt_ok (modify (remember key e))" for key e
    by (rule preserves_modify) (simp add: mqtt_ok_def remember_def)
  have "preserves mqtt_ok (modify (\<lambda>l. remember key (cached c l key) l))" for key
    by (rule preserves_modify) (simp add: mqtt_ok_def remember_def)
  with r show ?thesis
    unfolding dl_log_def Let_def
    by (cases it) (auto intro!: preserves_bind preserves_gets preserves_ret preserves_whenp mqtt_ok_send)
qed

interpretation dl: log_sink "consume s called_at" datalogger_inv for s called_at
proof unfold_locales
  fix it
  show "preserves datalogger_inv (consume s called_at it)"
  proof (rule preservesI)
    fix ln assume ln: "datalogger_inv ln"
    obtain l n tr where p: "ln = (l, n, tr)" by (rule prod_cases3)
    obtain r l' where run: "dl_log s (called_at n) it l = (r, l')" by (rule prod.exhaust)
    have "mqtt_ok l" using ln p by (simp add: datalogger_inv_def mqtt_ok_def)
    then have "mqtt_ok l'" using run by (rule preservesD2 [OF mqtt_ok_log])
    with p run show "datalogger_inv (snd (consume s called_at it ln))"
      by (simp add: consume_def datalogger_inv_def mqtt_ok_def)
  qed
qed

text \<open>
  the loop over the datalogger keeps what Home Assistant relies on: however the
  notifications interleave with the passes and whatever raises, every value at the broker
  stands behind the config of its topic.
\<close>

theorem pipeline_announced:
  assumes "new_datalogger connect gethostname cfg = Inr l"
    and "dl_mqtt (fst (sink (run_logger (consume s called_at) (Some (report seen_at)) ps
        \<lparr>pending = q, sink = (l, 0, tr), last_report = t\<rparr>))) = Some m"
  shows "well_announced [] (outbox m)"
proof -
  let ?c = "\<lparr>pending = q, sink = (l, 0, tr), last_report = t\<rparr>"
  have "datalogger_inv (l, 0, tr)"
    using assms(1) mqtt_inv_new
    by (auto simp: new_datalogger_def connect_mqtt_def datalogger_inv_def Let_def split: sum.splits option.splits)
  moreover have "preserves datalogger_inv (report seen_at n)" for n
    unfolding report_def by (rule preserves_modify) (auto simp: datalogger_inv_def)
  ultimately have "datalogger_inv (sink (run_logger (consume s called_at) (Some (report seen_at)) ps ?c))"
    by (intro dl.consumer_keeps) auto
  with assms(2) show ?thesis
    by (cases "sink (run_logger (consume s called_at) (Some (report seen_at)) ps ?c)")
      (simp add: datalogger_inv_def mqtt_inv_def)
qed

subsection \<open>The broker ends up with the newest values\<close>

text \<open>A broker that takes everything keeps, for each topic, the last retained state.\<close>

definition accepting :: "broker \<Rightarrow> bool" where
  "accepting b \<longleftrightarrow> (\<forall>past msg. pub_rc b past msg = Inr 0) \<and> (\<forall>past t. sub_result b past t = Inr ())"

fun retained :: "string \<Rightarrow> message list \<Rightarrow> pyval option \<Rightarrow> pyval option" where
  "retained t [] w = w"
| "retained t (x # xs) w =
     retained t xs (case body x of Value v \<Rightarrow> if topic x = t \<and> retain x then Some v else w | _ \<Rightarrow> w)"

lemma retained_append: "retained t (xs @ ys) w = retained t ys (retained t xs w)"
  by (induction xs arbitrary: w) simp_all

definition plain :: "string \<Rightarrow> bool" where
  "plain s \<longleftrightarrow> CHR ''/'' \<notin> set s"

lemma state_topic_inj:
  assumes "plain dev" "plain var" "plain dev'" "plain var'" and "state_topic m dev var = state_topic m dev' var'"
  shows "dev = dev' \<and> var = var'"
proof -
  have parts: "split_on CHR ''/'' (d @ ''/'' @ v @ ''/state'') = [d, v, ''state'']" if "plain d" "plain v" for d v
    using that by (simp add: plain_def split_on_append_sep [of _ d] split_on_append_sep [of _ v])
  have "dev @ ''/'' @ var @ ''/state'' = dev' @ ''/'' @ var' @ ''/state''"
    using assms(5) by (simp add: state_topic_def)
  then have "[dev, var, ''state''] = [dev', var', ''state'']"
    using parts [OF assms(1,2)] parts [OF assms(3,4)] by metis
  then show ?thesis by simp
qed

text \<open>Every switch that counts as announced has a listener.\<close>

definition has_listeners :: "mqtt \<Rightarrow> bool" where
  "has_listeners m \<longleftrightarrow> (\<forall>dev var. plain dev \<longrightarrow> plain var \<longrightarrow> is_switch var \<longrightarrow>
     sensors m (state_topic m dev var) \<noteq> None \<longrightarrow> listener_created m (dev, var) \<noteq> None)"

lemma create_listener_accepted:
  assumes "accepting b"
  shows "\<exists>m'. create_listener b t dev var m = (Inr (), m') \<and> outbox m' = outbox m \<and> sensors m' = sensors m \<and>
     mprefix m' = mprefix m \<and> listener_created m' = (listener_created m)((dev, var) \<mapsto> wall t)"
  using assms
  by (auto simp: create_listener_def client_subscribe_def pym_simps accepting_def split: option.splits)

lemma announce_accepted:
  assumes "accepting b"
  shows "\<exists>m' c. announce b t dev var m = (Inr (), m') \<and> outbox m' = outbox m @ [c] \<and> \<not> is_state c \<and>
     sensors m' = sensors m \<and> mprefix m' = mprefix m \<and>
     (\<forall>k. listener_created m k \<noteq> None \<longrightarrow> listener_created m' k \<noteq> None) \<and>
     (is_switch var \<longrightarrow> listener_created m' (dev, var) \<noteq> None)"
proof (cases "is_switch var")
  case True
  let ?c = "config_message (ha_topic ''switch'' dev var) (switch_config m dev var)"
  obtain m2 where "create_listener b t dev var (m\<lparr>outbox := outbox m @ [?c]\<rparr>) = (Inr (), m2)"
    "outbox m2 = outbox m @ [?c]" "sensors m2 = sensors m" "mprefix m2 = mprefix m"
    "listener_created m2 = (listener_created m)((dev, var) \<mapsto> wall t)"
    using create_listener_accepted [OF assms, of t dev var "m\<lparr>outbox := outbox m @ [?c]\<rparr>"] by auto
  moreover have "\<not> is_state ?c" by (simp add: config_message_def)
  ultimately show ?thesis
    using True assms by (auto simp: announce_def create_switch_def client_publish_def pym_simps accepting_def)
next
  case False
  have "\<not> is_state (config_message t fs)" for t fs by (simp add: config_message_def)
  with False assms show ?thesis
    by (auto simp: announce_def create_sensor_def client_publish_def pym_simps accepting_def)
qed

lemma retained_config: "\<not> is_state c \<Longrightarrow> retained t [c] w = w"
  by (cases c) (auto split: body.split)

lemma retained_configs: "list_all (\<lambda>c. \<not> is_state c) cs \<Longrightarrow> retained t cs w = w"
proof (induction cs arbitrary: w)
  case (Cons c cs)
  then have "retained t [c] w = w" by (intro retained_config) simp
  with Cons show ?case by simp
qed simp

lemma renew_accepted:
  assumes "accepting b" and "is_switch var \<Longrightarrow> listener_created m (dev, var) \<noteq> None"
  shows "\<exists>m'. renew_listener b t dev var m = (Inr (), m') \<and> outbox m' = outbox m \<and> sensors m' = sensors m \<and>
     mprefix m' = mprefix m \<and> (\<forall>k. listener_created m k \<noteq> None \<longrightarrow> listener_created m' k \<noteq> None)"
  using create_listener_accepted [OF assms(1), of t dev var m] assms(2)
  by (cases "is_switch var"; cases "listener_created m (dev, var)") (auto simp: renew_listener_def pym_simps)

lemma publish_accepted:
  assumes b: "accepting b" and m: "has_listeners m" and p: "plain dev" "plain var"
  shows "\<exists>m'. mqtt_publish b t dev var v refresh m = (Inr True, m') \<and> has_listeners m' \<and> mprefix m' = mprefix m \<and>
    (\<forall>tpc. retained tpc (outbox m') None = (if tpc = state_topic m dev var then Some v else retained tpc (outbox m) None))"
proof -
  let ?tpc = "state_topic m dev var"
  let ?first = "if discovery_due m t ?tpc refresh
    then bind (announce b t dev var) (\<lambda>_. modify (\<lambda>m. m\<lparr>sensors := (sensors m)(?tpc \<mapsto> mono t)\<rparr>)) m else (Inr (), m)"
  obtain m1 cs where one: "?first = (Inr (), m1)" "outbox m1 = outbox m @ cs" "list_all (\<lambda>c. \<not> is_state c) cs"
    "mprefix m1 = mprefix m" "\<forall>k. listener_created m k \<noteq> None \<longrightarrow> listener_created m1 k \<noteq> None"
    "is_switch var \<longrightarrow> listener_created m1 (dev, var) \<noteq> None" "\<forall>tp. tp \<noteq> ?tpc \<longrightarrow> sensors m1 tp = sensors m tp"
  proof (cases "discovery_due m t ?tpc refresh")
    case True
    obtain a c where "announce b t dev var m = (Inr (), a)" "outbox a = outbox m @ [c]" "\<not> is_state c"
      "sensors a = sensors m" "mprefix a = mprefix m" "\<forall>k. listener_created m k \<noteq> None \<longrightarrow> listener_created a k \<noteq> None"
      "is_switch var \<longrightarrow> listener_created a (dev, var) \<noteq> None"
      using announce_accepted [OF b] by metis
    with True that [of "a\<lparr>sensors := (sensors a)(?tpc \<mapsto> mono t)\<rparr>" "[c]"] show ?thesis by (simp add: pym_simps)
  next
    case False
    then have "sensors m ?tpc \<noteq> None" by (auto simp: discovery_due_def split: option.splits)
    then have "is_switch var \<longrightarrow> listener_created m (dev, var) \<noteq> None" using m p by (auto simp: has_listeners_def)
    with False that [of m "[]"] show ?thesis by simp
  qed
  let ?m = "m1\<lparr>outbox := outbox m1 @ [state_message ?tpc var v]\<rparr>"
  obtain m2 where two: "renew_listener b t dev var ?m = (Inr (), m2)" "outbox m2 = outbox ?m" "sensors m2 = sensors m1"
    "mprefix m2 = mprefix m1" "\<forall>k. listener_created m1 k \<noteq> None \<longrightarrow> listener_created m2 k \<noteq> None"
    using renew_accepted [OF b, of var ?m dev t] one(6) by auto
  have run: "mqtt_publish b t dev var v refresh m = (Inr True, m2)"
    using one(1) two(1) b by (simp add: mqtt_publish_steps Let_def accepting_def)
  have topics: "state_topic m2 d w = state_topic m d w" for d w using one(4) two(4) by (simp add: state_topic_def)
  have "has_listeners m2"
    unfolding has_listeners_def
  proof (intro allI impI)
    fix d w assume d: "plain d" "plain w" "is_switch w" "sensors m2 (state_topic m2 d w) \<noteq> None"
    show "listener_created m2 (d, w) \<noteq> None"
    proof (cases "state_topic m d w = ?tpc")
      case True
      with state_topic_inj [OF d(1,2) p, of m] have "d = dev" "w = var" by auto
      with one(6) two(5) d(3) show ?thesis by auto
    next
      case False
      with d topics two(3) one(7) have "sensors m (state_topic m d w) \<noteq> None" by auto
      with m d one(5) two(5) show ?thesis by (auto simp: has_listeners_def)
    qed
  qed
  moreover have "retained tp cs u = u" for tp u
    using one(3) by (rule retained_configs)
  then have "\<forall>tp. retained tp (outbox m2) None = (if tp = ?tpc then Some v else retained tp (outbox m) None)"
    using one(2) two(2) by (simp add: retained_append state_message_def)
  moreover have "mprefix m2 = mprefix m" using one(4) two(4) by simp
  ultimately show ?thesis using run by blast
qed

text \<open>Cache and broker agree on every variable with a name that fits a topic.\<close>

definition in_step :: "datalogger \<Rightarrow> bool" where
  "in_step l \<longleftrightarrow> dl_url l = None \<and> (\<exists>m. dl_mqtt l = Some m \<and> has_listeners m \<and>
     (\<forall>dev var. plain dev \<longrightarrow> plain var \<longrightarrow> cached_value l (dev, var) \<noteq> PNone \<longrightarrow>
        (\<exists>w. retained (state_topic m dev var) (outbox m) None = Some w \<and> py_eq w (cached_value l (dev, var)))))"

lemma in_stepE:
  assumes "in_step l" and "plain dev" and "plain var" and "cached_value l (dev, var) \<noteq> PNone"
  obtains m w where "dl_mqtt l = Some m" "retained (state_topic m dev var) (outbox m) None = Some w"
    "py_eq w (cached_value l (dev, var))"
  using assms unfolding in_step_def by blast

lemma in_step_log:
  assumes l: "in_step l" and b: "accepting (mqtt_broker s)" and p: "plain (strip device)" "plain var"
  shows "\<exists>l'. dl_log s c (device, var, v) l = (Inr (), l') \<and> in_step l' \<and>
    (\<forall>key. if key = (strip device, var) then py_eq (cached_value l' key) v else cached_value l' key = cached_value l key)"
proof -
  let ?dev = "strip device" and ?l = "remember (strip device, var) (cached c l (strip device, var)) l"
  let ?d = "decide c (refresh_interval l) (cached c l (?dev, var)) v"
  obtain m where m: "dl_mqtt l = Some m" "has_listeners m" "dl_url l = None"
    using l by (auto simp: in_step_def)
  have frame: "cached_value ?l k = cached_value l k" "cached c ?l k = cached c l k" for k
    by (auto simp: cached_value_def remember_def cached_def split: option.split)
  have val: "cached_value l (?dev, var) = snd (cached c l (?dev, var))"
    by (auto simp: cached_value_def cached_def split: option.split)
  show ?thesis
  proof (cases "?d = Keep")
    case True
    then have "dl_log s c (device, var, v) l = (Inr (), ?l)"
      using frame by (simp add: dl_log_def Let_def pym_simps remember_def)
    moreover have "dl_url ?l = dl_url l" "dl_mqtt ?l = dl_mqtt l" by (simp_all add: remember_def)
    then have "in_step ?l" using l unfolding in_step_def by (simp only: frame)
    moreover have "py_eq (cached_value l (?dev, var)) v" using True val by (simp add: decide_keep)
    ultimately show ?thesis using frame by auto
  next
    case False
    obtain m' where m': "mqtt_publish (mqtt_broker s) (published c) ?dev var v (?d = Refresh) m = (Inr True, m')"
      "has_listeners m'" "mprefix m' = mprefix m"
      "\<forall>tp. retained tp (outbox m') None = (if tp = state_topic m ?dev var then Some v else retained tp (outbox m) None)"
      using publish_accepted [OF b m(2) p] by blast
    let ?l' = "(remember (?dev, var) (started c, v) ?l)\<lparr>dl_mqtt := Some m'\<rparr>"
    have send: "send_to_server s (published c) ?dev var v (?d = Refresh) ?l = (Inr True, ?l\<lparr>dl_mqtt := Some m'\<rparr>)"
      using m m'(1) by (simp add: send_to_server_def on_mqtt_def post_value_def pym_simps remember_def)
    have run: "dl_log s c (device, var, v) l = (Inr (), ?l')"
      using False send frame by (simp add: dl_log_def Let_def pym_simps remember_def)
    have vals: "cached_value ?l' k = (if k = (?dev, var) then v else cached_value l k)" for k
      by (simp add: cached_value_def remember_def)
    have topics: "state_topic m' d w = state_topic m d w" for d w using m'(3) by (simp add: state_topic_def)
    have "in_step ?l'"
      unfolding in_step_def
    proof (intro conjI exI [of _ m'] allI impI)
      fix d w assume d: "plain d" "plain w" "cached_value ?l' (d, w) \<noteq> PNone"
      show "\<exists>u. retained (state_topic m' d w) (outbox m') None = Some u \<and> py_eq u (cached_value ?l' (d, w))"
      proof (cases "state_topic m d w = state_topic m ?dev var")
        case True
        with state_topic_inj [OF d(1,2) p] have "d = ?dev" "w = var" by auto
        with m'(4) topics vals show ?thesis by simp
      next
        case False
        then have "(d, w) \<noteq> (?dev, var)" by auto
        with False m'(4) topics vals d in_stepE [OF l d(1,2)] m(1) show ?thesis by (metis option.inject)
      qed
    qed (use m m' in \<open>simp_all add: remember_def\<close>)
    with run vals show ?thesis by auto
  qed
qed


definition key_of :: "sample \<Rightarrow> string \<times> string" where
  "key_of = (\<lambda>(device, var, v). (strip device, var))"

definition fits_topic :: "sample \<Rightarrow> bool" where
  "fits_topic = (\<lambda>(device, var, v). plain (strip device) \<and> plain var)"

lemma in_step_item:
  assumes "in_step l" and "accepting (mqtt_broker s)" and "fits_topic (device, var, v)"
  shows "\<exists>l' tr'. snd (handle_item (consume s called_at) (Some (report seen_at)) (device, var, v) (l, n, tr)) = (l', Suc n, tr') \<and>
    in_step l' \<and> map_of tr' device \<noteq> None \<and> (\<forall>name. map_of tr name \<noteq> None \<longrightarrow> map_of tr' name \<noteq> None) \<and>
    (\<forall>key. if key = (strip device, var) then py_eq (cached_value l' key) v else cached_value l' key = cached_value l key)"
proof -
  have "plain (strip device)" "plain var" using assms(3) by (simp_all add: fits_topic_def)
  from in_step_log [OF assms(1,2) this, of "called_at n" v] obtain l' where
    run: "dl_log s (called_at n) (device, var, v) l = (Inr (), l')" and l': "in_step l'"
      "\<forall>key. if key = (strip device, var) then py_eq (cached_value l' key) v else cached_value l' key = cached_value l key"
    by blast
  let ?tr = "record_time device (seen_at (Suc n)) tr"
  have "snd (handle_item (consume s called_at) (Some (report seen_at)) (device, var, v) (l, n, tr)) = (l', Suc n, ?tr)"
    using run by (simp add: handle_item_def consume_def report_def pym_simps)
  moreover have "map_of ?tr name \<noteq> None \<longleftrightarrow> name = device \<or> map_of tr name \<noteq> None" for name
    by (auto simp: map_of_record_time)
  ultimately show ?thesis using l' by blast
qed

lemma in_step_all:
  assumes "in_step l" and "accepting (mqtt_broker s)" and "list_all fits_topic its"
  shows "\<exists>l' k tr'. handle_all (consume s called_at) (Some (report seen_at)) its (l, n, tr) = (l', k, tr') \<and> in_step l' \<and>
    (\<forall>name. map_of tr name \<noteq> None \<longrightarrow> map_of tr' name \<noteq> None) \<and>
    (\<forall>key. key \<notin> key_of ` set its \<longrightarrow> cached_value l' key = cached_value l key)"
  using assms(1,3)
proof (induction its arbitrary: l n tr)
  case (Cons it its)
  obtain device var v where it: "it = (device, var, v)" by (rule prod_cases3)
  have "fits_topic (device, var, v)" using Cons.prems it by simp
  from in_step_item [OF Cons.prems(1) assms(2) this, of called_at seen_at n tr] obtain l1 tr1 where
    one: "snd (handle_item (consume s called_at) (Some (report seen_at)) it (l, n, tr)) = (l1, Suc n, tr1)" "in_step l1"
      "\<forall>name. map_of tr name \<noteq> None \<longrightarrow> map_of tr1 name \<noteq> None"
      "\<forall>key. if key = (strip device, var) then py_eq (cached_value l1 key) v else cached_value l1 key = cached_value l key"
    unfolding it by blast
  obtain l' k tr' where rest: "handle_all (consume s called_at) (Some (report seen_at)) its (l1, Suc n, tr1) = (l', k, tr')" "in_step l'"
      "\<forall>name. map_of tr1 name \<noteq> None \<longrightarrow> map_of tr' name \<noteq> None"
      "\<forall>key. key \<notin> key_of ` set its \<longrightarrow> cached_value l' key = cached_value l1 key"
    using Cons.IH [OF one(2), of "Suc n" tr1] Cons.prems by auto
  have "cached_value l1 key = cached_value l key" if "key \<noteq> key_of it" for key
    using spec [OF one(4), of key] that by (simp add: key_of_def it)
  then have "\<forall>key. key \<notin> key_of ` set (it # its) \<longrightarrow> cached_value l' key = cached_value l key"
    using rest(4) by auto
  moreover have "handle_all (consume s called_at) (Some (report seen_at)) (it # its) (l, n, tr) = (l', k, tr')"
    using one(1) rest(1) by simp
  ultimately show ?case using rest(2,3) one(3) by blast
qed simp

lemma fresh_in_step:
  assumes "new_datalogger connect gethostname cfg = Inr l" and "dl_url l = None" and "dl_mqtt l \<noteq> None"
  shows "in_step l"
proof -
  obtain m where m: "dl_mqtt l = Some m" using assms(3) by auto
  have "logdata l = Map.empty" "m = new_mqtt (cfg_get cfg ''mqtt'' ''prefix'') (device_type_map cfg)"
    using assms(1) m
    by (auto simp: new_datalogger_def connect_mqtt_def Let_def split: sum.splits option.splits)
  then have "cached_value l key = PNone" "has_listeners m" for key
    by (auto simp: cached_value_def has_listeners_def new_mqtt_def)
  with m assms(2) show ?thesis by (simp add: in_step_def)
qed


definition broker_only :: config where
  "broker_only = [(''mqtt'', [(''broker'', ''localhost'')])]"


end
