(* ===== verification/Connection.thy ===== *)
theory Connection
  imports PyNumbers
begin

section \<open>connection.py: the retry policy\<close>

text \<open>
  \<open>backoff_seconds\<close> in binary64, with the jitter source \<open>rand\<close> (\<open>random.uniform\<close> unless a
  caller gives another) as an argument, and \<open>write_with_retry\<close> over a client whose write may
  raise. Only exceptions an \<open>except Exception\<close> catches are modelled: a cancelled task leaves
  the loop. \<open>sleep\<close> is what happens to the client while the coroutine waits.
\<close>

definition MAX_BACKOFF_EXP :: int where
  "MAX_BACKOFF_EXP = 30"

definition backoff_delay :: "int \<Rightarrow> rat \<Rightarrow> rat \<Rightarrow> rat" where
  "backoff_delay attempt base maximum =
     (let a = min (max attempt 1) MAX_BACKOFF_EXP
      in min (fl (base * 2 ^ nat (a - 1))) maximum)"

definition backoff_seconds :: "int \<Rightarrow> rat \<Rightarrow> rat \<Rightarrow> rat \<Rightarrow> (rat \<Rightarrow> rat \<Rightarrow> rat) \<Rightarrow> rat" where
  "backoff_seconds attempt base maximum jitter rand =
     max (fl (backoff_delay attempt base maximum + rand (- jitter) jitter)) 0"

text \<open>The loop \<open>for attempt in range(1, attempts + 1)\<close>, from \<open>attempt\<close> on, with \<open>fuel\<close> tries left.\<close>

fun write_attempts :: "('c, unit) pym \<Rightarrow> ('c \<Rightarrow> 'c) \<Rightarrow> nat \<Rightarrow> ('c, bool) pym" where
  "write_attempts write sleep 0 = ret False"
| "write_attempts write sleep (Suc left) =
     try_except (bind write (\<lambda>_. ret True))
       (\<lambda>_. if left = 0 then ret False
            else bind (modify sleep) (\<lambda>_. write_attempts write sleep left))"

definition write_with_retry :: "('c, unit) pym \<Rightarrow> ('c \<Rightarrow> 'c) \<Rightarrow> int \<Rightarrow> ('c, bool) pym" where
  "write_with_retry write sleep attempts = write_attempts write sleep (nat attempts)"

subsection \<open>The delay\<close>

lemma backoff_delay_mono:
  assumes "0 \<le> base" and "i \<le> j"
  shows "backoff_delay i base maximum \<le> backoff_delay j base maximum"
proof -
  let ?n = "\<lambda>a. nat (min (max a 1) MAX_BACKOFF_EXP - 1)"
  have "?n i \<le> ?n j" using assms(2) by (auto simp: MAX_BACKOFF_EXP_def)
  then have "(2 :: rat) ^ ?n i \<le> 2 ^ ?n j" by (intro power_increasing) simp_all
  then have "fl (base * 2 ^ ?n i) \<le> fl (base * 2 ^ ?n j)"
    using assms(1) by (intro fl_mono mult_left_mono)
  then show ?thesis by (simp add: backoff_delay_def Let_def min.coboundedI1)
qed

text \<open>The defaults: 10 s, doubling, capped at 300 s from the sixth failure on.\<close>

lemma backoff_delay_default:
  "backoff_delay attempt 10 300 =
     (if attempt \<le> 1 then 10 else if attempt = 2 then 20 else if attempt = 3 then 40
      else if attempt = 4 then 80 else if attempt = 5 then 160 else 300)"
proof -
  have small: "backoff_delay 1 10 300 = 10" "backoff_delay 2 10 300 = 20" "backoff_delay 3 10 300 = 40"
    "backoff_delay 4 10 300 = 80" "backoff_delay 5 10 300 = 160" "backoff_delay 6 10 300 = 300"
    by (simp_all add: backoff_delay_def MAX_BACKOFF_EXP_def)
  have low: "backoff_delay attempt 10 300 = backoff_delay 1 10 300" if "attempt \<le> 1"
    using that by (simp add: backoff_delay_def)
  have "backoff_delay 6 10 300 \<le> backoff_delay attempt 10 300" if "6 \<le> attempt"
    using that by (intro backoff_delay_mono) simp_all
  moreover have "backoff_delay attempt 10 300 \<le> 300" by (simp add: backoff_delay_def)
  ultimately have high: "backoff_delay attempt 10 300 = 300" if "6 \<le> attempt"
    using that small by simp
  consider "attempt \<le> 1" | "attempt = 2" | "attempt = 3" | "attempt = 4" | "attempt = 5" | "6 \<le> attempt"
    by linarith
  then show ?thesis by cases (simp_all add: low high small)
qed

text \<open>
  with the defaults and a jitter source that stays in the range it is asked for, the
  wait before the retry after the \<open>n\<close>th consecutive failure is never negative, within 5
  seconds of 10, 20, 40, 80, 160 and then 300 seconds, and so at most 305 seconds however
  many failures there were.
\<close>

theorem backoff_window:
  assumes "\<And>a b. a \<le> b \<Longrightarrow> a \<le> rand a b \<and> rand a b \<le> b"
  shows "backoff_delay n 10 300 - 5 \<le> backoff_seconds n 10 300 5 rand \<and>
         backoff_seconds n 10 300 5 rand \<le> backoff_delay n 10 300 + 5 \<and>
         5 \<le> backoff_seconds n 10 300 5 rand \<and> backoff_seconds n 10 300 5 rand \<le> 305"
proof -
  obtain d :: int where d: "backoff_delay n 10 300 = of_int d" "10 \<le> d" "d \<le> 300"
  proof -
    have "backoff_delay n 10 300 \<in> of_int ` {10, 20, 40, 80, 160, 300}"
      by (auto simp: backoff_delay_default)
    then show thesis using that by force
  qed
  let ?r = "rand (- 5) 5"
  have "- 5 \<le> ?r" and "?r \<le> 5" using assms [of "- 5" 5] by simp_all
  then have "of_int (d - 5) \<le> fl (of_int d + ?r)" and "fl (of_int d + ?r) \<le> of_int (d + 5)"
    using d fl_ge_int [of "d - 5" "of_int d + ?r"] fl_le_int [of "of_int d + ?r" "d + 5"] by auto
  moreover have "backoff_seconds n 10 300 5 rand = fl (of_int d + ?r)"
    using \<open>of_int (d - 5) \<le> fl (of_int d + ?r)\<close> d by (simp add: backoff_seconds_def max_def)
  moreover have "(5 :: rat) \<le> of_int (d - 5)" and "(of_int (d + 5) :: rat) \<le> 305"
    using d by linarith+
  ultimately show ?thesis using d by simp
qed

theorem backoff_window_witness:
  "5 \<le> backoff_seconds 9 10 300 5 (\<lambda>a b. b) \<and> backoff_seconds 9 10 300 5 (\<lambda>a b. b) \<le> 305"
  using backoff_window [of "\<lambda>a b. b" 9] by simp

subsection \<open>The write\<close>

text \<open>The client after \<open>k\<close> failed tries, each followed by the pause.\<close>

definition failed_try :: "('c, unit) pym \<Rightarrow> ('c \<Rightarrow> 'c) \<Rightarrow> 'c \<Rightarrow> 'c" where
  "failed_try write sleep c = sleep (snd (write c))"

text \<open>
  a command write succeeds exactly when one of the first \<open>attempts\<close> tries does, a try
  being made only after the ones before it failed; it never raises, and with the first
  success it stops writing.
\<close>

theorem write_retry_outcome:
  "fst (write_with_retry write sleep attempts c) =
     Inr (\<exists>k < nat attempts. \<not> isl (fst (write ((failed_try write sleep ^^ k) c)))) \<and>
   (\<forall>k < nat attempts.
      \<not> isl (fst (write ((failed_try write sleep ^^ k) c))) \<longrightarrow>
      (\<forall>j < k. isl (fst (write ((failed_try write sleep ^^ j) c)))) \<longrightarrow>
      snd (write_with_retry write sleep attempts c) = snd (write ((failed_try write sleep ^^ k) c)))"
proof -
  have "fst (write_attempts write sleep n c) =
     Inr (\<exists>k < n. \<not> isl (fst (write ((failed_try write sleep ^^ k) c)))) \<and>
   (\<forall>k < n.
      \<not> isl (fst (write ((failed_try write sleep ^^ k) c))) \<longrightarrow>
      (\<forall>j < k. isl (fst (write ((failed_try write sleep ^^ j) c)))) \<longrightarrow>
      snd (write_attempts write sleep n c) = snd (write ((failed_try write sleep ^^ k) c)))" for n
  proof (induction n arbitrary: c)
    case 0
    show ?case by (simp add: pym_simps)
  next
    case (Suc n)
    have shift: "(failed_try write sleep ^^ Suc k) c = (failed_try write sleep ^^ k) (failed_try write sleep c)" for k
      by (simp only: funpow_Suc_right comp_def)
    show ?case
    proof (cases "write c")
      case (Pair r c')
      show ?thesis
      proof (cases r)
        case (Inr u)
        have zero: "k = 0" if "\<forall>j < k. isl (fst (write ((failed_try write sleep ^^ j) c)))" for k
          using that Pair Inr by (cases k) auto
        have "fst (write_attempts write sleep (Suc n) c) = Inr True" "snd (write_attempts write sleep (Suc n) c) = c'"
          using Pair Inr by (simp_all add: pym_simps)
        then show ?thesis using Pair Inr
          by (auto simp del: write_attempts.simps dest!: zero intro!: exI [of _ 0])
      next
        case (Inl e)
        have "write_attempts write sleep (Suc n) c = write_attempts write sleep n (failed_try write sleep c)
            \<or> n = 0 \<and> write_attempts write sleep (Suc n) c = (Inr False, c')"
          using Pair Inl by (simp add: pym_simps failed_try_def)
        then show ?thesis
          using Suc.IH [of "failed_try write sleep c"] Pair Inl
          by (auto simp: Ex_less_Suc2 All_less_Suc2 shift simp del: funpow.simps(2) write_attempts.simps)
      qed
    qed
  qed
  then show ?thesis unfolding write_with_retry_def by blast
qed

theorem write_retry_outcome_witness:
  "fst (write_with_retry (\<lambda>n :: nat. (Inl OSError, Suc n)) id 2 0) = Inr False \<and>
   snd (write_with_retry (\<lambda>n :: nat. (Inr (), Suc n)) id 2 0) = 1"
  using write_retry_outcome [of "\<lambda>n :: nat. (Inl OSError, Suc n)" id 2 0]
    write_retry_outcome [of "\<lambda>n :: nat. (Inr (), Suc n)" id 2 0]
  by (auto dest: spec [of _ 0])

end
