(* ===== verification/Ble.thy ===== *)
theory Ble
  imports Datalogger Connection
begin

section \<open>ble.py: keeping a device connected\<close>

text \<open>
  \<open>maintain_device\<close>, one coroutine per device on the manager's event loop, with
  \<open>_hold\<close>, \<open>_assert_connection_interval\<close> and \<open>_verify_link\<close>. Between two awaits a coroutine
  has the loop to itself, so it is a function of how its awaits end: a \<open>round\<close> holds the
  answers of one pass of the outer loop, a \<open>tick\<close> those of one pass of \<open>_hold\<close>, with what the
  loop served while the coroutine slept. The calls it makes are the list \<open>events\<close>. An await
  returns, raises, is cancelled (\<open>BleManager.stop\<close>, which no \<open>except Exception\<close> catches), or
  is still waiting; when the script is used up, the coroutine is still running. The bleak
  client is outside the repository, and so only its answers appear. The lock around a
  single write orders it after the writes before, which these answers include.
\<close>

subsection \<open>Coroutines\<close>

datatype ending = Returned | Failed py_error | Cancelled | Running

datatype ble_event =
    Locked | Connecting | Subscribing uuid | Unlocked | SetInterval rat rat
  | Writing uuid bytes | Waiting rat | AskHealth | Disconnecting | Retrying rat

record 'd task =
  dev :: 'd
  events :: "ble_event list"

type_synonym 'd coro = "'d task \<Rightarrow> ending \<times> 'd task"

definition emit :: "ble_event \<Rightarrow> 'd task \<Rightarrow> 'd task" where
  "emit ev s = s\<lparr>events := events s @ [ev]\<rparr>"

definition await :: "ble_event \<Rightarrow> ending \<Rightarrow> 'd coro" where
  "await ev e = (\<lambda>s. (e, emit ev s))"

definition call :: "('d, unit) pym \<Rightarrow> 'd coro" where
  "call f = (\<lambda>s. case f (dev s) of
     (Inl e, d) \<Rightarrow> (Failed e, s\<lparr>dev := d\<rparr>)
   | (Inr _, d) \<Rightarrow> (Returned, s\<lparr>dev := d\<rparr>))"

fun steps :: "'d coro list \<Rightarrow> 'd coro" where
  "steps [] s = (Returned, s)"
| "steps (m # ms) s = (case m s of (e, s') \<Rightarrow> if e = Returned then steps ms s' else (e, s'))"

subsection \<open>What the transport asks of a device\<close>

text \<open>
  \<open>poll_with\<close> is the polling characteristic of a device that needs polling; \<open>callback\<close> is
  what the loop serves for it: a notification, or a command (\<open>submit_command\<close>).
\<close>

record 'd ble_device =
  device_up :: "('d, unit) pym"
  device_down :: "('d, unit) pym"
  poll_with :: "'d \<Rightarrow> uuid option"
  poll_data :: "('d, payload) pym"
  subscribe_to :: "'d \<Rightarrow> uuid list"
  interval_of :: "'d \<Rightarrow> (rat \<times> rat) option"
  health_of :: "('d, (nat \<times> nat) option) pym"
  callback :: "link_event \<Rightarrow> ('d, unit) pym"

record tick =
  stop_seen :: bool
  linked :: bool
  write_end :: ending
  served :: "link_event list"
  sleep_end :: ending

record round =
  stop_before :: bool
  client_made :: "py_error + unit"
  lock_end :: ending
  connect_end :: ending
  subscribe_end :: "uuid \<Rightarrow> ending"
  ticks :: "tick list"
  still_linked :: bool
  disconnect_end :: ending
  stop_after :: bool
  rand_source :: "rat \<Rightarrow> rat \<Rightarrow> rat"
  backoff_end :: ending

record settings =
  poll_interval :: rat
  base_backoff :: rat
  max_backoff :: rat
  jitter :: rat

subsection \<open>The connection interval\<close>

definition VERIFY_SECONDS :: rat where
  "VERIFY_SECONDS = 60"

definition MIN_FRAMES_TO_JUDGE :: nat where
  "MIN_FRAMES_TO_JUDGE = 20"

definition MIN_ACCEPT_RATIO :: rat where
  "MIN_ACCEPT_RATIO = fl (3/10)"

definition assert_connection_interval :: "'d ble_device \<Rightarrow> 'd coro" where
  "assert_connection_interval ops = (\<lambda>s.
     case interval_of ops (dev s) of
       None \<Rightarrow> (Returned, s)
     | Some (low, high) \<Rightarrow> (Returned, emit (SetInterval low high) s))"

definition link_slow :: "nat \<times> nat \<Rightarrow> bool" where
  "link_slow = (\<lambda>(accepted, rejected).
     let total = accepted + rejected in
     \<not> (total < MIN_FRAMES_TO_JUDGE \<or> of_nat accepted \<ge> fl (of_nat total * MIN_ACCEPT_RATIO)))"

definition verify_link :: "'d ble_device \<Rightarrow> 'd coro" where
  "verify_link ops = (\<lambda>s.
     case interval_of ops (dev s) of
       None \<Rightarrow> (Returned, s)
     | Some (low, high) \<Rightarrow>
         (case health_of ops (dev s) of
            (Inl e, d) \<Rightarrow> (Failed e, emit AskHealth (s\<lparr>dev := d\<rparr>))
          | (Inr None, d) \<Rightarrow> (Returned, emit AskHealth (s\<lparr>dev := d\<rparr>))
          | (Inr (Some h), d) \<Rightarrow>
              (Returned, (if link_slow h then emit (SetInterval low high) else id) (emit AskHealth (s\<lparr>dev := d\<rparr>)))))"

subsection \<open>Holding a connection\<close>

definition empty_payload :: "payload \<Rightarrow> bool" where
  "empty_payload p \<longleftrightarrow> p = NoData \<or> p = Bytes [] \<or> p = Ints []"

text \<open>The bytes to write in a poll, if any; converting a list of integers may raise.\<close>

definition poll_payload :: "'d ble_device \<Rightarrow> ('d, (uuid \<times> bytes) option) pym" where
  "poll_payload ops =
     bind (gets (poll_with ops)) (\<lambda>char_uuid.
       case char_uuid of
         None \<Rightarrow> ret None
       | Some c \<Rightarrow>
           bind (poll_data ops) (\<lambda>data.
             if empty_payload data then ret None
             else bind (lift (to_bytes data)) (\<lambda>bs. ret (Some (c, bs)))))"

text \<open>
  One pass of the loop body up to and including the sleep: \<open>Inl\<close> is the way \<open>_hold\<close> ends
  there. A write that fails leaves the loop, and \<open>_hold\<close> returns.
\<close>

definition hold_tick :: "'d ble_device \<Rightarrow> rat \<Rightarrow> tick \<Rightarrow> 'd task \<Rightarrow> (ending + unit) \<times> 'd task" where
  "hold_tick ops interval t s =
     (let doze = (\<lambda>s. (if sleep_end t = Returned then Inr () else Inl (sleep_end t),
                       emit (Waiting interval) (s\<lparr>dev := foldl (\<lambda>d e. snd (callback ops e d)) (dev s) (served t)\<rparr>)))
      in case poll_payload ops (dev s) of
           (Inl e, d) \<Rightarrow> (Inl (Failed e), s\<lparr>dev := d\<rparr>)
         | (Inr None, d) \<Rightarrow> doze (s\<lparr>dev := d\<rparr>)
         | (Inr (Some (c, bs)), d) \<Rightarrow>
             (let s' = emit (Writing c bs) (s\<lparr>dev := d\<rparr>) in
              case write_end t of
                Returned \<Rightarrow> doze s'
              | Failed _ \<Rightarrow> (Inl Returned, s')
              | Cancelled \<Rightarrow> (Inl Cancelled, s')
              | Running \<Rightarrow> (Inl Running, s')))"

fun hold :: "'d ble_device \<Rightarrow> rat \<Rightarrow> tick list \<Rightarrow> rat \<Rightarrow> 'd coro" where
  "hold ops interval [] since_verify s = (Running, s)"
| "hold ops interval (t # ts) since_verify s =
     (if stop_seen t \<or> \<not> linked t then (Returned, s)
      else case hold_tick ops interval t s of
             (Inl e, s') \<Rightarrow> (e, s')
           | (Inr _, s') \<Rightarrow>
               (let since = fl (since_verify + interval) in
                if since \<ge> VERIFY_SECONDS then
                  (case verify_link ops s' of (e, s'') \<Rightarrow>
                     if e = Returned then hold ops interval ts 0 s'' else (e, s''))
                else hold ops interval ts since s'))"

subsection \<open>One attempt, and the loop around it\<close>

text \<open>
  \<open>async with connect_lock\<close>: a task may be cancelled while it waits for the lock; once taken,
  the lock is released however the body ends.
\<close>

definition with_lock :: "ending \<Rightarrow> 'd coro \<Rightarrow> 'd coro" where
  "with_lock lock m = (\<lambda>s.
     if lock \<noteq> Returned then (lock, s)
     else case m (emit Locked s) of (e, s') \<Rightarrow> (e, if e = Running then s' else emit Unlocked s'))"

definition establish :: "'d ble_device \<Rightarrow> round \<Rightarrow> 'd coro" where
  "establish ops r =
     steps [await Connecting (connect_end r),
            call (device_up ops),
            (\<lambda>s. steps (map (\<lambda>u. await (Subscribing u) (subscribe_end r u)) (subscribe_to ops (dev s))) s)]"

text \<open>The \<open>finally\<close> block.\<close>

definition cleanup :: "'d ble_device \<Rightarrow> round \<Rightarrow> 'd coro" where
  "cleanup ops r =
     steps [call (device_down ops),
            (\<lambda>s. if still_linked r then
                   (case disconnect_end r of
                      Failed _ \<Rightarrow> (Returned, emit Disconnecting s)
                    | e \<Rightarrow> (e, emit Disconnecting s))
                 else (Returned, s))]"

text \<open>The \<open>try\<close> statement: the flag is \<open>connected\<close>; only a cancellation survives it.\<close>

definition attempt_once :: "'d ble_device \<Rightarrow> rat \<Rightarrow> round \<Rightarrow> 'd task \<Rightarrow> bool \<times> ending \<times> 'd task" where
  "attempt_once ops interval r s =
     (let (e1, s1) = with_lock (lock_end r) (establish ops r) s;
          (e2, s2) = (if e1 = Returned then steps [assert_connection_interval ops, hold ops interval (ticks r) 0] s1
                      else (e1, s1))
      in if e2 = Running then (e1 = Returned, Running, s2)
         else let (e3, s3) = cleanup ops r s2
              in (e1 = Returned,
                  if e3 \<noteq> Returned then e3 else if e2 = Cancelled then Cancelled else Returned, s3))"

fun maintain_from :: "'d ble_device \<Rightarrow> settings \<Rightarrow> round list \<Rightarrow> int \<Rightarrow> 'd coro" where
  "maintain_from ops cfg [] attempt s = (Running, s)"
| "maintain_from ops cfg (r # rs) attempt s =
     (if stop_before r then (Returned, s)
      else case client_made r of
        Inl e \<Rightarrow> (Failed e, s)
      | Inr _ \<Rightarrow>
          (case attempt_once ops (poll_interval cfg) r s of (ok, e, s1) \<Rightarrow>
             if e \<noteq> Returned then (e, s1)
             else if stop_after r then (Returned, s1)
             else if ok then maintain_from ops cfg rs 0 s1
             else
               (let wait = backoff_seconds (attempt + 1) (base_backoff cfg) (max_backoff cfg) (jitter cfg) (rand_source r);
                    s2 = emit (Retrying wait) s1
                in if backoff_end r = Returned then maintain_from ops cfg rs (attempt + 1) s2
                   else (backoff_end r, s2))))"

definition maintain_device :: "'d ble_device \<Rightarrow> settings \<Rightarrow> round list \<Rightarrow> 'd coro" where
  "maintain_device ops cfg rs = maintain_from ops cfg rs 0"

definition default_settings :: settings where
  "default_settings = \<lparr>poll_interval = 1, base_backoff = 10, max_backoff = 300, jitter = 5\<rparr>"

subsection \<open>The device of this program\<close>

text \<open>
  A \<open>SolarDevice\<close> with its plugin, and the datalogger it reports to: the state is the
  plugin's, the datalogger's, and the device's. Only a plugin that counts frames has
  \<open>frame_health\<close>.
\<close>

definition on_plugin :: "('u, 'a) util \<Rightarrow> ('u \<times> 'l \<times> device, 'a) pym" where
  "on_plugin f = (\<lambda>(u, l, d). case f (u, d) of (r, (u', d')) \<Rightarrow> (r, (u', l, d')))"

definition on_logger :: "('l, 'a) util \<Rightarrow> ('u \<times> 'l \<times> device, 'a) pym" where
  "on_logger f = (\<lambda>(u, l, d). case f (l, d) of (r, (l', d')) \<Rightarrow> (r, (u, l', d')))"

definition submit_command :: "'u plugin \<Rightarrow> string \<Rightarrow> string \<Rightarrow> ('u, unit) util" where
  "submit_command p var message = try_except (run_command p var message) (\<lambda>_. ret ())"

fun serve_callback :: "'u plugin \<Rightarrow> link_event \<Rightarrow> ('u, unit) util" where
  "serve_callback p (Notified c value) = notify_callback p c value"
| "serve_callback p (Command var message) = submit_command p var message"
| "serve_callback p Polled = ret ()"

definition solar_device :: "'u plugin \<Rightarrow> ('u, nat \<times> nat) pym option \<Rightarrow> (dl_call \<Rightarrow> ('l, unit) pym) option \<Rightarrow>
    ('u \<times> 'l \<times> device) ble_device" where
  "solar_device p health dl =
     \<lparr>device_up = on_logger (on_connected dl),
      device_down = on_logger (on_disconnected dl),
      poll_with = (\<lambda>(u, l, d). if need_polling d then truthy (write_polling d) else None),
      poll_data = on_plugin (get_poll_data p),
      subscribe_to = (\<lambda>(u, l, d). notify_uuids d),
      interval_of = (\<lambda>(u, l, d). connection_interval d),
      health_of = (case health of
          None \<Rightarrow> ret None
        | Some h \<Rightarrow> on_plugin (on_util (bind h (\<lambda>x. ret (Some x))))),
      callback = (\<lambda>e. on_plugin (serve_callback p e))\<rparr>"

fun dl_calls :: "sinks \<Rightarrow> dl_call \<Rightarrow> (datalogger, unit) pym" where
  "dl_calls s (SetDeviceAlias n a) = dl_set_alias n a"
| "dl_calls s (SetAvailable n online) = dl_set_available s n online"


subsection \<open>What a device owes the transport\<close>

definition coro_keeps :: "('d \<Rightarrow> bool) \<Rightarrow> 'd coro \<Rightarrow> bool" where
  "coro_keeps P m \<longleftrightarrow> (\<forall>s. P (dev s) \<longrightarrow> P (dev (snd (m s))))"

lemma coro_keepsD: "coro_keeps P m \<Longrightarrow> P (dev s) \<Longrightarrow> m s = (e, s') \<Longrightarrow> P (dev s')"
  by (metis coro_keeps_def snd_conv)

lemma dev_emit [simp]: "dev (emit ev s) = dev s"
  by (simp add: emit_def)

lemma events_emit [simp]: "events (emit ev s) = events s @ [ev]"
  by (simp add: emit_def)

lemma keeps_await [pres]: "coro_keeps P (await ev e)"
  by (simp add: coro_keeps_def await_def)

lemma keeps_call [pres]: "preserves P f \<Longrightarrow> coro_keeps P (call f)"
  by (auto simp: coro_keeps_def call_def split: prod.splits sum.splits dest: preservesD2)

lemma keeps_steps [pres]: "(\<And>m. m \<in> set ms \<Longrightarrow> coro_keeps P m) \<Longrightarrow> coro_keeps P (steps ms)"
proof (induction ms)
  case (Cons m ms)
  have m: "coro_keeps P m" using Cons.prems by simp
  have ms: "coro_keeps P (steps ms)" using Cons.prems by (intro Cons.IH) simp
  have "P (dev (snd (steps (m # ms) s)))" if "P (dev s)" for s
  proof -
    obtain e s' where run: "m s = (e, s')" by (rule prod.exhaust)
    from m that run have "P (dev s')" by (rule coro_keepsD)
    then show ?thesis using ms run by (simp add: coro_keeps_def)
  qed
  then show ?case by (simp add: coro_keeps_def)
qed (simp add: coro_keeps_def)

lemma keeps_with_lock [pres]: "coro_keeps P m \<Longrightarrow> coro_keeps P (with_lock lock m)"
  by (simp add: coro_keeps_def with_lock_def split: prod.split) (metis dev_emit snd_conv)

lemma keeps_reader: "(\<And>x. coro_keeps P (g x)) \<Longrightarrow> coro_keeps P (\<lambda>s. g (h s) s)"
  by (simp add: coro_keeps_def)

text \<open>All that the loop serves in a schedule satisfies \<open>P\<close>.\<close>

definition rounds_serve :: "(link_event \<Rightarrow> bool) \<Rightarrow> round list \<Rightarrow> bool" where
  "rounds_serve P rs \<longleftrightarrow> list_all (\<lambda>r. list_all (\<lambda>t. list_all P (served t)) (ticks r)) rs"

lemma rounds_serve_simps [simp]:
  "rounds_serve P []"
  "rounds_serve P (r # rs) \<longleftrightarrow> list_all (\<lambda>t. list_all P (served t)) (ticks r) \<and> rounds_serve P rs"
  "rounds_serve (\<lambda>_. True) rs"
  by (simp_all add: rounds_serve_def list_all_iff)

locale transport_contract =
  fixes ops :: "'d ble_device" and served_ok :: "link_event \<Rightarrow> bool" and dev_inv :: "'d \<Rightarrow> bool" and offline :: "'d \<Rightarrow> bool"
  assumes up_keeps: "preserves dev_inv (device_up ops)"
    and poll_keeps: "preserves dev_inv (poll_data ops)"
    and health_keeps: "preserves dev_inv (health_of ops)"
    and callback_keeps: "served_ok e \<Longrightarrow> preserves dev_inv (callback ops e)"
    and down_offline: "dev_inv d \<Longrightarrow> \<exists>d'. device_down ops d = (Inr (), d') \<and> dev_inv d' \<and> offline d'"
begin

lemma served_keeps: "list_all served_ok es \<Longrightarrow> dev_inv d \<Longrightarrow> dev_inv (foldl (\<lambda>d e. snd (callback ops e d)) d es)"
  by (induction es arbitrary: d) (auto intro: preservesD [OF callback_keeps])

lemma payload_keeps: "preserves dev_inv (poll_payload ops)"
  unfolding poll_payload_def by (intro pres poll_keeps)

lemma tick_keeps:
  assumes "dev_inv (dev s)" and "list_all served_ok (served t)"
  shows "dev_inv (dev (snd (hold_tick ops interval t s)))"
proof -
  obtain r d where run: "poll_payload ops (dev s) = (r, d)" by (rule prod.exhaust)
  have "dev_inv d" using preservesD2 [OF payload_keeps assms(1) run] .
  then show ?thesis
    using run served_keeps [OF assms(2)] by (auto simp: hold_tick_def Let_def split: sum.split option.split ending.split)
qed

lemma verify_keeps: "coro_keeps dev_inv (verify_link ops)"
proof -
  have "dev_inv (dev (snd (verify_link ops s)))" if "dev_inv (dev s)" for s
  proof -
    obtain r d where run: "health_of ops (dev s) = (r, d)" by (rule prod.exhaust)
    then have "dev_inv d" using preservesD2 [OF health_keeps that] by simp
    with run that show ?thesis by (auto simp: verify_link_def split: sum.split option.split)
  qed
  then show ?thesis by (simp add: coro_keeps_def)
qed

lemma hold_keeps:
  "list_all (\<lambda>t. list_all served_ok (served t)) ts \<Longrightarrow> dev_inv (dev s) \<Longrightarrow> dev_inv (dev (snd (hold ops interval ts since s)))"
proof (induction ts arbitrary: since s)
  case (Cons t ts)
  obtain r s1 where tick: "hold_tick ops interval t s = (r, s1)" by (rule prod.exhaust)
  have s1: "dev_inv (dev s1)" using tick_keeps [of s t interval] Cons.prems tick by simp
  obtain e s2 where verify: "verify_link ops s1 = (e, s2)" by (rule prod.exhaust)
  have s2: "dev_inv (dev s2)" using coro_keepsD [OF verify_keeps s1 verify] .
  show ?case
    using Cons tick s1 s2 verify by (cases r) (simp_all add: Let_def)
qed simp

lemma establish_keeps: "coro_keeps dev_inv (establish ops r)"
proof -
  have "coro_keeps dev_inv (steps (map (\<lambda>u. await (Subscribing u) (subscribe_end r u)) us))" for us
    by (rule keeps_steps) (auto intro: keeps_await)
  then have "coro_keeps dev_inv (\<lambda>s. steps (map (\<lambda>u. await (Subscribing u) (subscribe_end r u)) (subscribe_to ops (dev s))) s)"
    by (rule keeps_reader)
  then show ?thesis
    unfolding establish_def by (intro keeps_steps) (auto intro: keeps_await keeps_call up_keeps)
qed

lemma cleanup_offline:
  assumes "dev_inv (dev s)"
  shows "dev_inv (dev (snd (cleanup ops r s))) \<and> offline (dev (snd (cleanup ops r s)))"
proof -
  obtain d where "device_down ops (dev s) = (Inr (), d)" "dev_inv d" "offline d"
    using down_offline [OF assms] by blast
  then show ?thesis by (auto simp: cleanup_def call_def split: ending.split)
qed

lemma assert_keeps: "coro_keeps dev_inv (assert_connection_interval ops)"
  by (simp add: coro_keeps_def assert_connection_interval_def split: option.split prod.split)

lemma attempt_offline:
  assumes "dev_inv (dev s)" and "attempt_once ops interval r s = (ok, e, s')"
    and "list_all (\<lambda>t. list_all served_ok (served t)) (ticks r)"
  shows "dev_inv (dev s') \<and> (e \<noteq> Running \<longrightarrow> offline (dev s'))"
proof -
  obtain e1 s1 where one: "with_lock (lock_end r) (establish ops r) s = (e1, s1)" by (rule prod.exhaust)
  have s1: "dev_inv (dev s1)" using coro_keepsD [OF keeps_with_lock [OF establish_keeps] assms(1) one] .
  have hold: "coro_keeps dev_inv (steps [assert_connection_interval ops, hold ops interval (ticks r) 0])"
  proof (rule keeps_steps)
    have "coro_keeps dev_inv (hold ops interval (ticks r) 0)" by (simp add: coro_keeps_def hold_keeps [OF assms(3)])
    then show "coro_keeps dev_inv m" if "m \<in> set [assert_connection_interval ops, hold ops interval (ticks r) 0]" for m
      using that assert_keeps by auto
  qed
  obtain e2 s2 where two: "(if e1 = Returned then steps [assert_connection_interval ops, hold ops interval (ticks r) 0] s1
      else (e1, s1)) = (e2, s2)" by (rule prod.exhaust)
  then have s2: "dev_inv (dev s2)" using s1 coro_keepsD [OF hold s1] by (auto split: if_splits)
  obtain e3 s3 where three: "cleanup ops r s2 = (e3, s3)" by (rule prod.exhaust)
  have "dev_inv (dev s3)" "offline (dev s3)" using cleanup_offline [OF s2, of r] three by simp_all
  then show ?thesis
    using assms(2) s2 unfolding attempt_once_def one by (auto simp: two three Let_def split: if_splits)
qed

lemma maintain_offline:
  assumes "dev_inv (dev s)" and "offline (dev s)" and "maintain_from ops cfg rs attempt s = (e, s')"
    and "rounds_serve served_ok rs"
  shows "dev_inv (dev s') \<and> (e \<noteq> Running \<longrightarrow> offline (dev s'))"
  using assms
proof (induction rs arbitrary: attempt s)
  case (Cons r rs)
  obtain ok e1 s1 where once: "attempt_once ops (poll_interval cfg) r s = (ok, e1, s1)" by (rule prod_cases3)
  have s1: "dev_inv (dev s1)" "e1 \<noteq> Running \<longrightarrow> offline (dev s1)"
    using attempt_offline [OF Cons.prems(1) once] Cons.prems(4) by simp_all
  have again: "dev_inv (dev s') \<and> (e \<noteq> Running \<longrightarrow> offline (dev s'))"
    if "e1 = Returned" "maintain_from ops cfg rs k s0 = (e, s')" "dev s0 = dev s1" for k s0
    using Cons.IH [of s0 k] that s1 Cons.prems(4) by simp
  show ?case
    using Cons.prems once s1 again
    by (cases "client_made r") (auto simp: Let_def split: if_splits)
qed simp

end


subsection \<open>Home Assistant never sees a lost device as available\<close>

text \<open>The availability retained on a topic: the last text published there.\<close>

fun availability_at :: "string \<Rightarrow> message list \<Rightarrow> string option \<Rightarrow> string option" where
  "availability_at t [] w = w"
| "availability_at t (x # xs) w =
     availability_at t xs (case body x of Text a \<Rightarrow> if topic x = t \<and> retain x then Some a else w | _ \<Rightarrow> w)"

lemma availability_at_append: "availability_at t (xs @ ys) w = availability_at t ys (availability_at t xs w)"
  by (induction xs arbitrary: w) simp_all

definition shown_as :: "string \<Rightarrow> string \<Rightarrow> datalogger \<Rightarrow> bool" where
  "shown_as name a l \<longleftrightarrow>
     (\<exists>m. dl_mqtt l = Some m \<and> availability_at (availability_topic m (strip name)) (outbox m) None = Some a)"

definition reports_to :: "'u \<times> datalogger \<times> device \<Rightarrow> bool" where
  "reports_to = (\<lambda>(u, l, d). dl_mqtt l \<noteq> None)"

definition has_mqtt :: "datalogger \<times> device \<Rightarrow> bool" where
  "has_mqtt = (\<lambda>(l, d). dl_mqtt l \<noteq> None)"

definition reported_offline :: "sinks \<Rightarrow> 'u \<times> datalogger \<times> device \<Rightarrow> bool" where
  "reported_offline s = (\<lambda>(u, l, d).
     \<not> connected d \<and> (accepting (mqtt_broker s) \<longrightarrow> shown_as (logger_name d) ''offline'' l))"

lemma run_dl_available:
  assumes "dl_mqtt l = Some m"
  shows "\<exists>r m'. dl_set_available s name online l = (r, l\<lparr>dl_mqtt := Some m'\<rparr>) \<and>
    (accepting (mqtt_broker s) \<longrightarrow> r = Inr () \<and>
       shown_as name (if online then ''online'' else ''offline'') (l\<lparr>dl_mqtt := Some m'\<rparr>))"
proof (cases "mqtt_set_available (mqtt_broker s) name online m")
  case (Pair r m')
  have "accepting (mqtt_broker s) \<longrightarrow> r = Inr () \<and>
      availability_at (availability_topic m' (strip name)) (outbox m') None = Some (if online then ''online'' else ''offline'')"
    using Pair
    by (auto simp: mqtt_set_available_def client_publish_def pym_simps accepting_def availability_at_append
        availability_topic_def)
  with Pair assms show ?thesis
    by (auto simp: dl_set_available_def on_mqtt_def shown_as_def)
qed

lemma dl_calls_keep: "dl_mqtt l \<noteq> None \<Longrightarrow> dl_mqtt (snd (dl_calls s c l)) \<noteq> None"
  by (cases c) (auto simp: dl_set_alias_def dl_set_available_def on_mqtt_def split: prod.split option.split)

lemma reports_on_plugin: "preserves reports_to (on_plugin f)"
  by (auto simp: preserves_def on_plugin_def reports_to_def split: prod.split)

lemma reports_on_logger:
  assumes "preserves has_mqtt f" shows "preserves reports_to (on_logger f)"
proof (rule preservesI)
  fix s assume s: "reports_to s"
  obtain u l d where "s = (u, l, d)" by (rule prod_cases3)
  moreover obtain r l' d' where run: "f (l, d) = (r, l', d')" by (rule prod_cases3)
  ultimately show "reports_to (snd (on_logger f s))"
    using s preservesD2 [OF assms _ run] by (simp add: on_logger_def reports_to_def has_mqtt_def)
qed

lemma reports_dl_call: "preserves has_mqtt (on_util (dl_calls s c))"
proof (rule preservesI)
  fix x assume x: "has_mqtt x"
  obtain l d where "x = (l, d)" by (rule prod.exhaust)
  moreover obtain r l' where "dl_calls s c l = (r, l')" by (rule prod.exhaust)
  ultimately show "has_mqtt (snd (on_util (dl_calls s c) x))"
    using x dl_calls_keep [of l s c] by (simp add: on_util_def has_mqtt_def)
qed

lemma reports_connected: "preserves has_mqtt (on_connected (Some (dl_calls s)))"
proof -
  have dev: "preserves has_mqtt (on_device f)" for f :: "(device, unit) pym"
    by (auto simp: preserves_def on_device_def has_mqtt_def Let_def split: prod.split)
  have calls: "preserves has_mqtt (silently (block
      [on_util (dl_calls s (SetDeviceAlias n a)), on_util (dl_calls s (SetAvailable n True))]))" for n a
    unfolding silently_def
    by (intro preserves_try preserves_block preserves_ret) (auto intro: reports_dl_call simp del: dl_calls.simps)
  show ?thesis
    unfolding on_connected_def option.case
    by (intro preserves_block) (auto intro: preserves_bind preserves_gets dev calls simp del: block.simps dl_calls.simps)
qed

interpretation st: transport_contract "solar_device p health (Some (dl_calls s))" "\<lambda>_. True" reports_to "reported_offline s"
  for p health s
proof unfold_locales
  show "preserves reports_to (device_up (solar_device p health (Some (dl_calls s))))"
    by (simp add: solar_device_def reports_on_logger reports_connected)
  show "preserves reports_to (poll_data (solar_device p health (Some (dl_calls s))))"
    by (simp add: solar_device_def reports_on_plugin)
  show "preserves reports_to (health_of (solar_device p health (Some (dl_calls s))))"
    by (simp add: solar_device_def reports_on_plugin preserves_ret split: option.split)
  show "preserves reports_to (callback (solar_device p health (Some (dl_calls s))) e)" for e
    by (simp add: solar_device_def reports_on_plugin)
  fix x :: "'a \<times> datalogger \<times> device"
  assume x: "reports_to x"
  obtain u l d where p: "x = (u, l, d)" by (rule prod_cases3)
  with x obtain m where "dl_mqtt l = Some m" by (auto simp: reports_to_def)
  from run_dl_available [OF this, of s "logger_name d" False] obtain r m' where
    run: "dl_set_available s (logger_name d) False l = (r, l\<lparr>dl_mqtt := Some m'\<rparr>)"
      "accepting (mqtt_broker s) \<longrightarrow> shown_as (logger_name d) ''offline'' (l\<lparr>dl_mqtt := Some m'\<rparr>)"
    by auto
  then have "device_down (solar_device p health (Some (dl_calls s))) x =
      (Inr (), (u, l\<lparr>dl_mqtt := Some m'\<rparr>, d\<lparr>connected := False\<rparr>))" for p :: "'a plugin" and health
    by (cases r) (simp_all add: solar_device_def p on_logger_def on_disconnected_def silently_def on_util_def
        on_device_def pym_simps)
  with run show "\<exists>d'. device_down (solar_device p health (Some (dl_calls s))) x = (Inr (), d') \<and> reports_to d' \<and>
      reported_offline s d'"
    by (simp add: reports_to_def reported_offline_def)
qed

subsection \<open>The calls a task makes\<close>

text \<open>\<open>m\<close> only makes calls that satisfy \<open>P\<close>, and appends them.\<close>

definition emits :: "(ble_event \<Rightarrow> bool) \<Rightarrow> 'd coro \<Rightarrow> bool" where
  "emits P m \<longleftrightarrow> (\<forall>s. \<exists>evs. events (snd (m s)) = events s @ evs \<and> list_all P evs)"

lemma emitsI: "(\<And>s. \<exists>evs. events (snd (m s)) = events s @ evs \<and> list_all P evs) \<Longrightarrow> emits P m"
  by (simp add: emits_def)

lemma emitsD: "emits P m \<Longrightarrow> m s = (e, s') \<Longrightarrow> \<exists>evs. events s' = events s @ evs \<and> list_all P evs"
  by (metis emits_def snd_conv)

lemma emits_await [pres]: "P ev \<Longrightarrow> emits P (await ev e)"
  by (simp add: emits_def await_def)

lemma emits_call [pres]: "emits P (call f)"
  by (simp add: emits_def call_def split: prod.split sum.split)

lemma emits_steps [pres]: "(\<And>m. m \<in> set ms \<Longrightarrow> emits P m) \<Longrightarrow> emits P (steps ms)"
proof (induction ms)
  case (Cons m ms)
  show ?case
  proof (rule emitsI)
    fix s
    obtain e s1 where run: "m s = (e, s1)" by (rule prod.exhaust)
    then obtain evs where one: "events s1 = events s @ evs" "list_all P evs"
      using Cons.prems emitsD by (metis list.set_intros(1))
    obtain e2 s2 where run2: "steps ms s1 = (e2, s2)" by (rule prod.exhaust)
    moreover have "emits P (steps ms)" using Cons.prems by (intro Cons.IH) simp
    ultimately obtain evs2 where two: "events s2 = events s1 @ evs2" "list_all P evs2"
      using emitsD by blast
    show "\<exists>evs. events (snd (steps (m # ms) s)) = events s @ evs \<and> list_all P evs"
      using run run2 one two by (auto intro: exI [of _ evs] exI [of _ "evs @ evs2"])
  qed
qed (simp add: emits_def)

lemma emits_reader: "(\<And>x. emits P (g x)) \<Longrightarrow> emits P (\<lambda>s. g (h s) s)"
  by (simp add: emits_def)

definition locked_event :: "ble_event \<Rightarrow> bool" where
  "locked_event ev \<longleftrightarrow> ev = Connecting \<or> (\<exists>u. ev = Subscribing u)"

text \<open>The calls made with the lock free: all but the retry wait happen inside an attempt.\<close>

definition free_event :: "ble_event \<Rightarrow> bool" where
  "free_event ev \<longleftrightarrow> ev \<notin> {Locked, Unlocked} \<and> \<not> locked_event ev \<and> (\<forall>w. ev \<noteq> Retrying w)"

lemma event_simps [simp]:
  "locked_event Connecting" "locked_event (Subscribing u)" "\<not> locked_event Locked" "\<not> locked_event Unlocked"
  "\<not> locked_event (Retrying w)" "free_event (SetInterval a b)" "free_event (Writing c bs)" "free_event (Waiting w)"
  "free_event AskHealth" "free_event Disconnecting"
  by (simp_all add: locked_event_def free_event_def)

lemma establish_emits: "emits locked_event (establish ops r)"
proof -
  have "emits locked_event (steps (map (\<lambda>u. await (Subscribing u) (subscribe_end r u)) us))" for us
    by (rule emits_steps) (auto intro: emits_await)
  then have "emits locked_event (\<lambda>s. steps (map (\<lambda>u. await (Subscribing u) (subscribe_end r u)) (subscribe_to ops (dev s))) s)"
    by (rule emits_reader)
  then show ?thesis
    unfolding establish_def by (intro emits_steps) (auto intro: emits_await emits_call)
qed

text \<open>The calls made while a connection is held.\<close>

definition session_event :: "ble_event \<Rightarrow> bool" where
  "session_event ev \<longleftrightarrow> free_event ev \<and> ev \<noteq> Disconnecting"

lemma session_simps [simp]:
  "session_event (SetInterval a b)" "session_event (Writing c bs)" "session_event (Waiting w)" "session_event AskHealth"
  "\<not> session_event Disconnecting"
  by (simp_all add: session_event_def)

lemma emits_mono: "emits P m \<Longrightarrow> (\<And>ev. P ev \<Longrightarrow> Q ev) \<Longrightarrow> emits Q m"
  unfolding emits_def by (meson list.pred_mono_strong)

lemma verify_emits: "emits session_event (verify_link ops)"
  by (auto simp: emits_def verify_link_def split: option.split prod.split sum.split)

lemma tick_emits: "\<exists>evs. events (snd (hold_tick ops interval t s)) = events s @ evs \<and> list_all session_event evs"
  by (auto simp: hold_tick_def Let_def split: prod.split sum.split option.split ending.split)

lemma hold_emits: "emits session_event (hold ops interval ts since)"
proof (rule emitsI)
  show "\<exists>evs. events (snd (hold ops interval ts since s)) = events s @ evs \<and> list_all session_event evs" for s
  proof (induction ts arbitrary: since s)
    case (Cons t ts)
    obtain x s1 where tick: "hold_tick ops interval t s = (x, s1)" by (rule prod.exhaust)
    then obtain evs where one: "events s1 = events s @ evs" "list_all session_event evs"
      using tick_emits [of ops interval t s] by auto
    obtain e s2 where verify: "verify_link ops s1 = (e, s2)" by (rule prod.exhaust)
    then obtain evs2 where two: "events s2 = events s1 @ evs2" "list_all session_event evs2"
      using emitsD [OF verify_emits] by blast
    obtain more where more: "events (snd (hold ops interval ts (fl (since + interval)) s1)) = events s1 @ more" "list_all session_event more"
      using Cons.IH by blast
    obtain more2 where more2: "events (snd (hold ops interval ts 0 s2)) = events s2 @ more2" "list_all session_event more2"
      using Cons.IH by blast
    have goal: "\<exists>evs. z = events s @ evs \<and> list_all session_event evs"
      if "z \<in> {events s, events s @ evs, events s @ evs @ more, events s @ evs @ evs2, events s @ evs @ evs2 @ more2}" for z
      using that one two more more2 by auto
    show ?case
      using tick verify one two more more2
      by (intro goal) (cases x; simp add: Let_def)
  qed simp
qed

lemma cleanup_emits: "emits free_event (cleanup ops r)"
proof -
  have "emits free_event (\<lambda>s. if still_linked r then
      (case disconnect_end r of Failed _ \<Rightarrow> (Returned, emit Disconnecting s) | e \<Rightarrow> (e, emit Disconnecting s)) else (Returned, s))"
    by (auto simp: emits_def split: ending.split)
  then show ?thesis unfolding cleanup_def by (intro emits_steps) (auto intro: emits_call)
qed

lemma assert_emits: "emits session_event (assert_connection_interval ops)"
  by (simp add: emits_def assert_connection_interval_def split: option.split prod.split)

lemma session_emits: "emits session_event (steps [assert_connection_interval ops, hold ops interval ts since])"
  by (rule emits_steps) (use assert_emits hold_emits in auto)

lemma with_lock_emits:
  assumes "with_lock lock (establish ops r) s = (e, s')"
  shows "\<exists>pre. events s' = events s @ pre \<and>
    (pre = [] \<or> (\<exists>mid. list_all locked_event mid \<and> (pre = Locked # mid @ [Unlocked] \<or> e = Running \<and> pre = Locked # mid)))"
proof (cases "lock = Returned")
  case True
  obtain e1 s1 where one: "establish ops r (emit Locked s) = (e1, s1)" by (rule prod.exhaust)
  then obtain mid where mid: "events s1 = events s @ Locked # mid" "list_all locked_event mid"
    using emitsD [OF establish_emits, of ops r "emit Locked s"] by auto
  have "e = e1" "s' = (if e1 = Running then s1 else emit Unlocked s1)"
    using assms True by (auto simp: with_lock_def one)
  with mid show ?thesis by (cases "e1 = Running") auto
next
  case False
  then have "s' = s" using assms by (simp add: with_lock_def)
  then show ?thesis by (intro exI [of _ "[]"]) simp
qed

lemma attempt_emits:
  assumes "attempt_once ops interval r s = (ok, e, s')"
  shows "\<exists>pre rest. events s' = events s @ pre @ rest \<and> list_all free_event rest \<and>
    (pre = [] \<or> (\<exists>mid. list_all locked_event mid \<and>
       (pre = Locked # mid @ [Unlocked] \<or> e = Running \<and> rest = [] \<and> pre = Locked # mid)))"
proof -
  let ?session = "steps [assert_connection_interval ops, hold ops interval (ticks r) 0]"
  have session: "emits free_event ?session"
    by (rule emits_mono [OF session_emits]) (simp add: session_event_def)
  obtain e1 s1 where locked: "with_lock (lock_end r) (establish ops r) s = (e1, s1)" by (rule prod.exhaust)
  then obtain pre where pre: "events s1 = events s @ pre"
      "pre = [] \<or> (\<exists>mid. list_all locked_event mid \<and> (pre = Locked # mid @ [Unlocked] \<or> e1 = Running \<and> pre = Locked # mid))"
    using with_lock_emits by blast
  obtain e2 s2 where two: "(if e1 = Returned then ?session s1 else (e1, s1)) = (e2, s2)" by (rule prod.exhaust)
  have "\<exists>evs2. events s2 = events s1 @ evs2 \<and> list_all free_event evs2 \<and> (e1 = Running \<longrightarrow> evs2 = [])"
  proof (cases "e1 = Returned")
    case True
    then have "?session s1 = (e2, s2)" using two by (simp only: if_P)
    from emitsD [OF session this] True show ?thesis by auto
  next
    case False
    then have "s2 = s1" using two by simp
    then show ?thesis by (intro exI [of _ "[]"]) simp
  qed
  then obtain evs2 where evs2: "events s2 = events s1 @ evs2" "list_all free_event evs2" "e1 = Running \<longrightarrow> evs2 = []" by blast
  obtain e3 s3 where three: "cleanup ops r s2 = (e3, s3)" by (rule prod.exhaust)
  then obtain evs3 where evs3: "events s3 = events s2 @ evs3" "list_all free_event evs3"
    using emitsD [OF cleanup_emits] by blast
  show ?thesis
  proof (cases "e2 = Running")
    case True
    then have "e = Running" "s' = s2" using assms unfolding attempt_once_def locked by (simp_all add: two Let_def)
    then show ?thesis
      using pre evs2 by (intro exI [of _ pre] exI [of _ evs2]) auto
  next
    case False
    then have "s' = s3" using assms unfolding attempt_once_def locked by (simp add: two three Let_def)
    moreover have "e1 \<noteq> Running" using False two by (auto split: if_splits)
    ultimately show ?thesis
      using pre evs2 evs3 by (intro exI [of _ pre] exI [of _ "evs2 @ evs3"]) auto
  qed
qed

subsection \<open>A disconnection nobody waits for\<close>

text \<open>The task's last call is the disconnection: its end is not waited for when the loop ends.\<close>

definition disconnecting :: "'d task \<Rightarrow> bool" where
  "disconnecting s \<longleftrightarrow> events s \<noteq> [] \<and> last (events s) = Disconnecting"

context transport_contract
begin

lemma attempt_left_offline:
  assumes "dev_inv (dev s)" and "offline (dev s)" and once: "attempt_once ops interval r s = (ok, e, s')"
    and served: "list_all (\<lambda>t. list_all served_ok (served t)) (ticks r)" and "e \<noteq> Running \<or> disconnecting s'"
  shows "offline (dev s')"
proof (cases "e = Running")
  case True
  then have last: "events s' \<noteq> []" "last (events s') = Disconnecting" using assms(5) by (simp_all add: disconnecting_def)
  let ?session = "steps [assert_connection_interval ops, hold ops interval (ticks r) 0]"
  obtain e1 s1 where one: "with_lock (lock_end r) (establish ops r) s = (e1, s1)" by (rule prod.exhaust)
  obtain e2 s2 where two: "(if e1 = Returned then ?session s1 else (e1, s1)) = (e2, s2)" by (rule prod.exhaust)
  have s2: "dev_inv (dev s2)"
  proof -
    have s1: "dev_inv (dev s1)" using coro_keepsD [OF keeps_with_lock [OF establish_keeps] assms(1) one] .
    have "coro_keeps dev_inv ?session"
    proof (rule keeps_steps)
      have "coro_keeps dev_inv (hold ops interval (ticks r) 0)" by (simp add: coro_keeps_def hold_keeps [OF served])
      then show "coro_keeps dev_inv m" if "m \<in> set [assert_connection_interval ops, hold ops interval (ticks r) 0]" for m
        using that assert_keeps by auto
    qed
    from coro_keepsD [OF this s1] two s1 show ?thesis by (auto split: if_splits simp del: steps.simps)
  qed
  show ?thesis
  proof (cases "e2 = Running")
    case False
    obtain e3 s3 where three: "cleanup ops r s2 = (e3, s3)" by (rule prod.exhaust)
    have "s' = s3" using once False unfolding attempt_once_def one by (simp add: two three Let_def)
    then show ?thesis using cleanup_offline [OF s2, of r] three by simp
  next
    case running: True
    then have s': "s' = s2" using once unfolding attempt_once_def one by (simp add: two Let_def)
    show ?thesis
    proof (cases "e1 = Returned")
      case True
      then have "?session s1 = (e2, s2)" using two by (simp only: if_P)
      from emitsD [OF session_emits this] obtain evs where "events s2 = events s1 @ evs" "list_all session_event evs" by blast
      moreover have "\<exists>zs. events s1 = zs @ [Unlocked]"
        using one True by (auto simp: with_lock_def split: if_splits prod.splits)
      ultimately have "last (events s2) \<noteq> Disconnecting"
        by (cases evs rule: rev_cases) auto
      then show ?thesis using last s' by simp
    next
      case False
      then have e1: "e1 = Running" "s2 = s1" using two running by auto
      show ?thesis
      proof (cases "lock_end r = Returned")
        case True
        obtain z1 z where est: "establish ops r (emit Locked s) = (z1, z)" by (rule prod.exhaust)
        have "s1 = z" using one e1(1) True by (auto simp: with_lock_def est split: if_splits)
        moreover obtain mid where "events z = events s @ Locked # mid" "list_all locked_event mid"
          using emitsD [OF establish_emits est] by auto
        ultimately have "last (events s2) \<noteq> Disconnecting"
          using e1(2) by (cases mid rule: rev_cases) (auto simp: locked_event_def)
        then show ?thesis using last s' by simp
      next
        case False
        then have "s1 = s" using one by (simp add: with_lock_def)
        then show ?thesis using s' e1(2) assms(2) by simp
      qed
    qed
  qed
qed (use attempt_offline [OF assms(1) once served] in simp)

lemma maintain_left_offline:
  assumes "dev_inv (dev s)" and "offline (dev s)" and "maintain_from ops cfg rs attempt s = (e, s')"
    and "rounds_serve served_ok rs" and "e \<noteq> Running \<or> disconnecting s'"
  shows "offline (dev s')"
  using assms
proof (induction rs arbitrary: attempt s)
  case (Cons r rs)
  obtain ok e1 s1 where once: "attempt_once ops (poll_interval cfg) r s = (ok, e1, s1)" by (rule prod_cases3)
  have served: "list_all (\<lambda>t. list_all served_ok (served t)) (ticks r)" "rounds_serve served_ok rs"
    using Cons.prems(4) by simp_all
  have s1: "dev_inv (dev s1)" "e1 \<noteq> Running \<or> disconnecting s1 \<Longrightarrow> offline (dev s1)"
    using attempt_offline [OF Cons.prems(1) once served(1)] attempt_left_offline [OF Cons.prems(1,2) once served(1)] by simp_all
  have again: "offline (dev s')" if "e1 = Returned" "maintain_from ops cfg rs k s0 = (e, s')" "dev s0 = dev s1" for k s0
    using Cons.IH [of s0 k] that s1 served(2) Cons.prems(5) by simp
  show ?case
    using Cons.prems once s1 again
    by (cases "client_made r") (auto simp: Let_def split: if_splits)
qed simp

end




subsection \<open>Connections are established one at a time\<close>

text \<open>
  A list of calls that takes the lock before it connects or subscribes, and gives it back
  before anything else; \<open>h\<close> tells whether the lock is held at its start.
\<close>

fun bracketed :: "bool \<Rightarrow> ble_event list \<Rightarrow> bool" where
  "bracketed h [] = True"
| "bracketed h (ev # es) =
     (if ev = Locked then \<not> h \<and> bracketed True es
      else if ev = Unlocked then h \<and> bracketed False es
      else (h \<longleftrightarrow> locked_event ev) \<and> bracketed h es)"

fun held_after :: "bool \<Rightarrow> ble_event list \<Rightarrow> bool" where
  "held_after h [] = h"
| "held_after h (ev # es) = held_after (if ev = Locked then True else if ev = Unlocked then False else h) es"

lemma bracketed_append [simp]: "bracketed h (xs @ ys) \<longleftrightarrow> bracketed h xs \<and> bracketed (held_after h xs) ys"
  by (induction xs arbitrary: h) auto

lemma held_after_append [simp]: "held_after h (xs @ ys) = held_after (held_after h xs) ys"
  by (induction xs arbitrary: h) auto

lemma bracketed_mid: "list_all locked_event es \<Longrightarrow> bracketed True es \<and> held_after True es"
  by (induction es) (auto simp: locked_event_def)

lemma bracketed_rest: "list_all free_event es \<Longrightarrow> bracketed False es \<and> \<not> held_after False es"
  by (induction es) (auto simp: free_event_def locked_event_def)

lemma maintain_bracketed:
  assumes "maintain_from ops cfg rs attempt s = (e, s')"

  shows "\<exists>evs. events s' = events s @ evs \<and> bracketed False evs \<and> (e \<noteq> Running \<longrightarrow> \<not> held_after False evs)"
  using assms
proof (induction rs arbitrary: attempt s)
  case (Cons r rs)
  obtain ok e1 s1 where once: "attempt_once ops (poll_interval cfg) r s = (ok, e1, s1)" by (rule prod_cases3)
  from attempt_emits [OF once] obtain evs1 where one: "events s1 = events s @ evs1" "bracketed False evs1"
      "e1 \<noteq> Running \<longrightarrow> \<not> held_after False evs1"
    using bracketed_mid bracketed_rest by force
  have again: "\<exists>evs. events s' = events s @ evs \<and> bracketed False evs \<and> (e \<noteq> Running \<longrightarrow> \<not> held_after False evs)"
    if "e1 = Returned" "maintain_from ops cfg rs k s0 = (e, s')" "s0 = s1 \<or> (\<exists>w. s0 = emit (Retrying w) s1)" for k s0
  proof -
    note s0 = that
    obtain evs0 where "evs0 = [] \<and> s0 = s1 \<or> (\<exists>w. evs0 = [Retrying w] \<and> s0 = emit (Retrying w) s1)"
      using s0(3) by blast
    then have "events s0 = events s @ evs1 @ evs0" "bracketed False (evs1 @ evs0)" "\<not> held_after False (evs1 @ evs0)"
      using one s0(1) by auto
    moreover obtain evs where "events s' = events s0 @ evs" "bracketed False evs" "e \<noteq> Running \<longrightarrow> \<not> held_after False evs"
      using Cons.IH [OF s0(2)] by blast
    ultimately show ?thesis by (intro exI [of _ "(evs1 @ evs0) @ evs"]) auto
  qed
  consider "s' = s" | "s' = s1" "e1 = e \<or> e1 = Returned" | w where "s' = emit (Retrying w) s1" "e1 = Returned"
    | k s0 where "e1 = Returned" "maintain_from ops cfg rs k s0 = (e, s')" "s0 = s1 \<or> (\<exists>w. s0 = emit (Retrying w) s1)"
    using Cons.prems once by (cases "client_made r") (auto simp: Let_def split: if_splits)
  then show ?case
  proof cases
    case 1
    then show ?thesis by (intro exI [of _ "[]"]) simp
  next
    case 2
    with one show ?thesis by (intro exI [of _ evs1]) auto
  next
    case 3
    with one show ?thesis by (intro exI [of _ "evs1 @ [Retrying w]"]) auto
  next
    case 4
    then show ?thesis by (rule again)
  qed
qed (auto intro: exI [of _ "[]"])


text \<open>
  The manager's tasks share one event loop and one lock. A configuration is the holder of
  the lock and the calls each task has yet to make; a step is the next call of one of them.
  Taking the lock waits until it is free; \<open>asyncio.Lock.release\<close> does not ask who holds it.
\<close>

inductive loop_step :: "nat option \<times> (nat \<Rightarrow> ble_event list) \<Rightarrow> nat \<Rightarrow> ble_event \<Rightarrow>
    nat option \<times> (nat \<Rightarrow> ble_event list) \<Rightarrow> bool" where
  take_lock: "todo i = Locked # es \<Longrightarrow> loop_step (None, todo) i Locked (Some i, todo(i := es))"
| give_lock: "todo i = Unlocked # es \<Longrightarrow> loop_step (h, todo) i Unlocked (None, todo(i := es))"
| other_call: "todo i = ev # es \<Longrightarrow> ev \<noteq> Locked \<Longrightarrow> ev \<noteq> Unlocked \<Longrightarrow> loop_step (h, todo) i ev (h, todo(i := es))"

inductive_cases loop_stepE: "loop_step c i ev c'"

inductive loop_reaches :: "nat option \<times> (nat \<Rightarrow> ble_event list) \<Rightarrow> nat option \<times> (nat \<Rightarrow> ble_event list) \<Rightarrow> bool" where
  start: "loop_reaches c c"
| onwards: "loop_reaches c c' \<Longrightarrow> loop_step c' i ev c'' \<Longrightarrow> loop_reaches c c''"

definition loop_inv :: "nat option \<times> (nat \<Rightarrow> ble_event list) \<Rightarrow> bool" where
  "loop_inv = (\<lambda>(h, todo). \<forall>i. bracketed (h = Some i) (todo i))"

definition loop_ends :: "nat option \<times> (nat \<Rightarrow> ble_event list) \<Rightarrow> bool" where
  "loop_ends = (\<lambda>(h, todo). \<forall>i. \<not> held_after (h = Some i) (todo i))"

lemma holder_only: "loop_inv (h, todo) \<Longrightarrow> todo i = Unlocked # es \<Longrightarrow> h = Some i"
  by (auto simp: loop_inv_def dest: spec [of _ i])

lemma loop_step_keeps:
  assumes "loop_step c i ev c'" and "loop_inv c"
  shows "loop_inv c' \<and> (loop_ends c \<longrightarrow> loop_ends c')"
  using assms(1)
proof (cases rule: loop_step.cases)
  case (take_lock todo es)
  then have "bracketed True es" "loop_ends c \<longrightarrow> \<not> held_after True es"
    using assms(2) by (auto simp: loop_inv_def loop_ends_def dest: spec [of _ i])
  with take_lock assms(2) show ?thesis by (auto simp: loop_inv_def loop_ends_def)
next
  case (give_lock todo es h)
  have inv: "bracketed (h = Some j) (todo j)" for j using assms(2) give_lock(1) by (simp add: loop_inv_def)
  have ends: "loop_ends c \<Longrightarrow> \<not> held_after (h = Some j) (todo j)" for j using give_lock(1) by (simp add: loop_ends_def)
  have h: "h = Some i" using assms(2) give_lock(1,4) holder_only by blast
  have others: "j \<noteq> i \<Longrightarrow> bracketed False (todo j)" "loop_ends c \<Longrightarrow> j \<noteq> i \<Longrightarrow> \<not> held_after False (todo j)" for j
    using inv [of j] ends [of j] h by auto
  have "bracketed False es" "loop_ends c \<Longrightarrow> \<not> held_after False es"
    using inv [of i] ends [of i] h give_lock(4) by auto
  with others give_lock(3) show ?thesis by (auto simp: loop_inv_def loop_ends_def)
next
  case (other_call todo es h)
  have inv: "bracketed (h = Some j) (todo j)" for j using assms(2) other_call(1) by (simp add: loop_inv_def)
  have ends: "loop_ends c \<Longrightarrow> \<not> held_after (h = Some j) (todo j)" for j using other_call(1) by (simp add: loop_ends_def)
  have "bracketed (h = Some i) es" "loop_ends c \<Longrightarrow> \<not> held_after (h = Some i) es"
    using inv [of i] ends [of i] other_call by auto
  with inv ends other_call(2,3) show ?thesis by (auto simp: loop_inv_def loop_ends_def)
qed

lemma loop_reaches_keeps:
  "loop_reaches c c' \<Longrightarrow> loop_inv c \<Longrightarrow> loop_inv c' \<and> (loop_ends c \<longrightarrow> loop_ends c')"
  by (induction rule: loop_reaches.induct) (use loop_step_keeps in blast)+

text \<open>What the task of device \<open>i\<close> does, with the answers its awaits get.\<close>

definition task_calls :: "'d ble_device \<Rightarrow> settings \<Rightarrow> round list \<Rightarrow> 'd \<Rightarrow> ble_event list" where
  "task_calls ops cfg rs d = events (snd (maintain_device ops cfg rs \<lparr>dev = d, events = []\<rparr>))"

lemma task_calls_bracketed:
  "bracketed False (task_calls ops cfg rs d) \<and>
   (fst (maintain_device ops cfg rs \<lparr>dev = d, events = []\<rparr>) \<noteq> Running \<longrightarrow> \<not> held_after False (task_calls ops cfg rs d))"
proof -
  obtain e s' where run: "maintain_from ops cfg rs 0 \<lparr>dev = d, events = []\<rparr> = (e, s')" by (rule prod.exhaust)
  from maintain_bracketed [OF run] run show ?thesis by (simp add: task_calls_def maintain_device_def)
qed

text \<open>
  C16: the controller is asked for one connection at a time: however the tasks of the devices
  interleave, and however each attempt ends, a task connects and subscribes only while it
  holds the lock, and only the holder gives it back.
\<close>

theorem one_connection_at_a_time:
  assumes "loop_reaches (None, \<lambda>i. task_calls (ops i) cfg (rs i) (d i)) (h, todo)"
    and "loop_step (h, todo) i ev c" and "locked_event ev \<or> ev = Unlocked"
  shows "h = Some i"
proof -
  have "loop_inv (None, \<lambda>i. task_calls (ops i) cfg (rs i) (d i))"
    by (simp add: loop_inv_def task_calls_bracketed)
  then have inv: "bracketed (h = Some i) (todo i)" using loop_reaches_keeps [OF assms(1)] by (simp add: loop_inv_def)
  show ?thesis using assms(2,3) inv by (elim loop_stepE) auto
qed

text \<open>
  and the lock never blocks the loop for good: while every attempt's awaits come back in
  some way, with a result, an exception or a cancellation, some task can always go on until
  all of them are through.
\<close>

theorem lock_never_deadlocks:
  assumes "loop_reaches (None, \<lambda>i. task_calls (ops i) cfg (rs i) (d i)) (h, todo)"
    and "\<And>i. fst (maintain_device (ops i) cfg (rs i) \<lparr>dev = d i, events = []\<rparr>) \<noteq> Running"
    and "todo i \<noteq> []"
  shows "\<exists>j ev c. loop_step (h, todo) j ev c"
proof -
  have "loop_inv (None, \<lambda>i. task_calls (ops i) cfg (rs i) (d i))" "loop_ends (None, \<lambda>i. task_calls (ops i) cfg (rs i) (d i))"
    using assms(2) by (simp_all add: loop_inv_def loop_ends_def task_calls_bracketed)
  with loop_reaches_keeps [OF assms(1)] have inv: "loop_inv (h, todo)" "loop_ends (h, todo)" by auto
  define j where "j = (case h of None \<Rightarrow> i | Some k \<Rightarrow> k)"
  have "todo j \<noteq> []"
  proof (cases h)
    case (Some k)
    then have "\<not> held_after True (todo k)" using inv(2) by (auto simp: loop_ends_def dest: spec [of _ k])
    then show ?thesis by (auto simp: j_def Some)
  qed (simp add: j_def assms(3))
  then obtain ev es where first: "todo j = ev # es" by (cases "todo j") auto
  have "h = None" if "ev = Locked"
  proof (cases h)
    case (Some k)
    then have "bracketed True (todo k)" using inv(1) by (auto simp: loop_inv_def dest: spec [of _ k])
    with Some first that show ?thesis by (simp add: j_def)
  qed simp
  with first show ?thesis
    by (cases "ev = Locked"; cases "ev = Unlocked") (blast intro: loop_step.intros)+
qed


definition mute_device :: "unit ble_device" where
  "mute_device = \<lparr>device_up = ret (), device_down = ret (), poll_with = (\<lambda>_. None), poll_data = ret NoData,
     subscribe_to = (\<lambda>_. [''ffe4'']), interval_of = (\<lambda>_. None), health_of = ret None, callback = (\<lambda>_. ret ())\<rparr>"

text \<open>An attempt whose connect or first hold ends as given, and a stop after it.\<close>

definition last_attempt :: "ending \<Rightarrow> round" where
  "last_attempt e =
     \<lparr>stop_before = False, client_made = Inr (), lock_end = Returned, connect_end = e, subscribe_end = (\<lambda>_. Returned),
      ticks = [\<lparr>stop_seen = True, linked = True, write_end = Returned, served = [], sleep_end = Returned\<rparr>],
      still_linked = False, disconnect_end = Returned, stop_after = True, rand_source = (\<lambda>a b. 0), backoff_end = Returned\<rparr>"

lemma run_last_attempt:
  "maintain_device mute_device cfg [last_attempt Returned] \<lparr>dev = (), events = []\<rparr> =
     (Returned, \<lparr>dev = (), events = [Locked, Connecting, Subscribing ''ffe4'', Unlocked]\<rparr>)"
  "maintain_device mute_device cfg [last_attempt (Failed OSError)] \<lparr>dev = (), events = []\<rparr> =
     (Returned, \<lparr>dev = (), events = [Locked, Connecting, Unlocked]\<rparr>)"
  by (simp_all add: maintain_device_def attempt_once_def with_lock_def establish_def cleanup_def await_def call_def
      emit_def mute_device_def last_attempt_def pym_simps assert_connection_interval_def Let_def)

theorem one_connection_at_a_time_witness:
  "\<exists>h todo c. loop_reaches (None, \<lambda>i. task_calls mute_device default_settings [last_attempt Returned] ()) (h, todo) \<and>
     loop_step (h, todo) 7 Connecting c \<and> h = Some (7 :: nat)"
proof -
  let ?t = "\<lambda>i :: nat. [Locked, Connecting, Subscribing ''ffe4'', Unlocked]"
  let ?u = "?t(7 := [Connecting, Subscribing ''ffe4'', Unlocked])"
  have t: "(\<lambda>i :: nat. task_calls mute_device default_settings [last_attempt Returned] ()) = ?t"
    by (simp add: task_calls_def run_last_attempt)
  have "loop_step (None, ?t) 7 Locked (Some 7, ?u)" by (rule take_lock) simp
  then have one: "loop_reaches (None, ?t) (Some 7, ?u)" by (rule onwards [OF start])
  moreover have two: "loop_step (Some 7, ?u) 7 Connecting (Some 7, ?u(7 := [Subscribing ''ffe4'', Unlocked]))"
    by (rule other_call) simp_all
  moreover have "(Some 7 :: nat option) = Some 7"
    using one_connection_at_a_time [of "\<lambda>_. mute_device" default_settings "\<lambda>_. [last_attempt Returned]" "\<lambda>_. ()" "Some 7" ?u 7
        Connecting] one two t by blast
  ultimately show ?thesis unfolding t by blast
qed

theorem lock_never_deadlocks_witness:
  "\<exists>j ev c. loop_step (None, \<lambda>i :: nat. task_calls mute_device default_settings [last_attempt (Failed OSError)] ()) j ev c"
  using lock_never_deadlocks [of "\<lambda>_. mute_device" default_settings "\<lambda>_. [last_attempt (Failed OSError)]" "\<lambda>_. ()" None
      "\<lambda>i :: nat. task_calls mute_device default_settings [last_attempt (Failed OSError)] ()" 0] start
  by (simp add: run_last_attempt task_calls_def)

subsection \<open>Retries\<close>

definition settled :: "ending \<Rightarrow> bool" where
  "settled e \<longleftrightarrow> e = Returned \<or> (\<exists>x. e = Failed x)"

lemma settled_simps [simp]: "settled Returned" "settled (Failed x)" "\<not> settled Cancelled" "\<not> settled Running"
  by (simp_all add: settled_def)

text \<open>A round of a running program: nothing is stopped or cancelled, and a link drops in the end.\<close>

definition undisturbed :: "round \<Rightarrow> bool" where
  "undisturbed r \<longleftrightarrow> \<not> stop_before r \<and> client_made r = Inr () \<and> lock_end r = Returned \<and> \<not> stop_after r \<and> backoff_end r = Returned \<and>
     settled (connect_end r) \<and> (\<forall>u. settled (subscribe_end r u)) \<and> settled (disconnect_end r) \<and>
     list_all (\<lambda>t. settled (write_end t) \<and> settled (sleep_end t)) (ticks r) \<and> list_ex (\<lambda>t. \<not> linked t) (ticks r)"

definition waits :: "ble_event list \<Rightarrow> rat list" where
  "waits es = concat (map (\<lambda>ev. case ev of Retrying w \<Rightarrow> [w] | _ \<Rightarrow> []) es)"

lemma waits_simps [simp]:
  "waits [] = []" "waits (xs @ ys) = waits xs @ waits ys"
  "waits (ev # es) = (case ev of Retrying w \<Rightarrow> [w] | _ \<Rightarrow> []) @ waits es"
  by (simp_all add: waits_def)

lemma no_waits: "list_all locked_event es \<Longrightarrow> waits es = []" "list_all free_event es \<Longrightarrow> waits es = []"
  by (induction es) (auto simp: locked_event_def free_event_def split: ble_event.split)

text \<open>The reference: the backoff counts the failures since the last good connection.\<close>

fun backoffs :: "settings \<Rightarrow> round list \<Rightarrow> int \<Rightarrow> rat list" where
  "backoffs cfg [] failures = []"
| "backoffs cfg (r # rs) failures =
     (if connect_end r = Returned then backoffs cfg rs 0
      else backoff_seconds (failures + 1) (base_backoff cfg) (max_backoff cfg) (jitter cfg) (rand_source r)
             # backoffs cfg rs (failures + 1))"

lemma fst_await [simp]: "fst (await ev e s) = e"
  by (simp add: await_def)

lemma steps_returned:
  "fst (steps (m # ms) s) = Returned \<longleftrightarrow> fst (m s) = Returned \<and> fst (steps ms (snd (m s))) = Returned"
  by (simp split: prod.split)

lemma settled_steps: "(\<And>m s. m \<in> set ms \<Longrightarrow> settled (fst (m s))) \<Longrightarrow> settled (fst (steps ms s))"
proof (induction ms arbitrary: s)
  case (Cons m ms)
  obtain e s' where "m s = (e, s')" by (rule prod.exhaust)
  moreover have "settled (fst (m s))" "settled (fst (steps ms s'))" using Cons by simp_all
  ultimately show ?case by simp
qed (simp add: settled_def)

lemma settled_verify: "settled (fst (verify_link ops s))"
  by (auto simp: verify_link_def split: option.split prod.split sum.split)

lemma settled_tick:
  assumes "settled (write_end t)" and "settled (sleep_end t)" and "hold_tick ops interval t s = (Inl e, s')"
  shows "settled e"
  using assms by (cases "write_end t") (auto simp: hold_tick_def Let_def split: prod.splits sum.splits option.splits if_splits)

lemma settled_hold:
  assumes "list_all (\<lambda>t. settled (write_end t) \<and> settled (sleep_end t)) ts" and "list_ex (\<lambda>t. \<not> linked t) ts"
  shows "settled (fst (hold ops interval ts since s))"
  using assms
proof (induction ts arbitrary: since s)
  case (Cons t ts)
  show ?case
  proof (cases "stop_seen t \<or> \<not> linked t")
    case False
    obtain x s1 where tick: "hold_tick ops interval t s = (x, s1)" by (rule prod.exhaust)
    obtain e s2 where verify: "verify_link ops s1 = (e, s2)" by (rule prod.exhaust)
    then have "settled e" using settled_verify [of ops s1] by simp
    moreover have "settled (fst (hold ops interval ts k s0))" for k s0 using Cons False by simp
    moreover have "settled y" if "x = Inl y" for y
      using settled_tick [of t ops interval s y s1] tick that Cons.prems by simp
    ultimately show ?thesis using False tick verify by (cases x) (simp_all add: Let_def)
  qed (simp add: settled_def)
qed simp

lemma settled_establish: "(\<And>u. settled (subscribe_end r u)) \<Longrightarrow> settled (connect_end r) \<Longrightarrow> settled (fst (establish ops r s))"
proof -
  assume r: "\<And>u. settled (subscribe_end r u)" "settled (connect_end r)"
  have subs: "settled (fst (steps (map (\<lambda>u. await (Subscribing u) (subscribe_end r u)) us) z))" for us z
    by (rule settled_steps) (auto simp: r)
  have "settled (fst (call (device_up ops) z))" for z by (auto simp: call_def split: prod.split sum.split)
  then show ?thesis unfolding establish_def by (intro settled_steps) (auto simp: r subs)
qed

lemma establish_outcome:
  assumes "\<And>d. \<exists>d'. device_up ops d = (Inr (), d')"
    and "connect_end r = Returned \<Longrightarrow> \<forall>u. subscribe_end r u = Returned"
  shows "fst (establish ops r s) = Returned \<longleftrightarrow> connect_end r = Returned"
proof (cases "connect_end r = Returned")
  case True
  have subs: "fst (steps (map (\<lambda>u. await (Subscribing u) (subscribe_end r u)) us) z) = Returned" for us z
    using assms(2) True by (induction us arbitrary: z) (simp_all add: await_def)
  have "fst (call (device_up ops) z) = Returned" for z
    using assms(1) [of "dev z"] by (auto simp: call_def)
  with True subs show ?thesis unfolding establish_def steps_returned by simp
qed (simp add: establish_def steps_returned del: steps.simps)

lemma attempt_undisturbed:
  assumes "\<And>d. \<exists>d'. device_up ops d = (Inr (), d')" and "\<And>d. \<exists>d'. device_down ops d = (Inr (), d')"
    and "undisturbed r" and "connect_end r = Returned \<Longrightarrow> \<forall>u. subscribe_end r u = Returned"
  shows "\<exists>s'. attempt_once ops interval r s = (connect_end r = Returned, Returned, s') \<and> waits (events s') = waits (events s)"
proof -
  obtain ok e s' where once: "attempt_once ops interval r s = (ok, e, s')" by (rule prod_cases3)
  obtain e1 s1 where one: "establish ops r (emit Locked s) = (e1, s1)" by (rule prod.exhaust)
  have e1: "settled e1" "e1 = Returned \<longleftrightarrow> connect_end r = Returned"
    using settled_establish [of r ops "emit Locked s"] establish_outcome [OF assms(1,4), of "emit Locked s"] assms(3) one
    by (auto simp: undisturbed_def)
  moreover have "lock_end r = Returned" using assms(3) by (simp add: undisturbed_def)
  ultimately have locked: "with_lock (lock_end r) (establish ops r) s = (e1, emit Unlocked s1)"
    by (auto simp: with_lock_def one)
  have session: "settled (fst (steps [assert_connection_interval ops, hold ops interval (ticks r) 0] z))" for z
  proof (rule settled_steps)
    have "settled (fst (assert_connection_interval ops x))" for x
      by (simp add: assert_connection_interval_def split: option.split prod.split)
    moreover have "settled (fst (hold ops interval (ticks r) 0 x))" for x
      using assms(3) by (intro settled_hold) (simp_all add: undisturbed_def)
    ultimately show "settled (fst (m x))" if "m \<in> set [assert_connection_interval ops, hold ops interval (ticks r) 0]" for m x
      using that by auto
  qed
  obtain e2 s2 where two: "(if e1 = Returned then steps [assert_connection_interval ops, hold ops interval (ticks r) 0] (emit Unlocked s1)
      else (e1, emit Unlocked s1)) = (e2, s2)" by (rule prod.exhaust)
  have e2: "settled e2"
  proof (cases "e1 = Returned")
    case True
    then have "steps [assert_connection_interval ops, hold ops interval (ticks r) 0] (emit Unlocked s1) = (e2, s2)"
      using two by (simp only: if_P)
    with session [of "emit Unlocked s1"] show ?thesis by simp
  next
    case False
    with two e1 show ?thesis by simp
  qed
  obtain d where "device_down ops (dev s2) = (Inr (), d)" using assms(2) by blast
  moreover have "settled (disconnect_end r)" using assms(3) by (simp add: undisturbed_def)
  ultimately have "fst (cleanup ops r s2) = Returned"
    by (auto simp: cleanup_def call_def split: ending.split)
  then obtain s3 where three: "cleanup ops r s2 = (Returned, s3)" by (metis prod.exhaust_sel)
  have "e2 \<noteq> Running" "e2 \<noteq> Cancelled" using e2 by auto
  then have "attempt_once ops interval r s = (e1 = Returned, Returned, s3)"
    unfolding attempt_once_def locked by (simp only: Let_def prod.case two three if_False simp_thms)
  then have "ok = (connect_end r = Returned)" "e = Returned" using once e1(2) by auto
  moreover have "waits (events s') = waits (events s)"
    using attempt_emits [OF once] no_waits by auto
  ultimately show ?thesis using once by blast
qed

lemma maintain_retries:
  assumes "\<And>d. \<exists>d'. device_up ops d = (Inr (), d')" and "\<And>d. \<exists>d'. device_down ops d = (Inr (), d')"
    and "list_all undisturbed rs" and "list_all (\<lambda>r. connect_end r = Returned \<longrightarrow> (\<forall>u. subscribe_end r u = Returned)) rs"
  shows "\<exists>s'. maintain_from ops cfg rs k s = (Running, s') \<and> waits (events s') = waits (events s) @ backoffs cfg rs k"
  using assms(3,4)
proof (induction rs arbitrary: k s)
  case (Cons r rs)
  have r: "undisturbed r" "connect_end r = Returned \<Longrightarrow> \<forall>u. subscribe_end r u = Returned" using Cons.prems by simp_all
  obtain s1 where once: "attempt_once ops (poll_interval cfg) r s = (connect_end r = Returned, Returned, s1)"
      "waits (events s1) = waits (events s)"
    using attempt_undisturbed [OF assms(1,2) r] by blast
  have again: "\<exists>s'. maintain_from ops cfg rs k s = (Running, s') \<and> waits (events s') = waits (events s) @ backoffs cfg rs k" for k s
    using Cons by simp
  show ?case
  proof (cases "connect_end r = Returned")
    case True
    with again [of 0 s1] once r(1) show ?thesis by (simp add: undisturbed_def)
  next
    case False
    let ?w = "backoff_seconds (k + 1) (base_backoff cfg) (max_backoff cfg) (jitter cfg) (rand_source r)"
    from again [of "k + 1" "emit (Retrying ?w) s1"] False once r(1) show ?thesis
      by (simp add: undisturbed_def Let_def)
  qed
qed simp



definition attempt_ending :: "ending \<Rightarrow> round" where
  "attempt_ending e =
     \<lparr>stop_before = False, client_made = Inr (), lock_end = Returned, connect_end = e, subscribe_end = (\<lambda>_. Returned),
      ticks = [\<lparr>stop_seen = False, linked = False, write_end = Returned, served = [], sleep_end = Returned\<rparr>],
      still_linked = False, disconnect_end = Returned, stop_after = False, rand_source = (\<lambda>a b. 0), backoff_end = Returned\<rparr>"


subsection \<open>The link is judged once a minute\<close>

text \<open>The test in binary64 is the exact one, for any number of frames there can be.\<close>

lemma link_slow_iff:
  assumes "good + bad < 1099511627776"
  shows "link_slow (good, bad) \<longleftrightarrow> 20 \<le> good + bad \<and> 10 * good < 3 * (good + bad)"
proof -
  let ?n = "good + bad"
  let ?q = "of_nat ?n * MIN_ACCEPT_RATIO :: rat"
  have ratio: "MIN_ACCEPT_RATIO = 5404319552844595 / 18014398509481984"
    unfolding MIN_ACCEPT_RATIO_def by code_simp
  have a: "int good < 1099511627776" using assms by linarith
  have "of_nat good \<ge> fl ?q" if "\<not> 10 * good < 3 * ?n"
  proof -
    have "3 * ?n \<le> 10 * good" using that by linarith
    then have "(of_nat (3 * ?n) :: rat) \<le> of_nat (10 * good)" by (simp only: of_nat_le_iff)
    then have "(3 :: rat) * of_nat ?n \<le> 10 * of_nat good" by simp
    then have "?q \<le> of_int (int good)" by (simp add: ratio)
    then show ?thesis using a fl_le_int [of ?q "int good"] by simp
  qed
  moreover have "of_nat good < fl ?q" if "10 * good < 3 * ?n"
  proof -
    have "10 * good + 1 \<le> 3 * ?n" using that by linarith
    then have "(of_nat (10 * good + 1) :: rat) \<le> of_nat (3 * ?n)" by (simp only: of_nat_le_iff)
    then have "(10 :: rat) * of_nat good + 1 \<le> 3 * of_nat ?n" by simp
    moreover have "(of_nat ?n :: rat) < of_nat 1099511627776" using assms by (simp only: of_nat_less_iff)
    ultimately have "of_nat good + 1/16 \<le> ?q" by (simp add: ratio)
    moreover have sixteenth: "of_int (16 * int good + 1) * 2 powi (- 4) = (of_nat good + 1/16 :: rat)"
      by (simp add: power_int_minus field_simps)
    ultimately have "fl (of_int (16 * int good + 1) * 2 powi (- 4)) \<le> fl ?q"
      by (intro fl_mono) simp
    moreover have "fl (of_int (16 * int good + 1) * 2 powi (- 4)) = of_int (16 * int good + 1) * 2 powi (- 4)"
      using a by (intro fl_exact) simp_all
    ultimately show ?thesis unfolding sixteenth by linarith
  qed
  ultimately have "fl ?q \<le> of_nat good \<longleftrightarrow> \<not> 10 * good < 3 * ?n" by (meson not_le)
  then show ?thesis by (simp only: link_slow_def Let_def prod.case MIN_FRAMES_TO_JUDGE_def) linarith
qed

text \<open>A pass in which the link is up and nothing fails.\<close>

definition calm :: "tick \<Rightarrow> bool" where
  "calm t \<longleftrightarrow> \<not> stop_seen t \<and> linked t \<and> write_end t = Returned \<and> sleep_end t = Returned"

definition health_checks :: "ble_event list \<Rightarrow> nat" where
  "health_checks es = length (filter (\<lambda>ev. ev = AskHealth) es)"

lemma health_checks_simps [simp]:
  "health_checks [] = 0" "health_checks (es @ fs) = health_checks es + health_checks fs"
  "health_checks (ev # es) = (if ev = AskHealth then 1 else 0) + health_checks es"
  by (simp_all add: health_checks_def)

lemma calm_tick:
  assumes "calm t" and "\<And>d. \<exists>r d'. poll_payload ops d = (Inr r, d')"
  shows "\<exists>s'. hold_tick ops interval t s = (Inr (), s') \<and> health_checks (events s') = health_checks (events s)"
proof -
  obtain r d where "poll_payload ops (dev s) = (Inr r, d)" using assms(2) by blast
  with assms(1) show ?thesis
    by (cases r) (auto simp: hold_tick_def calm_def Let_def)
qed

lemma hold_calm:
  assumes "\<And>d. \<exists>r d'. poll_payload ops d = (Inr r, d')" and "\<And>d. \<exists>r d'. health_of ops d = (Inr r, d')"
    and "\<And>d. interval_of ops d \<noteq> None" and "list_all calm ts" and "k < 60"
  shows "fst (hold ops 1 ts (of_nat k) s) = Running \<and>
    health_checks (events (snd (hold ops 1 ts (of_nat k) s))) = health_checks (events s) + (k + length ts) div 60"
  using assms(4,5)
proof (induction ts arbitrary: k s)
  case (Cons t ts)
  obtain s1 where tick: "hold_tick ops 1 t s = (Inr (), s1)" "health_checks (events s1) = health_checks (events s)"
    using calm_tick [of t ops 1 s] assms(1) Cons.prems(1) by auto
  obtain low high where iv: "interval_of ops (dev s1) = Some (low, high)" using assms(3) by fastforce
  obtain r d where h: "health_of ops (dev s1) = (Inr r, d)" using assms(2) by blast
  obtain s2 where verify: "verify_link ops s1 = (Returned, s2)" "health_checks (events s2) = health_checks (events s1) + 1"
    using iv h by (cases r) (auto simp: verify_link_def)
  have "calm t" and calm_ts: "list_all calm ts" using Cons.prems(1) by simp_all
  then have calm: "\<not> stop_seen t" "linked t" by (simp_all add: calm_def)
  have since: "fl (of_nat k + 1) = of_nat (Suc k)" using fl_of_int [of "int (Suc k)"] Cons.prems(2) by (simp add: add.commute)
  show ?case
  proof (cases "Suc k = 60")
    case True
    then have "hold ops 1 (t # ts) (of_nat k) s = hold ops 1 ts (of_nat 0) s2"
      using calm tick verify since by (simp add: VERIFY_SECONDS_def Let_def)
    moreover have "(k + length (t # ts)) div 60 = length ts div 60 + 1" using True by simp
    ultimately show ?thesis using Cons.IH [OF calm_ts, of 0 s2] verify tick by simp
  next
    case False
    then have "(of_nat (Suc k) :: rat) < 60" using Cons.prems(2) by (metis Suc_lessI of_nat_less_iff of_nat_numeral)
    then have "hold ops 1 (t # ts) (of_nat k) s = hold ops 1 ts (of_nat (Suc k)) s1"
      using calm tick since by (simp add: VERIFY_SECONDS_def Let_def)
    then show ?thesis using Cons.IH [OF calm_ts, of "Suc k" s1] tick False Cons.prems(2) by simp
  qed
qed simp


text \<open>
  C39: a slow link is noticed within a minute of being held: while the link is up and nothing
  fails, \<open>_hold\<close> runs on and asks for the frame counts once in 60 seconds; and the interval is
  asserted again exactly when, of at least 20 frames, fewer than 30 percent were accepted,
  also where the binary rounding of the ratio could have decided otherwise.
\<close>

theorem slow_link_noticed:
  assumes "\<And>d. \<exists>r d'. poll_payload ops d = (Inr r, d')" and "\<And>d. \<exists>r d'. health_of ops d = (Inr r, d')"
    and "\<And>d. interval_of ops d = Some (low, high)" and "list_all calm ts"
    and "health_of ops (dev z) = (Inr (Some (good, bad)), d)" and "good + bad < 1099511627776"
  shows "fst (hold ops 1 ts 0 s) = Running \<and>
    health_checks (events (snd (hold ops 1 ts 0 s))) = health_checks (events s) + length ts div 60 \<and>
    events (snd (verify_link ops z)) = events z @ AskHealth #
      (if 20 \<le> good + bad \<and> 10 * good < 3 * (good + bad) then [SetInterval low high] else [])"
proof -
  have "interval_of ops d \<noteq> None" for d using assms(3) by simp
  from hold_calm [OF assms(1,2) this assms(4), of 0 s] assms(3,5) link_slow_iff [OF assms(6)] show ?thesis
    by (simp add: verify_link_def)
qed

theorem slow_link_noticed_witness:
  "fst (hold (mute_device\<lparr>interval_of := (\<lambda>_. Some (7, 30)), health_of := ret (Some (5, 15))\<rparr>) 1
      (replicate 125 \<lparr>stop_seen = False, linked = True, write_end = Returned, served = [], sleep_end = Returned\<rparr>) 0
      \<lparr>dev = (), events = []\<rparr>) = Running \<and>
   health_checks (events (snd (hold (mute_device\<lparr>interval_of := (\<lambda>_. Some (7, 30)), health_of := ret (Some (5, 15))\<rparr>) 1
      (replicate 125 \<lparr>stop_seen = False, linked = True, write_end = Returned, served = [], sleep_end = Returned\<rparr>) 0
      \<lparr>dev = (), events = []\<rparr>))) = 2"
proof -
  let ?ops = "mute_device\<lparr>interval_of := (\<lambda>_. Some (7, 30)), health_of := ret (Some (5, 15))\<rparr>"
  let ?ts = "replicate 125 \<lparr>stop_seen = False, linked = True, write_end = Returned, served = [], sleep_end = Returned\<rparr>"
  have "list_all calm ?ts" by (simp add: calm_def list_all_iff)
  then show ?thesis
    using slow_link_noticed [of ?ops 7 30 ?ts "\<lparr>dev = (), events = []\<rparr>" 5 15 "()" "\<lparr>dev = (), events = []\<rparr>"]
    by (simp add: mute_device_def poll_payload_def pym_simps)
qed


subsection \<open>Every plugin meets the transport's contract\<close>

definition plugin_side :: "('u \<Rightarrow> bool) \<Rightarrow> 'u \<times> 'l \<times> device \<Rightarrow> bool" where
  "plugin_side util_inv = (\<lambda>(u, l, d). util_inv u \<and> wf_device d)"

definition offline_device :: "'u \<times> 'l \<times> device \<Rightarrow> bool" where
  "offline_device = (\<lambda>(u, l, d). \<not> connected d)"

lemma plugin_side_on_plugin:
  fixes f :: "('u, 'a) util" and util_inv :: "'u \<Rightarrow> bool"
  assumes "preserves (keeps util_inv) f" shows "preserves (plugin_side util_inv) (on_plugin f)"
proof (rule preservesI)
  fix s :: "'u \<times> 'l \<times> device"
  assume s: "plugin_side util_inv s"
  obtain u l d where p: "s = (u, l, d)" by (rule prod_cases3)
  obtain r u' d' where run: "f (u, d) = (r, u', d')" by (rule prod_cases3)
  have "keeps util_inv (u, d)" using s p by (simp add: plugin_side_def keeps_def)
  then have "keeps util_inv (u', d')" using preservesD2 [OF assms _ run] by simp
  with p run show "plugin_side util_inv (snd (on_plugin f s))"
    by (simp add: on_plugin_def plugin_side_def keeps_def)
qed

definition logger_side :: "'l \<times> device \<Rightarrow> bool" where
  "logger_side = (\<lambda>(l, d). wf_device d)"

lemma plugin_side_on_logger:
  fixes f :: "('l, 'a) util" and util_inv :: "'u \<Rightarrow> bool"
  assumes "preserves logger_side f" shows "preserves (plugin_side util_inv) (on_logger f)"
proof (rule preservesI)
  fix s :: "'u \<times> 'l \<times> device"
  assume s: "plugin_side util_inv s"
  obtain u l d where p: "s = (u, l, d)" by (rule prod_cases3)
  obtain r l' d' where run: "f (l, d) = (r, l', d')" by (rule prod_cases3)
  have "logger_side (l', d')" using preservesD2 [OF assms _ run] s p by (simp add: plugin_side_def logger_side_def)
  with p run s show "plugin_side util_inv (snd (on_logger f s))"
    by (simp add: on_logger_def plugin_side_def logger_side_def)
qed

lemma logger_side_call: "preserves logger_side (on_util f)"
  by (auto simp: preserves_def on_util_def logger_side_def split: prod.split)

lemma logger_side_connected: "preserves logger_side (on_device (modify (\<lambda>d. d\<lparr>connected := b\<rparr>)))"
  by (auto simp: preserves_def on_device_def logger_side_def modify_def wf_device_def)

lemma logger_side_up:
  fixes dl :: "(dl_call \<Rightarrow> ('l, unit) pym) option"
  shows "preserves logger_side (on_connected dl)"
proof -
  have calls: "preserves logger_side (silently (block [on_util f, on_util g]))" for f g :: "('l, unit) pym"
    unfolding silently_def by (intro preserves_try preserves_block preserves_ret) (auto intro: logger_side_call)
  have up: "preserves logger_side (on_device (modify (\<lambda>d. d\<lparr>connected := True\<rparr>)) :: ('l, unit) util)"
    by (rule logger_side_connected)
  show ?thesis
  proof (cases dl)
    case None
    show ?thesis unfolding on_connected_def None option.case
      by (rule preserves_block) (auto intro: up preserves_ret simp del: block.simps)
  next
    case (Some c)
    show ?thesis unfolding on_connected_def Some option.case
      by (rule preserves_block) (auto intro!: up calls preserves_bind preserves_gets simp del: block.simps)
  qed
qed

lemma down_returns:
  "\<exists>l'. on_disconnected dl (l, d) = (Inr (), (l', d\<lparr>connected := False\<rparr>))"
proof (cases dl)
  case None
  then show ?thesis by (simp add: on_disconnected_def on_device_def pym_simps)
next
  case (Some call)
  obtain r l' where run: "call (SetAvailable (logger_name d) False) l = (r, l')" by (rule prod.exhaust)
  then show ?thesis
    using Some by (cases r) (simp_all add: on_disconnected_def silently_def on_util_def on_device_def pym_simps)
qed

lemma plugin_transport:
  fixes p :: "'u plugin" and dl :: "(dl_call \<Rightarrow> ('l, unit) pym) option"
  assumes p: "plugin_contract p util_inv" and h: "\<And>f. health = Some f \<Longrightarrow> preserves util_inv f"
  shows "transport_contract (solar_device p health dl) event_ok (plugin_side util_inv) offline_device"
proof unfold_locales
  show "preserves (plugin_side util_inv) (device_up (solar_device p health dl))"
    by (simp add: solar_device_def plugin_side_on_logger logger_side_up)
  show "preserves (plugin_side util_inv) (poll_data (solar_device p health dl))"
    using plugin_contract.poll_keeps [OF p] by (simp add: solar_device_def get_poll_data_def plugin_side_on_plugin)
  have "preserves (keeps util_inv) (on_util (bind f (\<lambda>x. ret (Some x))))" if "health = Some f" for f
  proof (rule preservesI)
    fix s assume s: "keeps util_inv s"
    obtain u d where ud: "s = (u, d)" by (rule prod.exhaust)
    obtain r u' where run: "f u = (r, u')" by (rule prod.exhaust)
    then have "util_inv u'" using preservesD2 [OF h [OF that] _ run] s ud by (simp add: keeps_def)
    then show "keeps util_inv (snd (on_util (bind f (\<lambda>x. ret (Some x))) s))"
      using s ud run by (cases r) (simp_all add: on_util_def keeps_def pym_simps)
  qed
  then show "preserves (plugin_side util_inv) (health_of (solar_device p health dl))"
    by (auto simp: solar_device_def plugin_side_on_plugin preserves_ret split: option.split)
  show "preserves (plugin_side util_inv) (callback (solar_device p health dl) e)" if "event_ok e" for e
  proof -
    have "preserves (keeps util_inv) (serve_callback p e)"
      using that plugin_contract.notify_keeps [OF p] plugin_contract.command_keeps [OF p]
      by (cases e) (auto simp: submit_command_def intro!: preserves_try preserves_ret)
    then show ?thesis by (simp add: solar_device_def plugin_side_on_plugin)
  qed
  fix s :: "'u \<times> 'l \<times> device"
  assume s: "plugin_side util_inv s"
  obtain u l d where ud: "s = (u, l, d)" by (rule prod_cases3)
  obtain l' where "on_disconnected dl (l, d) = (Inr (), (l', d\<lparr>connected := False\<rparr>))" using down_returns [of dl l d] by auto
  with s ud show "\<exists>d'. device_down (solar_device p health dl) s = (Inr (), d') \<and> plugin_side util_inv d' \<and> offline_device d'"
    by (simp add: solar_device_def on_logger_def plugin_side_def offline_device_def wf_device_def)
qed


text \<open>The device as its task leaves it, or has it so far.\<close>

definition maintained :: "'u plugin \<Rightarrow> ('u, nat \<times> nat) pym option \<Rightarrow> (dl_call \<Rightarrow> ('l, unit) pym) option \<Rightarrow> settings \<Rightarrow>
    round list \<Rightarrow> 'u \<times> 'l \<times> device \<Rightarrow> device" where
  "maintained p health dl cfg rs s =
     snd (snd (dev (snd (maintain_device (solar_device p health dl) cfg rs \<lparr>dev = s, events = []\<rparr>))))"

lemma maintained_keeps:
  assumes "plugin_contract p util_inv" and "\<And>f. health = Some f \<Longrightarrow> preserves util_inv f"
    and "util_inv u" and "wf_device d" and "\<not> connected d" and "rounds_serve event_ok rs"
  shows "wf_device (maintained p health dl cfg rs (u, l, d))"
proof -
  let ?s = "\<lparr>dev = (u, l, d), events = []\<rparr>"
  obtain e s' where run: "maintain_from (solar_device p health dl) cfg rs 0 ?s = (e, s')" by (rule prod.exhaust)
  have "plugin_side util_inv (dev s')"
    using transport_contract.maintain_offline [OF plugin_transport [OF assms(1,2)] _ _ run] assms(3-6)
    by (simp add: plugin_side_def offline_device_def)
  then show ?thesis
    using run by (simp add: maintained_def maintain_device_def plugin_side_def case_prod_beta)
qed

end
