(* ===== verification/Monitor.thy ===== *)
theory Monitor
  imports Ble
begin

section \<open>monitor_app.py: the main program\<close>

text \<open>
  \<open>load_config\<close>, the start of \<open>main\<close> up to the watchdog, \<open>_register\<close> and the late discovery
  loop. The environment is the record \<open>world\<close>: what reading the ini file gives, the answers
  of the datalogger's sinks, a scan (bleak), the constructor of a device (theory \<open>Device\<close>,
  with the plugin that the section's \<open>type\<close> names), and the manager's event loop. Arguments
  are parsed, logging is set up and the manager's thread started without an error. The
  theorems: after start-up exactly the devices that are configured, found and constructible
  are registered, expected by the watchdog and have a task; a later scan adds exactly those
  it makes ready; every configured device is shown offline until it connects.
\<close>

subsection \<open>The configuration\<close>

datatype read_result = Parsed config | Unparsable | Missing

text \<open>\<open>config.set\<close>, \<open>has_section\<close> and \<open>getboolean\<close>\<close>

fun cfg_set :: "config \<Rightarrow> string \<Rightarrow> string \<Rightarrow> string \<Rightarrow> config" where
  "cfg_set [] section option v = []"
| "cfg_set ((s, opts) # cfg) section option v =
     (if s = section then (s, (option, v) # filter (\<lambda>(k, _). k \<noteq> option) opts) # cfg
      else (s, opts) # cfg_set cfg section option v)"

definition has_section :: "config \<Rightarrow> string \<Rightarrow> bool" where
  "has_section cfg section \<longleftrightarrow> map_of cfg section \<noteq> None"

definition boolean_of :: "string \<Rightarrow> py_error + bool" where
  "boolean_of s =
     (let v = lower s in
      if v \<in> {''1'', ''yes'', ''true'', ''on''} then Inr True
      else if v \<in> {''0'', ''no'', ''false'', ''off''} then Inr False
      else Inl ValueError)"

definition cfg_bool :: "config \<Rightarrow> string \<Rightarrow> string \<Rightarrow> bool \<Rightarrow> py_error + bool" where
  "cfg_bool cfg section option dflt =
     (case cfg_get cfg section option of None \<Rightarrow> Inr dflt | Some s \<Rightarrow> boolean_of s)"

text \<open>\<open>None\<close> is the \<open>ConfigError\<close>.\<close>

definition load_config :: "read_result \<Rightarrow> string option \<Rightarrow> bool \<Rightarrow> config option" where
  "load_config read adapter debug =
     (case read of
        Unparsable \<Rightarrow> None
      | Missing \<Rightarrow> None
      | Parsed cfg \<Rightarrow>
          if \<not> has_section cfg ''monitor'' then None
          else
            (let cfg1 = (case truthy adapter of None \<Rightarrow> cfg | Some a \<Rightarrow> cfg_set cfg ''monitor'' ''adapter'' a)
             in Some (if debug then cfg_set cfg1 ''monitor'' ''debug'' ''1'' else cfg1)))"

text \<open>The sections with a \<open>mac\<close> and a \<open>type\<close>, each with its address in lower case.\<close>

definition configured_devices :: "config \<Rightarrow> (string \<times> string) list" where
  "configured_devices cfg =
     concat (map (\<lambda>(section, opts).
       case (truthy (cfg_get cfg section ''mac''), truthy (cfg_get cfg section ''type'')) of
         (Some mac, Some _) \<Rightarrow> [(section, lower mac)]
       | _ \<Rightarrow> []) cfg)"

definition discovery_complete :: "int list \<Rightarrow> nat \<Rightarrow> py_error + bool" where
  "discovery_complete found window =
     (if length found \<le> window then Inr False
      else case py_get found (- 1) of
        Inl e \<Rightarrow> Inl e
      | Inr now \<Rightarrow> (case py_get found (- 1 - int window) of Inl e \<Rightarrow> Inl e | Inr before \<Rightarrow> Inr (now = before)))"

subsection \<open>Registering a device\<close>

type_synonym scan = "string \<rightharpoonup> string"

record world =
  ini :: read_result
  arg_adapter :: "string option"
  arg_debug :: bool
  mqtt_connect :: "mqtt_settings \<Rightarrow> py_error + unit"
  hostname :: string
  outlets :: sinks
  make_device :: "string \<Rightarrow> string \<Rightarrow> py_error + device"
  first_scan :: "py_error + scan"
  loop_reply :: "string list \<Rightarrow> string \<Rightarrow> py_error + unit"

record app =
  devices :: "(string \<times> device) list"
  tasks :: "string list"
  expected :: tracker
  dlog :: datalogger
  trusts :: "(string \<times> bool) list"

definition on_dlog :: "(datalogger, 'a) pym \<Rightarrow> (app, 'a) pym" where
  "on_dlog f = (\<lambda>a. case f (dlog a) of (r, l) \<Rightarrow> (r, a\<lparr>dlog := l\<rparr>))"

text \<open>\<open>BleManager.register\<close>: one task for each address.\<close>

definition register_task :: "world \<Rightarrow> string \<Rightarrow> (app, unit) pym" where
  "register_task w mac = (\<lambda>a.
     case loop_reply w (tasks a) mac of
       Inl e \<Rightarrow> (Inl e, a)
     | Inr _ \<Rightarrow> (Inr (), if mac \<in> set (tasks a) then a else a\<lparr>tasks := tasks a @ [mac]\<rparr>))"

definition register_device :: "world \<Rightarrow> config \<Rightarrow> scan \<Rightarrow> rat \<Rightarrow> string \<Rightarrow> (app, bool) pym" where
  "register_device w cfg discovered now section = (\<lambda>a.
     if section \<in> fst ` set (devices a) then (Inr False, a)
     else case map_of (configured_devices cfg) section of
       None \<Rightarrow> (Inl KeyError, a)
     | Some mac \<Rightarrow>
         (case discovered mac of
            None \<Rightarrow> (Inr False, a)
          | Some name \<Rightarrow>
              (case make_device w section mac of
                 Inl _ \<Rightarrow> (Inr False, a)
               | Inr d0 \<Rightarrow>
                   (let d = snd (set_alias (Some name) d0) in
                    bind (lift (cfg_bool cfg section ''trusted'' (need_polling d))) (\<lambda>trusted.
                    bind (block
                      [modify (\<lambda>a. a\<lparr>trusts := trusts a @ [(mac, trusted)]\<rparr>),
                       modify (\<lambda>a. a\<lparr>devices := devices a @ [(section, d)]\<rparr>),
                       modify (\<lambda>a. a\<lparr>expected := expect section now (expected a)\<rparr>),
                       on_dlog (dl_set_available (outlets w) section False),
                       register_task w mac]) (\<lambda>_. ret True)) a))))"

definition register_each :: "world \<Rightarrow> config \<Rightarrow> scan \<Rightarrow> rat \<Rightarrow> string list \<Rightarrow> (app, unit) pym" where
  "register_each w cfg discovered now sections =
     block (map (\<lambda>section. bind (register_device w cfg discovered now section) (\<lambda>_. ret ())) sections)"

subsection \<open>Start-up, and late discovery\<close>

datatype startup = Exits int | Escapes py_error | Supervising config app

definition mark_offline :: "world \<Rightarrow> string list \<Rightarrow> (app, unit) pym" where
  "mark_offline w sections = block (map (\<lambda>section. on_dlog (dl_set_available (outlets w) section False)) sections)"

definition start :: "world \<Rightarrow> rat \<Rightarrow> startup" where
  "start w now =
     (case load_config (ini w) (arg_adapter w) (arg_debug w) of
        None \<Rightarrow> Exits 1
      | Some cfg \<Rightarrow>
          (case cfg_bool cfg ''monitor'' ''debug'' False of
             Inl e \<Rightarrow> Escapes e
           | Inr _ \<Rightarrow>
               (case new_datalogger (mqtt_connect w) (hostname w) cfg of
                  Inl _ \<Rightarrow> Exits 1
                | Inr l \<Rightarrow>
                    (let sections = map fst (configured_devices cfg) in
                     case mark_offline w sections
                         \<lparr>devices = [], tasks = [], expected = [], dlog = l, trusts = []\<rparr> of
                       (Inl e, _) \<Rightarrow> Escapes e
                     | (Inr _, a1) \<Rightarrow>
                         (case first_scan w of
                            Inl e \<Rightarrow> Escapes e
                          | Inr found \<Rightarrow>
                              (case register_each w cfg found now sections a1 of
                                 (Inl e, _) \<Rightarrow> Escapes e
                               | (Inr _, a2) \<Rightarrow> if devices a2 = [] then Exits 1 else Supervising cfg a2))))))"

text \<open>One pass of \<open>_late_discovery_loop\<close>; an error of the scan is logged.\<close>

definition late_pass :: "world \<Rightarrow> config \<Rightarrow> py_error + scan \<Rightarrow> rat \<Rightarrow> (app, unit) pym" where
  "late_pass w cfg scanned now = (\<lambda>a.
     let missing = filter (\<lambda>s. s \<notin> fst ` set (devices a)) (map fst (configured_devices cfg)) in
     if missing = [] then (Inr (), a)
     else case scanned of
       Inl _ \<Rightarrow> (Inr (), a)
     | Inr found \<Rightarrow> register_each w cfg found now missing a)"

datatype main_end = Exited int | Raised py_error | StillRunning

definition main :: "world \<Rightarrow> rat \<Rightarrow> watch list \<Rightarrow> main_end" where
  "main w now watches =
     (case start w now of
        Exits n \<Rightarrow> Exited n
      | Escapes e \<Rightarrow> Raised e
      | Supervising cfg a \<Rightarrow>
          (case fst (supervise 600 watches 0 0) of None \<Rightarrow> StillRunning | Some n \<Rightarrow> Exited n))"


subsection \<open>Exactly the ready devices are registered\<close>

definition ready :: "world \<Rightarrow> config \<Rightarrow> scan \<Rightarrow> string \<Rightarrow> bool" where
  "ready w cfg found s \<longleftrightarrow>
     (\<exists>mac name d. map_of (configured_devices cfg) s = Some mac \<and> found mac = Some name \<and> make_device w s mac = Inr d)"

definition names :: "app \<Rightarrow> string set" where
  "names a = fst ` set (devices a)"

text \<open>
  Every registered device is configured, the watchdog expects it, and its address has a
  task; no section is registered twice and no address has two tasks.
\<close>

definition app_inv :: "config \<Rightarrow> app \<Rightarrow> bool" where
  "app_inv cfg a \<longleftrightarrow>
     (\<forall>s \<in> names a. s \<in> fst ` set (expected a) \<and>
        (\<exists>mac. map_of (configured_devices cfg) s = Some mac \<and> mac \<in> set (tasks a))) \<and>
     distinct (map fst (devices a)) \<and> distinct (tasks a)"

lemma fst_expect: "fst ` set (expect n x t) = insert n (fst ` set t)"
  by (auto simp: expect_def)

lemma register_task_runs:
  "register_task w mac a = (Inr x, a') \<Longrightarrow>
     devices a' = devices a \<and> expected a' = expected a \<and> dlog a' = dlog a \<and>
     set (tasks a') = insert mac (set (tasks a)) \<and> (distinct (tasks a) \<longrightarrow> distinct (tasks a'))"
  by (auto simp: register_task_def split: sum.splits if_splits)

lemma on_dlog_runs: "on_dlog f a = (r, a') \<Longrightarrow> f (dlog a) = (r, dlog a') \<and>
    devices a' = devices a \<and> expected a' = expected a \<and> tasks a' = tasks a"
  by (auto simp: on_dlog_def split: prod.splits)

lemma register_runs:
  assumes "register_device w cfg found now s a = (Inr b, a')"
  shows "a' = a \<and> (\<not> ready w cfg found s \<or> s \<in> names a) \<or>
    (\<exists>mac d l a2. s \<notin> names a \<and> ready w cfg found s \<and> map_of (configured_devices cfg) s = Some mac \<and>
       devices a2 = devices a @ [(s, d)] \<and> expected a2 = expect s now (expected a) \<and> tasks a2 = tasks a \<and>
       dl_set_available (outlets w) s False (dlog a) = (Inr (), l) \<and> dlog a2 = l \<and>
       register_task w mac a2 = (Inr (), a'))"
proof (cases "s \<in> names a \<or> \<not> ready w cfg found s")
  case True
  then show ?thesis
    using assms unfolding register_device_def ready_def names_def
    by (auto split: option.splits sum.splits if_splits)
next
  case False
  then obtain mac name d0 where dev: "map_of (configured_devices cfg) s = Some mac" "found mac = Some name"
      "make_device w s mac = Inr d0" "s \<notin> fst ` set (devices a)"
    by (auto simp: ready_def names_def)
  let ?d = "snd (set_alias (Some name) d0)"
  obtain trusted where t: "cfg_bool cfg s ''trusted'' (need_polling ?d) = Inr trusted"
    using assms dev by (cases "cfg_bool cfg s ''trusted'' (need_polling ?d)") (simp_all add: register_device_def Let_def pym_simps)
  let ?a1 = "a\<lparr>trusts := trusts a @ [(mac, trusted)], devices := devices a @ [(s, ?d)], expected := expect s now (expected a)\<rparr>"
  obtain r l where avail: "dl_set_available (outlets w) s False (dlog a) = (r, l)" by (rule prod.exhaust)
  have run: "register_device w cfg found now s a =
      bind (block [on_dlog (dl_set_available (outlets w) s False), register_task w mac]) (\<lambda>_. ret True) ?a1"
    using dev t by (simp add: register_device_def Let_def pym_simps)
  have r: "r = Inr ()" using assms unfolding run by (cases r) (simp_all add: on_dlog_def avail pym_simps)
  obtain r2 a2 where task: "register_task w mac (?a1\<lparr>dlog := l\<rparr>) = (r2, a2)" by (rule prod.exhaust)
  have "r2 = Inr ()" "a2 = a'"
    using assms unfolding run by (cases r2; simp add: on_dlog_def avail r task pym_simps)+
  with task have "register_task w mac (?a1\<lparr>dlog := l\<rparr>) = (Inr (), a')" by simp
  with False dev avail r show ?thesis
    by (intro disjI2 exI [of _ mac] exI [of _ ?d] exI [of _ l] exI [of _ "?a1\<lparr>dlog := l\<rparr>"]) (simp add: names_def)
qed

lemma register_keeps:
  assumes "app_inv cfg a" and "register_device w cfg found now s a = (Inr b, a')"
  shows "app_inv cfg a' \<and> names a' = names a \<union> {t. t = s \<and> ready w cfg found t}"
  using register_runs [OF assms(2)]
proof (elim disjE exE conjE)
  assume "a' = a" "\<not> ready w cfg found s"
  with assms(1) show ?thesis by auto
next
  assume "a' = a" "s \<in> names a"
  with assms(1) show ?thesis by auto
next
  fix mac d l a2
  assume s: "s \<notin> names a" "ready w cfg found s" and mac: "map_of (configured_devices cfg) s = Some mac"
    and a2: "devices a2 = devices a @ [(s, d)]" "expected a2 = expect s now (expected a)" "tasks a2 = tasks a"
    and task: "register_task w mac a2 = (Inr (), a')"
  note a' = register_task_runs [OF task]
  have n: "names a' = insert s (names a)" using a' a2 by (simp add: names_def)
  have "distinct (map fst (devices a'))" using assms(1) s(1) a' a2 by (simp add: app_inv_def names_def)
  moreover have "distinct (tasks a')" using assms(1) a' a2 by (simp add: app_inv_def)
  moreover have "t \<in> fst ` set (expected a') \<and> (\<exists>mac. map_of (configured_devices cfg) t = Some mac \<and> mac \<in> set (tasks a'))"
    if "t \<in> names a'" for t
    using that assms(1) mac a' a2 unfolding n app_inv_def by (auto simp: fst_expect)
  ultimately have "app_inv cfg a'" by (simp add: app_inv_def)
  with n s(2) show ?thesis by auto
qed

lemma register_each_keeps:
  assumes "app_inv cfg a" and "register_each w cfg found now ss a = (Inr x, a')"
  shows "app_inv cfg a' \<and> names a' = names a \<union> {s \<in> set ss. ready w cfg found s}"
  using assms
proof (induction ss arbitrary: a)
  case Nil
  then show ?case by (simp add: register_each_def pym_simps)
next
  case (Cons s ss)
  obtain r a1 where one: "register_device w cfg found now s a = (r, a1)" by (rule prod.exhaust)
  obtain b where r: "r = Inr b"
    using Cons.prems(2) one by (cases r) (simp_all add: register_each_def pym_simps)
  have rest: "register_each w cfg found now ss a1 = (Inr x, a')"
    using Cons.prems(2) one r by (simp add: register_each_def pym_simps)
  from register_keeps [OF Cons.prems(1) one [unfolded r]]
  have a1: "app_inv cfg a1" "names a1 = names a \<union> {t. t = s \<and> ready w cfg found t}" by auto
  from Cons.IH [OF a1(1) rest] a1(2) show ?case by auto
qed


lemma mark_offline_frame:
  "mark_offline w ss a = (r, a') \<Longrightarrow> devices a' = devices a \<and> tasks a' = tasks a \<and> expected a' = expected a"
proof (induction ss arbitrary: a)
  case Nil
  then show ?case by (simp add: mark_offline_def pym_simps)
next
  case (Cons s ss)
  obtain x a1 where one: "on_dlog (dl_set_available (outlets w) s False) a = (x, a1)" by (rule prod.exhaust)
  have frame: "devices a1 = devices a \<and> tasks a1 = tasks a \<and> expected a1 = expected a" using on_dlog_runs [OF one] by simp
  show ?case
  proof (cases x)
    case (Inl e)
    then show ?thesis using Cons.prems one frame by (simp add: mark_offline_def pym_simps)
  next
    case (Inr u)
    then have "mark_offline w ss a1 = (r, a')" using Cons.prems one by (simp add: mark_offline_def pym_simps)
    from Cons.IH [OF this] frame show ?thesis by simp
  qed
qed

lemma start_supervises:
  assumes "start w now = Supervising cfg a"
  obtains l a1 found where "load_config (ini w) (arg_adapter w) (arg_debug w) = Some cfg"
    "new_datalogger (mqtt_connect w) (hostname w) cfg = Inr l" "first_scan w = Inr found"
    "mark_offline w (map fst (configured_devices cfg)) \<lparr>devices = [], tasks = [], expected = [], dlog = l, trusts = []\<rparr> = (Inr (), a1)"
    "register_each w cfg found now (map fst (configured_devices cfg)) a1 = (Inr (), a)" "devices a \<noteq> []"
  using assms
  by (auto simp: start_def Let_def split: option.splits sum.splits prod.splits if_splits)

lemma ready_configured: "ready w cfg found s \<Longrightarrow> s \<in> fst ` set (configured_devices cfg)"
  by (auto simp: ready_def dest: map_of_SomeD intro: rev_image_eqI)

lemma start_names:
  assumes "start w now = Supervising cfg a" and "first_scan w = Inr found"
  shows "app_inv cfg a \<and> names a = {s. ready w cfg found s} \<and> names a \<noteq> {}"
proof -
  obtain l a1 found' where "load_config (ini w) (arg_adapter w) (arg_debug w) = Some cfg"
      "new_datalogger (mqtt_connect w) (hostname w) cfg = Inr l" "first_scan w = Inr found'"
      and one: "mark_offline w (map fst (configured_devices cfg)) \<lparr>devices = [], tasks = [], expected = [], dlog = l, trusts = []\<rparr> = (Inr (), a1)"
      "register_each w cfg found' now (map fst (configured_devices cfg)) a1 = (Inr (), a)" "devices a \<noteq> []"
    by (rule start_supervises [OF assms(1)])
  then have found: "found' = found" using assms(2) by simp
  have a1: "devices a1 = []" "tasks a1 = []" using mark_offline_frame [OF one(1)] by simp_all
  then have inv: "app_inv cfg a1" "names a1 = {}" by (simp_all add: app_inv_def names_def)
  have "{s \<in> set (map fst (configured_devices cfg)). ready w cfg found s} = {s. ready w cfg found s}"
    using ready_configured by auto
  moreover have "names a \<noteq> {}" using one(3) by (simp add: names_def)
  ultimately show ?thesis using register_each_keeps [OF inv(1) one(2)] inv(2) unfolding found by simp
qed

lemma late_keeps:
  assumes "app_inv cfg a" and "late_pass w cfg scanned now a = (Inr (), a')"
  shows "app_inv cfg a' \<and> (case scanned of Inl _ \<Rightarrow> a' = a | Inr found \<Rightarrow> names a' = names a \<union> {s. ready w cfg found s})"
proof -
  let ?missing = "filter (\<lambda>s. s \<notin> fst ` set (devices a)) (map fst (configured_devices cfg))"
  have all_in: "s \<in> names a \<union> set ?missing" if "ready w cfg found s" for found s
    using ready_configured [OF that] by (auto simp: names_def)
  show ?thesis
  proof (cases "?missing = []")
    case True
    then have "a' = a" using assms(2) by (simp add: late_pass_def Let_def)
    moreover have "{s. ready w cfg found s} \<subseteq> names a" for found using all_in True by (metis (no_types, lifting) Un_empty_right list.set(1) mem_Collect_eq subsetI)
    ultimately show ?thesis using assms(1) by (auto split: sum.split)
  next
    case False
    show ?thesis
    proof (cases scanned)
      case (Inl e)
      then show ?thesis using assms False by (simp add: late_pass_def Let_def)
    next
      case (Inr found)
      then have "register_each w cfg found now ?missing a = (Inr (), a')"
        using assms(2) False by (simp only: late_pass_def Let_def if_False sum.case)
      from register_each_keeps [OF assms(1) this] show ?thesis using all_in [of found] Inr by auto
    qed
  qed
qed

text \<open>The states of a running program: readings come in, the datalogger logs, scans go on.\<close>

inductive running :: "world \<Rightarrow> config \<Rightarrow> app \<Rightarrow> bool" for w cfg where
  begun: "start w now = Supervising cfg a \<Longrightarrow> running w cfg a"
| reported: "running w cfg a \<Longrightarrow> running w cfg (a\<lparr>expected := record_time name t (expected a)\<rparr>)"
| logged: "running w cfg a \<Longrightarrow> running w cfg (a\<lparr>dlog := l\<rparr>)"
| scanned: "running w cfg a \<Longrightarrow> late_pass w cfg found now a = (Inr (), a') \<Longrightarrow> running w cfg a'"

lemma running_inv: "running w cfg a \<Longrightarrow> app_inv cfg a"
proof (induction rule: running.induct)
  case (begun now a)
  then obtain found where "first_scan w = Inr found" by (rule start_supervises)
  with start_names [OF begun] show ?case by simp
next
  case (reported a name t)
  then show ?case by (auto simp: app_inv_def names_def fst_record_time)
next
  case (logged a l)
  then show ?case by (simp add: app_inv_def names_def)
next
  case (scanned a found now a')
  then show ?case using late_keeps by blast
qed

text \<open>
  while the program runs, every registered device is one of the configuration, its address
  has a task of the manager, and the watchdog expects it; no section is registered twice, and
  no address is connected to by two tasks.
\<close>

theorem registered_devices_have_tasks:
  assumes "running w cfg a"
  shows "(\<forall>s \<in> fst ` set (devices a). s \<in> fst ` set (expected a) \<and>
      (\<exists>mac. map_of (configured_devices cfg) s = Some mac \<and> mac \<in> set (tasks a))) \<and>
    distinct (map fst (devices a)) \<and> distinct (tasks a)"
  using running_inv [OF assms] unfolding app_inv_def names_def by blast

text \<open>
  C25: no device is left out: a scan, the first one or any later one, makes the program know
  exactly the devices it knew before and those that are configured, found by the scan and
  constructible; and the program is supervising only when the first scan found one.
\<close>

theorem scans_complete:
  assumes "start w t0 = Supervising cfg a0" and "first_scan w = Inr found0"
    and "running w cfg a" and "late_pass w cfg (Inr found) now a = (Inr (), a')"
  shows "fst ` set (devices a0) = {s. ready w cfg found0 s} \<and> devices a0 \<noteq> [] \<and>
    fst ` set (devices a') = fst ` set (devices a) \<union> {s. ready w cfg found s}"
  using start_names [OF assms(1,2)] late_keeps [OF running_inv [OF assms(3)] assms(4)]
  by (auto simp: names_def)


definition small_world :: world where
  "small_world =
     \<lparr>ini = Parsed [(''monitor'', []), (''mqtt'', [(''broker'', ''localhost'')]),
        (''battery_1'', [(''mac'', ''7C:01''), (''type'', ''Meritsun'')]),
        (''regulator'', [(''mac'', ''D8:02''), (''type'', ''SolarLink'')])],
      arg_adapter = Some ''hci1'', arg_debug = False, mqtt_connect = (\<lambda>_. Inr ()), hostname = ''pi'',
      outlets = \<lparr>mqtt_broker = quiet_broker, post_reply = (\<lambda>_ _. Unreachable)\<rparr>,
      make_device = (\<lambda>section mac. Inr (sample_device section [] 5)),
      first_scan = Inr [''7c:01'' \<mapsto> ''pack''], loop_reply = (\<lambda>_ _. Inr ())\<rparr>"

definition small_config :: config where
  "small_config =
     [(''monitor'', [(''adapter'', ''hci1'')]), (''mqtt'', [(''broker'', ''localhost'')]),
      (''battery_1'', [(''mac'', ''7C:01''), (''type'', ''Meritsun'')]),
      (''regulator'', [(''mac'', ''D8:02''), (''type'', ''SolarLink'')])]"

lemma small_devices: "configured_devices small_config = [(''battery_1'', ''7c:01''), (''regulator'', ''d8:02'')]"
  by code_simp

lemma small_load: "load_config (ini small_world) (arg_adapter small_world) (arg_debug small_world) = Some small_config"
  by (simp add: small_world_def small_config_def load_config_def has_section_def truthy_def)

lemma quiet_available: "\<exists>m'. mqtt_set_available quiet_broker n online m = (Inr (), m')"
  by (simp add: mqtt_set_available_def client_publish_def quiet_broker_def pym_simps)

lemma quiet_dl_available: "\<exists>l'. dl_set_available (outlets small_world) n online l = (Inr (), l')"
proof (cases "dl_mqtt l")
  case (Some m)
  obtain m' where "mqtt_set_available quiet_broker n online m = (Inr (), m')" using quiet_available by blast
  with Some show ?thesis by (simp add: dl_set_available_def on_mqtt_def small_world_def)
qed (simp add: dl_set_available_def on_mqtt_def)

lemma small_offline: "\<exists>a'. mark_offline small_world ss a = (Inr (), a')"
proof (induction ss arbitrary: a)
  case (Cons s ss)
  obtain l where "dl_set_available (outlets small_world) s False (dlog a) = (Inr (), l)" using quiet_dl_available by blast
  then have "mark_offline small_world (s # ss) a = mark_offline small_world ss (a\<lparr>dlog := l\<rparr>)"
    by (simp add: mark_offline_def on_dlog_def pym_simps)
  then show ?case using Cons.IH by simp
qed (simp add: mark_offline_def pym_simps)

lemma small_register:
  assumes "s \<in> {''battery_1'', ''regulator''}"
  shows "\<exists>b a'. register_device small_world small_config found now s a = (Inr b, a')"
proof -
  obtain mac where mac: "map_of (configured_devices small_config) s = Some mac"
    using assms by (auto simp: small_devices)
  have trusted: "cfg_bool small_config s ''trusted'' x = Inr x" for x
    using assms by (auto simp: cfg_bool_def cfg_get_def small_config_def)
  obtain l where l: "dl_set_available (outlets small_world) s False (dlog a) = (Inr (), l)" using quiet_dl_available by blast
  have loop: "loop_reply small_world ts m = Inr ()" for ts m by (simp add: small_world_def)
  have make: "make_device small_world s m = Inr (sample_device s [] 5)" for m by (simp add: small_world_def)
  show ?thesis
    by (cases "s \<in> fst ` set (devices a)"; cases "found mac")
      (simp_all add: register_device_def mac make Let_def trusted pym_simps on_dlog_def l register_task_def loop, blast+)
qed

lemma small_register_each:
  "set ss \<subseteq> {''battery_1'', ''regulator''} \<Longrightarrow> \<exists>a'. register_each small_world small_config found now ss a = (Inr (), a')"
proof (induction ss arbitrary: a)
  case (Cons s ss)
  obtain b a1 where "register_device small_world small_config found now s a = (Inr b, a1)"
    using small_register [of s found now a] Cons.prems by auto
  then have "register_each small_world small_config found now (s # ss) a = register_each small_world small_config found now ss a1"
    by (simp add: register_each_def pym_simps)
  then show ?case using Cons by simp
qed (simp add: register_each_def pym_simps)

lemma small_ready: "ready small_world small_config found s \<longleftrightarrow>
    s = ''battery_1'' \<and> found ''7c:01'' \<noteq> None \<or> s = ''regulator'' \<and> found ''d8:02'' \<noteq> None"
  by (auto simp: ready_def small_devices small_world_def)

lemma small_start: "\<exists>a. start small_world 0 = Supervising small_config a"
proof -
  obtain l where l: "new_datalogger (mqtt_connect small_world) (hostname small_world) small_config = Inr l"
    by (simp add: new_datalogger_def connect_mqtt_def small_config_def small_world_def cfg_int_def cfg_get_def truthy_def Let_def)
  let ?a = "\<lparr>devices = [], tasks = [], expected = [], dlog = l, trusts = []\<rparr>"
  obtain a1 where one: "mark_offline small_world (map fst (configured_devices small_config)) ?a = (Inr (), a1)"
    using small_offline by blast
  have empty: "app_inv small_config a1" "names a1 = {}"
    using mark_offline_frame [OF one] by (simp_all add: app_inv_def names_def)
  let ?found = "[''7c:01'' \<mapsto> ''pack'']"
  obtain a2 where two: "register_each small_world small_config ?found 0 (map fst (configured_devices small_config)) a1 = (Inr (), a2)"
    using small_register_each [of "map fst (configured_devices small_config)" ?found 0 a1] small_devices by auto
  from register_each_keeps [OF empty(1) two] empty(2)
  have "names a2 = {s \<in> set (map fst (configured_devices small_config)). ready small_world small_config ?found s}" by simp
  also have "\<dots> = {''battery_1''}" by (auto simp: small_ready small_devices)
  finally have "names a2 = {''battery_1''}" .
  then have "devices a2 \<noteq> []" by (cases "devices a2 = []") (simp_all add: names_def)
  moreover have "first_scan small_world = Inr ?found" by (simp add: small_world_def)
  moreover have "cfg_bool small_config ''monitor'' ''debug'' False = Inr False"
    by (simp add: cfg_bool_def cfg_get_def small_config_def)
  ultimately have "start small_world 0 = Supervising small_config a2"
    by (simp add: start_def small_load l one two)
  then show ?thesis by blast
qed

theorem registered_devices_have_tasks_witness:
  "\<exists>a. start small_world 0 = Supervising small_config a \<and> (\<forall>s \<in> fst ` set (devices a). s \<in> fst ` set (expected a))"
proof -
  obtain a where a: "start small_world 0 = Supervising small_config a" using small_start by blast
  from registered_devices_have_tasks [OF begun [OF a]] a show ?thesis by blast
qed

theorem scans_complete_witness:
  "\<exists>a a'. start small_world 0 = Supervising small_config a \<and> fst ` set (devices a) = {''battery_1''} \<and>
     late_pass small_world small_config (Inr [''d8:02'' \<mapsto> ''mppt'']) 130 a = (Inr (), a') \<and>
     fst ` set (devices a') = {''battery_1'', ''regulator''}"
proof -
  obtain a where a: "start small_world 0 = Supervising small_config a" using small_start by blast
  let ?found = "[''d8:02'' \<mapsto> ''mppt'']" and ?first = "[''7c:01'' \<mapsto> ''pack'']"
  have first: "first_scan small_world = Inr ?first" by (simp add: small_world_def)
  have "\<exists>a'. late_pass small_world small_config (Inr ?found) 130 a = (Inr (), a')"
    using small_register_each [of "filter (\<lambda>s. s \<notin> fst ` set (devices a)) (map fst (configured_devices small_config))" ?found 130 a]
    by (auto simp: late_pass_def Let_def small_devices)
  then obtain a' where late: "late_pass small_world small_config (Inr ?found) 130 a = (Inr (), a')" by blast
  from scans_complete [OF a first begun [OF a] late] have
    "fst ` set (devices a) = {s. ready small_world small_config ?first s}"
    "fst ` set (devices a') = fst ` set (devices a) \<union> {s. ready small_world small_config ?found s}"
    by blast+
  moreover have "{s. ready small_world small_config ?first s} = {''battery_1''}"
    "{s. ready small_world small_config ?found s} = {''regulator''}"
    by (auto simp: small_ready)
  ultimately show ?thesis using a late by auto
qed


subsection \<open>Every configured device starts out offline\<close>

lemma available_offline:
  assumes "accepting (mqtt_broker s)" and "dl_mqtt l \<noteq> None" and "dl_set_available s n False l = (r, l')"
  shows "dl_mqtt l' \<noteq> None \<and> shown_as n ''offline'' l' \<and> (shown_as t ''offline'' l \<longrightarrow> shown_as t ''offline'' l')"
proof -
  obtain m where m: "dl_mqtt l = Some m" using assms(2) by auto
  let ?m = "m\<lparr>outbox := outbox m @ [\<lparr>topic = availability_topic m (strip n), body = Text ''offline'', qos = 1, retain = True\<rparr>]\<rparr>"
  have "l' = l\<lparr>dl_mqtt := Some ?m\<rparr>"
    using assms(1,3) m
    by (simp add: dl_set_available_def on_mqtt_def mqtt_set_available_def client_publish_def pym_simps accepting_def)
  then show ?thesis
    using m by (auto simp: shown_as_def availability_at_append availability_topic_def)
qed

lemma mark_offline_shows:
  assumes "accepting (mqtt_broker (outlets w))" and "dl_mqtt (dlog a) \<noteq> None" and "mark_offline w ss a = (Inr (), a')"
  shows "dl_mqtt (dlog a') \<noteq> None \<and> (\<forall>t. t \<in> set ss \<or> shown_as t ''offline'' (dlog a) \<longrightarrow> shown_as t ''offline'' (dlog a'))"
  using assms(2,3)
proof (induction ss arbitrary: a)
  case Nil
  then show ?case by (simp add: mark_offline_def pym_simps)
next
  case (Cons s ss)
  obtain r l where avail: "dl_set_available (outlets w) s False (dlog a) = (r, l)" by (rule prod.exhaust)
  note l = available_offline [OF assms(1) Cons.prems(1) avail]
  have rest: "mark_offline w ss (a\<lparr>dlog := l\<rparr>) = (Inr (), a')"
    using Cons.prems(2) by (cases r) (simp_all add: mark_offline_def on_dlog_def avail pym_simps)
  from Cons.IH [OF _ rest] l show ?case by auto
qed

lemma register_each_offline:
  assumes "accepting (mqtt_broker (outlets w))" and "dl_mqtt (dlog a) \<noteq> None"
    and "register_each w cfg found now ss a = (Inr (), a')" and "shown_as t ''offline'' (dlog a)"
  shows "shown_as t ''offline'' (dlog a')"
  using assms(2-4)
proof (induction ss arbitrary: a)
  case Nil
  then show ?case by (simp add: register_each_def pym_simps)
next
  case (Cons s ss)
  obtain r a1 where one: "register_device w cfg found now s a = (r, a1)" by (rule prod.exhaust)
  then obtain b where r: "r = Inr b" using Cons.prems(2) by (cases r) (simp_all add: register_each_def pym_simps)
  have rest: "register_each w cfg found now ss a1 = (Inr (), a')" using Cons.prems(2) one r by (simp add: register_each_def pym_simps)
  have "dl_mqtt (dlog a1) \<noteq> None \<and> shown_as t ''offline'' (dlog a1)"
    using register_runs [OF one [unfolded r]]
  proof (elim disjE exE conjE)
    fix mac d l a2
    assume l: "dl_set_available (outlets w) s False (dlog a) = (Inr (), l)" "dlog a2 = l" "register_task w mac a2 = (Inr (), a1)"
    then have "dlog a1 = l" using register_task_runs [OF l(3)] by simp
    then show ?thesis using available_offline [OF assms(1) Cons.prems(1) l(1), of t] Cons.prems(3) by simp
  qed (use Cons.prems in auto)
  with Cons.IH [OF _ rest] show ?case by simp
qed

text \<open>
  C26: Home Assistant never shows a stale device after a start: with an MQTT broker that takes
  what it is given, once the program is supervising, every configured device has been
  announced offline, also one that was not found or could not be set up.
\<close>

theorem devices_start_offline:
  assumes "start w now = Supervising cfg a" and "accepting (mqtt_broker (outlets w))"
    and "truthy (cfg_get cfg ''mqtt'' ''broker'') \<noteq> None" and "section \<in> fst ` set (configured_devices cfg)"
  shows "shown_as section ''offline'' (dlog a)"
proof -
  obtain l a1 found where "load_config (ini w) (arg_adapter w) (arg_debug w) = Some cfg"
      and l: "new_datalogger (mqtt_connect w) (hostname w) cfg = Inr l" and "first_scan w = Inr found"
      and one: "mark_offline w (map fst (configured_devices cfg)) \<lparr>devices = [], tasks = [], expected = [], dlog = l, trusts = []\<rparr> = (Inr (), a1)"
      and two: "register_each w cfg found now (map fst (configured_devices cfg)) a1 = (Inr (), a)" and "devices a \<noteq> []"
    by (rule start_supervises [OF assms(1)])
  have "dl_mqtt l \<noteq> None"
    using l assms(3) by (auto simp: new_datalogger_def connect_mqtt_def Let_def split: sum.splits option.splits)
  then have "dl_mqtt (dlog a1) \<noteq> None" "shown_as section ''offline'' (dlog a1)"
    using mark_offline_shows [OF assms(2) _ one] assms(4) by auto
  then show ?thesis using register_each_offline [OF assms(2) _ two] by simp
qed

theorem devices_start_offline_witness:
  "\<exists>a. start small_world 0 = Supervising small_config a \<and> shown_as ''regulator'' ''offline'' (dlog a)"
proof -
  obtain a where a: "start small_world 0 = Supervising small_config a" using small_start by blast
  have "accepting (mqtt_broker (outlets small_world))" by (simp add: small_world_def accepting_def quiet_broker_def)
  moreover have "truthy (cfg_get small_config ''mqtt'' ''broker'') \<noteq> None"
    by (simp add: small_config_def cfg_get_def truthy_def)
  moreover have "''regulator'' \<in> fst ` set (configured_devices small_config)" by (simp add: small_devices)
  ultimately show ?thesis using devices_start_offline [OF a] a by blast
qed

text \<open>
  A device whose announcement raises in a later scan is lost: it is already in the list of
  devices, so no scan tries it again, and no task was made for it.
\<close>

lemma late_device_lost:
  assumes "s \<notin> names a" and "ready w cfg found s" and "\<And>x. cfg_bool cfg s ''trusted'' x = Inr x"
    and "dl_set_available (outlets w) s False (dlog a) = (Inl e, l)"
  shows "\<exists>a'. register_device w cfg found now s a = (Inl e, a') \<and> tasks a' = tasks a \<and>
    (\<forall>found' now'. register_device w cfg found' now' s a' = (Inr False, a'))"
proof -
  obtain mac name d where "map_of (configured_devices cfg) s = Some mac" "found mac = Some name"
      "make_device w s mac = Inr d" "s \<notin> fst ` set (devices a)"
    using assms(1,2) by (auto simp: ready_def names_def)
  then show ?thesis
    by (simp add: register_device_def Let_def assms(3,4) pym_simps on_dlog_def)
qed

end
