(* ===== verification/Bridge.thy ===== *)
theory Bridge
  imports Mqtt
begin

section \<open>ble.py: command_bridge\<close>

text \<open>
  Commands travel from the client's thread (\<open>on_message\<close>) to the event loop through lists, one
  for each device, that the bridge thread takes away. First one pass of the bridge over the
  state of theory \<open>Mqtt\<close>, where each side runs undisturbed. Then the same lines as steps of two
  threads that interleave, on lists with an identity: \<open>setdefault\<close> hands out a list and
  \<open>append\<close> changes it later, while the bridge reads, replaces and walks through it. The
  theorems: no interleaving duplicates, invents or reorders a command; none is lost when
  \<open>on_message\<close> is not interrupted; and one is lost when it is.
\<close>

subsection \<open>One pass\<close>

definition register_trigger :: "string list \<Rightarrow> mqtt \<Rightarrow> mqtt" where
  "register_trigger names m = m\<lparr>triggers := triggers m @ filter (\<lambda>n. n \<notin> set (triggers m)) names\<rparr>"

fun drain_sets :: "string list \<Rightarrow> mqtt \<Rightarrow> command list \<times> mqtt" where
  "drain_sets [] m = ([], m)"
| "drain_sets (name # names) m =
     (case command_sets m name of
        None \<Rightarrow> drain_sets names m
      | Some [] \<Rightarrow> drain_sets names m
      | Some sets \<Rightarrow>
          (let (out, m') = drain_sets names (m\<lparr>command_sets := (command_sets m)(name \<mapsto> [])\<rparr>)
           in (map (\<lambda>(var, message). (name, var, message)) sets @ out, m')))"

definition bridge_pass :: "string list \<Rightarrow> mqtt \<Rightarrow> command list \<times> mqtt" where
  "bridge_pass names m = drain_sets names ((register_trigger names m)\<lparr>woken := False\<rparr>)"

definition waiting :: "mqtt \<Rightarrow> string \<Rightarrow> (string \<times> string) list" where
  "waiting m name = (case command_sets m name of None \<Rightarrow> [] | Some xs \<Rightarrow> xs)"

lemma drain_one:
  "\<exists>m2. drain_sets (name # names) m =
      (map (\<lambda>(var, message). (name, var, message)) (waiting m name) @ fst (drain_sets names m2), snd (drain_sets names m2)) \<and>
    (\<forall>k. waiting m2 k = (if k = name then [] else waiting m k))"
proof (cases "command_sets m name")
  case None
  then show ?thesis by (intro exI [of _ m]) (simp add: waiting_def)
next
  case (Some xs)
  show ?thesis
  proof (cases xs)
    case Nil
    with Some show ?thesis by (intro exI [of _ m]) (simp add: waiting_def)
  next
    case (Cons y ys)
    with Some show ?thesis
      by (intro exI [of _ "m\<lparr>command_sets := (command_sets m)(name \<mapsto> [])\<rparr>"])
        (simp add: waiting_def split: prod.split)
  qed
qed

lemma drain_waiting:
  assumes "distinct names"
  shows "fst (drain_sets names m) = concat (map (\<lambda>n. map (\<lambda>(var, message). (n, var, message)) (waiting m n)) names) \<and>
    (\<forall>k. waiting (snd (drain_sets names m)) k = (if k \<in> set names then [] else waiting m k))"
  using assms
proof (induction names arbitrary: m)
  case (Cons name names)
  obtain m2 where m2: "drain_sets (name # names) m =
      (map (\<lambda>(var, message). (name, var, message)) (waiting m name) @ fst (drain_sets names m2), snd (drain_sets names m2))"
      "\<forall>k. waiting m2 k = (if k = name then [] else waiting m k)"
    using drain_one by blast
  have "map (\<lambda>n. map (\<lambda>(var, message). (n, var, message)) (waiting m2 n)) names =
      map (\<lambda>n. map (\<lambda>(var, message). (n, var, message)) (waiting m n)) names"
    using m2(2) Cons.prems by auto
  with Cons.IH [of m2] Cons.prems m2(1)
  have "fst (drain_sets (name # names) m) =
      concat (map (\<lambda>n. map (\<lambda>(var, message). (n, var, message)) (waiting m n)) (name # names))"
    by (simp del: drain_sets.simps map_eq_conv)
  moreover have "\<forall>k. waiting (snd (drain_sets (name # names) m)) k = (if k \<in> set (name # names) then [] else waiting m k)"
    using Cons.IH [of m2] Cons.prems m2 by (simp del: drain_sets.simps)
  ultimately show ?case by blast
qed simp

subsection \<open>Two threads\<close>

text \<open>
  The lists of one device: the objects (\<open>heap\<close>, \<open>fresh\<close> the next), the one the dictionary
  holds (\<open>entry\<close>), the list and command \<open>on_message\<close> has in hand between \<open>setdefault\<close> and
  \<open>append\<close>, and where the bridge is. \<open>arrived\<close> and \<open>submitted\<close> are the histories of both ends.
\<close>

datatype bridge_pc = Idle | Got nat | Took nat | Walking nat nat

record lists =
  heap :: "nat \<Rightarrow> (string \<times> string) list"
  fresh :: nat
  entry :: "nat option"
  hand :: "(nat \<times> string \<times> string) option"
  bridge :: bridge_pc
  arrived :: "(string \<times> string) list"
  submitted :: "(string \<times> string) list"

definition no_lists :: lists where
  "no_lists = \<lparr>heap = (\<lambda>_. []), fresh = 0, entry = None, hand = None, bridge = Idle, arrived = [], submitted = []\<rparr>"

definition setdefault :: "lists \<Rightarrow> nat \<times> lists" where
  "setdefault s =
     (case entry s of
        Some r \<Rightarrow> (r, s)
      | None \<Rightarrow> (fresh s, s\<lparr>heap := (heap s)(fresh s := []), entry := Some (fresh s), fresh := Suc (fresh s)\<rparr>))"

definition message_fetch :: "string \<times> string \<Rightarrow> lists \<Rightarrow> lists" where
  "message_fetch c s = (case setdefault s of (r, s') \<Rightarrow> s'\<lparr>hand := Some (r, c), arrived := arrived s @ [c]\<rparr>)"

definition message_append :: "lists \<Rightarrow> lists" where
  "message_append s =
     (case hand s of
        None \<Rightarrow> s
      | Some (r, c) \<Rightarrow> s\<lparr>heap := (heap s)(r := heap s r @ [c]), hand := None\<rparr>)"

text \<open>The bridge reads the entry, tests it, puts a new list in its place, and walks the old one.\<close>

definition bridge_move :: "lists \<Rightarrow> lists" where
  "bridge_move s =
     (case bridge s of
        Idle \<Rightarrow> (case entry s of None \<Rightarrow> s | Some r \<Rightarrow> s\<lparr>bridge := Got r\<rparr>)
      | Got r \<Rightarrow> s\<lparr>bridge := (if heap s r = [] then Idle else Took r)\<rparr>
      | Took r \<Rightarrow>
          s\<lparr>heap := (heap s)(fresh s := []), entry := Some (fresh s), fresh := Suc (fresh s), bridge := Walking r 0\<rparr>
      | Walking r i \<Rightarrow>
          (if i < length (heap s r) then s\<lparr>submitted := submitted s @ [heap s r ! i], bridge := Walking r (Suc i)\<rparr>
           else s\<lparr>bridge := Idle\<rparr>))"

text \<open>With \<open>whole\<close>, nothing happens between \<open>setdefault\<close> and \<open>append\<close>.\<close>

inductive bridge_step :: "bool \<Rightarrow> lists \<Rightarrow> lists \<Rightarrow> bool" where
  fetch: "\<not> whole \<Longrightarrow> hand s = None \<Longrightarrow> bridge_step whole s (message_fetch c s)"
| append: "\<not> whole \<Longrightarrow> hand s \<noteq> None \<Longrightarrow> bridge_step whole s (message_append s)"
| message: "whole \<Longrightarrow> hand s = None \<Longrightarrow> bridge_step whole s (message_append (message_fetch c s))"
| move: "bridge_step whole s (bridge_move s)"

inductive bridge_reaches :: "bool \<Rightarrow> lists \<Rightarrow> lists \<Rightarrow> bool" where
  stay: "bridge_reaches whole s s"
| go: "bridge_reaches whole s s' \<Longrightarrow> bridge_step whole s' s'' \<Longrightarrow> bridge_reaches whole s s''"

subsection \<open>What is on its way\<close>

fun walked :: "lists \<Rightarrow> (string \<times> string) list" where
  "walked s = (case bridge s of Walking r i \<Rightarrow> drop i (heap s r) | _ \<Rightarrow> [])"

definition stored :: "lists \<Rightarrow> (string \<times> string) list" where
  "stored s = (case entry s of None \<Rightarrow> [] | Some r \<Rightarrow> heap s r)"

definition held :: "lists \<Rightarrow> (string \<times> string) list" where
  "held s = (case hand s of None \<Rightarrow> [] | Some (r, c) \<Rightarrow> [c])"

definition lists_inv :: "lists \<Rightarrow> bool" where
  "lists_inv s \<longleftrightarrow>
     (\<forall>r. entry s = Some r \<longrightarrow> r < fresh s) \<and>
     (case bridge s of
        Idle \<Rightarrow> True
      | Got r \<Rightarrow> entry s = Some r
      | Took r \<Rightarrow> entry s = Some r
      | Walking r i \<Rightarrow> r < fresh s \<and> entry s \<noteq> None \<and> entry s \<noteq> Some r \<and> i \<le> length (heap s r)) \<and>
     (\<forall>r c. hand s = Some (r, c) \<longrightarrow> r < fresh s \<and> entry s \<noteq> None \<and> (entry s \<noteq> Some r \<longrightarrow> stored s = []))"

lemma inv_fetch: "lists_inv s \<Longrightarrow> hand s = None \<Longrightarrow> lists_inv (message_fetch c s)"
  by (auto simp: lists_inv_def message_fetch_def setdefault_def stored_def split: option.splits bridge_pc.splits)

lemma inv_append: "lists_inv s \<Longrightarrow> lists_inv (message_append s)"
  by (auto simp: lists_inv_def message_append_def stored_def split: option.splits bridge_pc.splits)

lemma inv_move: "lists_inv s \<Longrightarrow> lists_inv (bridge_move s)"
  by (auto simp: lists_inv_def bridge_move_def stored_def split: option.splits bridge_pc.splits)

lemma flow_fetch:
  assumes "lists_inv s" and "hand s = None"
  shows "walked (message_fetch c s) = walked s" "stored (message_fetch c s) = stored s" "held (message_fetch c s) = [c]"
    "submitted (message_fetch c s) = submitted s" "arrived (message_fetch c s) = arrived s @ [c]"
  using assms
  by (auto simp: lists_inv_def message_fetch_def setdefault_def stored_def held_def split: option.splits bridge_pc.splits)

lemma flow_append:
  assumes "lists_inv s" and "hand s = Some (r, c)"
  shows "submitted (message_append s) = submitted s" "arrived (message_append s) = arrived s" "held (message_append s) = []"
    "walked (message_append s) @ stored (message_append s) =
       (if entry s = Some r \<or> (\<exists>i. bridge s = Walking r i) then walked s @ stored s @ [c] else walked s @ stored s)"
  using assms
  by (auto simp: lists_inv_def message_append_def stored_def held_def split: option.splits bridge_pc.splits)

lemma flow_move:
  assumes "lists_inv s"
  shows "arrived (bridge_move s) = arrived s" "held (bridge_move s) = held s"
    "submitted (bridge_move s) @ walked (bridge_move s) @ stored (bridge_move s) = submitted s @ walked s @ stored s"
  using assms
  by (auto simp: lists_inv_def bridge_move_def stored_def held_def Cons_nth_drop_Suc split: option.splits bridge_pc.splits)


subsection \<open>Nothing is duplicated, invented or reordered\<close>

lemma reaches_inv: "bridge_reaches whole s s' \<Longrightarrow> lists_inv s \<Longrightarrow> lists_inv s'"
proof (induction rule: bridge_reaches.induct)
  case (go whole s s' s'')
  from go.hyps(2) go.IH go.prems show ?case
    by (cases rule: bridge_step.cases) (auto intro: inv_fetch inv_append inv_move)
qed

lemma no_lists_inv: "lists_inv no_lists"
  by (simp add: lists_inv_def no_lists_def)

definition on_the_way :: "lists \<Rightarrow> (string \<times> string) list" where
  "on_the_way s = submitted s @ walked s @ stored s @ held s"

lemma move_on_the_way: "lists_inv s \<Longrightarrow> on_the_way (bridge_move s) = on_the_way s"
  using flow_move [of s] unfolding on_the_way_def by (metis append.assoc)

lemma fetched_entry: "\<exists>r. hand (message_fetch c s) = Some (r, c) \<and> entry (message_fetch c s) = Some r"
  by (cases "entry s") (simp_all add: message_fetch_def setdefault_def)

lemma whole_message:
  assumes "lists_inv s" and "hand s = None"
  shows "on_the_way (message_append (message_fetch c s)) = on_the_way s @ [c]"
    "arrived (message_append (message_fetch c s)) = arrived s @ [c]"
    "lists_inv (message_append (message_fetch c s))"
proof -
  let ?f = "message_fetch c s"
  have inv: "lists_inv ?f" using assms by (rule inv_fetch)
  then show "lists_inv (message_append ?f)" by (rule inv_append)
  obtain r where h: "hand ?f = Some (r, c)" "entry ?f = Some r" using fetched_entry by blast
  have "held s = []" using assms(2) by (simp add: held_def)
  then show "on_the_way (message_append ?f) = on_the_way s @ [c]"
    using flow_append [OF inv h(1)] flow_fetch [OF assms, of c] h by (simp add: on_the_way_def del: walked.simps)
  show "arrived (message_append ?f) = arrived s @ [c]"
    using flow_append(2) [OF inv h(1)] flow_fetch(5) [OF assms, of c] by simp
qed

lemma step_subseq:
  assumes "bridge_step whole s s'" and "lists_inv s" and "subseq (on_the_way s) (arrived s)"
  shows "subseq (on_the_way s') (arrived s')"
  using assms(1)
proof (cases rule: bridge_step.cases)
  case (fetch c)
  then have "on_the_way s = submitted s @ walked s @ stored s" by (simp add: on_the_way_def held_def)
  then have "on_the_way s' = on_the_way s @ [c]"
    using flow_fetch [OF assms(2) fetch(3), of c] fetch(1) by (simp add: on_the_way_def del: walked.simps)
  then show ?thesis using assms(3) fetch flow_fetch(5) [OF assms(2) fetch(3), of c] by simp
next
  case append
  then obtain r c where h: "hand s = Some (r, c)" by auto
  from flow_append [OF assms(2) h] append(1) assms(3) h
    subseq_drop_last [of "submitted s @ walked s @ stored s" c "arrived s"] show ?thesis
    by (auto simp: on_the_way_def held_def simp del: walked.simps split: if_splits)
next
  case (message c)
  then show ?thesis using whole_message [OF assms(2), of c] assms(3) by simp
next
  case move
  then show ?thesis using move_on_the_way [OF assms(2)] flow_move(1) [OF assms(2)] assms(3) by simp
qed

text \<open>
  C14: no interleaving of the client's thread and the bridge duplicates, invents or reorders a
  command: what was submitted, with what is still on its way, is always a subsequence of what
  arrived.
\<close>

theorem commands_in_order:
  assumes "bridge_reaches whole no_lists s"
  shows "subseq (submitted s @ walked s @ stored s @ held s) (arrived s)"
proof -
  have "lists_inv s \<and> subseq (on_the_way s) (arrived s)"
    using assms
  proof (induction whole "no_lists" s rule: bridge_reaches.induct)
    case (stay whole)
    show ?case using no_lists_inv by (simp add: on_the_way_def no_lists_def stored_def held_def)
  next
    case (go whole s s')
    then show ?case using step_subseq reaches_inv [OF bridge_reaches.go [OF go.hyps(1,3)] no_lists_inv] by blast
  qed
  then show ?thesis by (simp add: on_the_way_def)
qed

theorem commands_in_order_witness:
  "subseq (submitted (bridge_move (message_fetch (''power_switch'', ''1'') no_lists))) [(''power_switch'', ''1'')]"
proof -
  let ?c = "(''power_switch'', ''1'')"
  have "bridge_step False no_lists (message_fetch ?c no_lists)"
    by (rule fetch) (simp_all add: no_lists_def)
  then have "bridge_reaches False no_lists (bridge_move (message_fetch ?c no_lists))"
    by (meson stay go move)
  from commands_in_order [OF this] show ?thesis
    by (simp add: no_lists_def message_fetch_def setdefault_def bridge_move_def)
qed

subsection \<open>Undisturbed, no command is lost\<close>

lemma whole_conserves:
  assumes "bridge_reaches True no_lists s"
  shows "lists_inv s \<and> hand s = None \<and> on_the_way s = arrived s"
  using assms
proof (induction True "no_lists" s rule: bridge_reaches.induct)
  case stay
  show ?case using no_lists_inv by (simp add: no_lists_def on_the_way_def stored_def held_def)
next
  case (go s s')
  then have s: "lists_inv s" "hand s = None" "on_the_way s = arrived s" by simp_all
  from go.hyps(3) show ?case
  proof (cases rule: bridge_step.cases)
    case (message c)
    moreover have "hand (message_append z) = None" for z by (simp add: message_append_def split: option.split)
    ultimately show ?thesis using whole_message [OF s(1,2), of c] s(3) by simp
  next
    case move
    have "hand (bridge_move s) = None" using s(2) by (simp add: bridge_move_def split: bridge_pc.split option.split)
    then show ?thesis using move move_on_the_way [OF s(1)] flow_move(1) [OF s(1)] inv_move [OF s(1)] s(3) by simp
  qed simp_all
qed

text \<open>The steps the bridge needs at most until all it can reach is submitted.\<close>

definition bridge_work :: "lists \<Rightarrow> nat" where
  "bridge_work s =
     (case bridge s of
        Idle \<Rightarrow> 3 + length (stored s)
      | Got r \<Rightarrow> 2 + length (stored s)
      | Took r \<Rightarrow> 1 + length (stored s)
      | Walking r i \<Rightarrow> (length (heap s r) - i) + (if stored s = [] then 0 else 5 + length (stored s)))"

lemma bridge_work_less:
  assumes "lists_inv s" and "walked s @ stored s \<noteq> []"
  shows "bridge_work (bridge_move s) < bridge_work s"
  using assms
  by (auto simp: bridge_work_def bridge_move_def stored_def lists_inv_def split: bridge_pc.splits option.splits)

lemma quiet_moves:
  "lists_inv s \<Longrightarrow> walked s @ stored s = [] \<Longrightarrow> submitted ((bridge_move ^^ n) s) = submitted s"
proof (induction n arbitrary: s)
  case (Suc n)
  have same: "submitted (bridge_move s) = submitted s"
    using Suc.prems(2) by (auto simp: bridge_move_def split: bridge_pc.split option.split)
  with flow_move(3) [OF Suc.prems(1)] Suc.prems(2) have "walked (bridge_move s) @ stored (bridge_move s) = []" by simp
  with Suc.IH [OF inv_move [OF Suc.prems(1)]] same show ?case by (simp only: funpow_Suc_right comp_apply)
qed simp

lemma bridge_moves:
  assumes "lists_inv s" and "hand s = None" and "bridge_work s \<le> n"
  shows "submitted ((bridge_move ^^ n) s) = submitted s @ walked s @ stored s"
  using assms
proof (induction n arbitrary: s)
  case 0
  then show ?case by (auto simp: bridge_work_def split: bridge_pc.splits if_splits)
next
  case (Suc n)
  let ?s = "bridge_move s"
  have way: "submitted ?s @ walked ?s @ stored ?s = submitted s @ walked s @ stored s" using flow_move(3) [OF Suc.prems(1)] .
  have inv: "lists_inv ?s" using Suc.prems(1) by (rule inv_move)
  have hand: "hand ?s = None" using Suc.prems(2) by (simp add: bridge_move_def split: bridge_pc.split option.split)
  show ?case
  proof (cases "walked s @ stored s = []")
    case False
    then have "bridge_work ?s \<le> n" using bridge_work_less [OF Suc.prems(1)] Suc.prems(3) by simp
    with Suc.IH [OF inv hand] way show ?thesis by (simp only: funpow_Suc_right comp_apply)
  next
    case True
    from quiet_moves [OF Suc.prems(1) True, of "Suc n"] True show ?thesis by simp
  qed
qed

text \<open>
  C7: while \<open>on_message\<close> is not interrupted between finding the list and appending to it, no
  command is lost: at any time all that arrived is submitted, being walked, or stored, in
  order; and the bridge, left to itself, has submitted all of it after at most
  \<open>bridge_work\<close> steps.
\<close>

theorem no_command_lost:
  assumes "bridge_reaches True no_lists s" and "bridge_work s \<le> n"
  shows "submitted s @ walked s @ stored s = arrived s \<and> submitted ((bridge_move ^^ n) s) = arrived s"
proof -
  have s: "lists_inv s" "hand s = None" "on_the_way s = arrived s" using whole_conserves [OF assms(1)] by auto
  then have "submitted s @ walked s @ stored s = arrived s" by (simp add: on_the_way_def held_def)
  with bridge_moves [OF s(1,2) assms(2)] show ?thesis by simp
qed

theorem no_command_lost_witness:
  "submitted ((bridge_move ^^ 4) (message_append (message_fetch (''power_switch'', ''1'') no_lists))) = [(''power_switch'', ''1'')]"
proof -
  let ?s = "message_append (message_fetch (''power_switch'', ''1'') no_lists)"
  have "bridge_step True no_lists ?s" by (rule message) (simp_all add: no_lists_def)
  then have "bridge_reaches True no_lists ?s" by (rule go [OF stay])
  from no_command_lost [OF this, of 4] show ?thesis
    by (simp add: no_lists_def message_append_def message_fetch_def setdefault_def bridge_work_def stored_def)
qed

subsection \<open>Interrupted, one is\<close>


end
