(* ===== verification/Writes.thy ===== *)
theory Writes
  imports Device Connection "HOL-Library.Multiset"
begin

section \<open>Writes on one connection: the write lock\<close>

text \<open>
  \<open>BleManager._client_factory\<close> gives each client an \<open>asyncio.Lock\<close>. The poll write of
  \<open>ble._hold\<close> and the coroutines that \<open>SolarDevice.characteristic_write_value\<close> schedules, each a
  \<open>write_with_retry\<close> of two attempts, take it around every single \<open>write_gatt_char\<close>; they are
  coroutines of one loop and interleave at each await. A \<open>wire\<close> is one client with the lock's
  holder and queue, and the writers with the tries each has left. Only the connection's task,
  which polls, is ever cancelled. The lock is the one of the standard library: a request waits
  while the lock is taken or anyone waits, and a release wakes the first in the queue.
  Theorems: never two writes in flight, first come first served, no writer is stuck, each ends
  with the result \<open>write_with_retry\<close> gives, the order of the device's writes is kept while
  nothing fails, and a retry overtakes.
\<close>

subsection \<open>Writers\<close>

text \<open>The number is the tries that remain after the one at hand.\<close>

datatype writer = Unborn | Queued nat | InFlight nat | Pausing nat | Over bool

record wire =
  holder :: "nat option"
  queued :: "nat list"
  writers :: "nat \<Rightarrow> writer"
  polls :: "nat set"
  born :: "nat list"
  asked :: "nat list"
  begun :: "nat list"
  dropped_out :: "nat list"
  answered :: "(nat \<times> bool) list"

definition idle_wire :: wire where
  "idle_wire = \<lparr>holder = None, queued = [], writers = (\<lambda>_. Unborn), polls = {}, born = [], asked = [], begun = [],
     dropped_out = [], answered = []\<rparr>"

definition becomes :: "nat \<Rightarrow> writer \<Rightarrow> wire \<Rightarrow> wire" where
  "becomes i x s = s\<lparr>writers := (writers s)(i := x)\<rparr>"

text \<open>\<open>async with lock\<close>: \<open>acquire\<close> takes a free lock nobody waits for, and queues otherwise.\<close>

definition acquire :: "nat \<Rightarrow> nat \<Rightarrow> wire \<Rightarrow> wire" where
  "acquire i n s =
     (if holder s = None \<and> queued s = [] then
        becomes i (InFlight n) (s\<lparr>holder := Some i, asked := asked s @ [i], begun := begun s @ [i]\<rparr>)
      else becomes i (Queued n) (s\<lparr>queued := queued s @ [i], asked := asked s @ [i]\<rparr>))"

fun tries_left :: "writer \<Rightarrow> nat" where
  "tries_left (Queued n) = n"
| "tries_left (InFlight n) = n"
| "tries_left (Pausing n) = n"
| "tries_left _ = 0"

text \<open>The first waiter runs after a release.\<close>

definition wake_first :: "wire \<Rightarrow> wire" where
  "wake_first s =
     (case queued s of
        [] \<Rightarrow> s
      | i # ws \<Rightarrow> becomes i (InFlight (tries_left (writers s i))) (s\<lparr>holder := Some i, queued := ws, begun := begun s @ [i]\<rparr>))"

text \<open>The client's answer: the lock is released, and a failed command pauses before its next try.\<close>

definition after_write :: "nat \<Rightarrow> bool \<Rightarrow> writer" where
  "after_write n ok = (if ok then Over True else if n = 0 then Over False else Pausing (n - 1))"

definition write_returns :: "nat \<Rightarrow> bool \<Rightarrow> wire \<Rightarrow> wire" where
  "write_returns i ok s =
     becomes i (after_write (tries_left (writers s i)) ok) (s\<lparr>holder := None, answered := answered s @ [(i, ok)]\<rparr>)"

definition give_up :: "nat \<Rightarrow> wire \<Rightarrow> wire" where
  "give_up i s =
     (if holder s = Some i then becomes i (Over False) (s\<lparr>holder := None\<rparr>)
      else becomes i (Over False) (s\<lparr>queued := remove1 i (queued s), dropped_out := dropped_out s @ [i]\<rparr>))"

definition enter :: "nat \<Rightarrow> nat \<Rightarrow> wire \<Rightarrow> wire" where
  "enter i attempts s = acquire i (attempts - 1) (s\<lparr>born := born s @ [i]\<rparr>)"

fun ended :: "writer \<Rightarrow> bool" where
  "ended (Over b) = True"
| "ended x = False"

text \<open>The steps that need no new request, and those that are one: a command, or a poll.\<close>

inductive proceeds :: "wire \<Rightarrow> wire \<Rightarrow> bool" where
  wakes: "holder s = None \<Longrightarrow> queued s \<noteq> [] \<Longrightarrow> proceeds s (wake_first s)"
| returns: "holder s = Some i \<Longrightarrow> proceeds s (write_returns i ok s)"
| retries: "writers s i = Pausing n \<Longrightarrow> proceeds s (acquire i n s)"
| cancels: "i \<in> polls s \<Longrightarrow> \<not> ended (writers s i) \<Longrightarrow> proceeds s (give_up i s)"

inductive wire_step :: "wire \<Rightarrow> wire \<Rightarrow> bool" where
  commands: "writers s i = Unborn \<Longrightarrow> wire_step s (enter i 2 s)"
| polling: "writers s i = Unborn \<Longrightarrow> \<forall>j \<in> polls s. ended (writers s j) \<Longrightarrow>
    wire_step s (enter i 1 (s\<lparr>polls := insert i (polls s)\<rparr>))"
| goes_on: "proceeds s s' \<Longrightarrow> wire_step s s'"

inductive wire_reaches :: "wire \<Rightarrow> wire \<Rightarrow> bool" where
  here: "wire_reaches s s"
| further: "wire_reaches s s' \<Longrightarrow> wire_step s' s'' \<Longrightarrow> wire_reaches s s''"

inductive_cases proceedsE: "proceeds s s'"
inductive_cases wire_stepE: "wire_step s s'"


subsection \<open>What every reachable state satisfies\<close>

text \<open>
  The holder is the one writer in flight, the queue holds the waiting ones once each; a
  writer exists once it was created, polls among them.
\<close>

definition lock_inv :: "wire \<Rightarrow> bool" where
  "lock_inv s \<longleftrightarrow>
     (\<forall>i. holder s = Some i \<longleftrightarrow> (\<exists>n. writers s i = InFlight n)) \<and>
     (\<forall>i. i \<in> set (queued s) \<longleftrightarrow> (\<exists>n. writers s i = Queued n)) \<and> distinct (queued s) \<and>
     (\<forall>i. i \<in> set (born s) \<longleftrightarrow> writers s i \<noteq> Unborn) \<and> distinct (born s) \<and>
     polls s \<subseteq> set (born s)"

text \<open>Those who asked, in that order, have begun or still wait; the rest are polls that gave up.\<close>

definition order_inv :: "wire \<Rightarrow> bool" where
  "order_inv s \<longleftrightarrow>
     subseq (begun s @ queued s) (asked s) \<and>
     mset (asked s) = mset (begun s @ queued s @ dropped_out s) \<and>
     set (dropped_out s) \<subseteq> polls s"

lemma becomes_simps [simp]:
  "holder (becomes i x s) = holder s" "queued (becomes i x s) = queued s" "polls (becomes i x s) = polls s"
  "born (becomes i x s) = born s" "asked (becomes i x s) = asked s" "begun (becomes i x s) = begun s"
  "dropped_out (becomes i x s) = dropped_out s" "answered (becomes i x s) = answered s"
  "writers (becomes i x s) = (writers s)(i := x)"
  by (simp_all add: becomes_def)

lemma idle_wire_inv: "lock_inv idle_wire" "order_inv idle_wire"
  by (simp_all add: lock_inv_def order_inv_def idle_wire_def)

lemma lock_acquire:
  assumes "lock_inv s" and "writers s i = Pausing m"
  shows "lock_inv (acquire i n s)"
  using assms by (auto simp: lock_inv_def acquire_def)

lemma lock_enter:
  assumes "lock_inv s" and "writers s i = Unborn" and "p \<subseteq> insert i (set (born s))"
  shows "lock_inv (enter i k (s\<lparr>polls := p\<rparr>))"
  using assms by (auto simp: lock_inv_def acquire_def enter_def)

lemma lock_wake:
  assumes "lock_inv s" and "holder s = None"
  shows "lock_inv (wake_first s)"
proof (cases "queued s")
  case (Cons j ws)
  then obtain n where "writers s j = Queued n" using assms(1) unfolding lock_inv_def by (metis list.set_intros(1))
  with Cons assms show ?thesis by (auto simp: lock_inv_def wake_first_def)
qed (use assms in \<open>simp add: wake_first_def\<close>)

lemma lock_inv_histories [simp]:
  "lock_inv (s\<lparr>answered := xs\<rparr>) = lock_inv s" "lock_inv (s\<lparr>dropped_out := ys\<rparr>) = lock_inv s"
  by (simp_all add: lock_inv_def)

lemma lock_release:
  assumes "lock_inv s" and "holder s = Some i" and "(\<exists>n. x = Pausing n) \<or> ended x"
  shows "lock_inv (becomes i x (s\<lparr>holder := None\<rparr>))"
proof -
  obtain m where i: "writers s i = InFlight m" using assms(1,2) unfolding lock_inv_def by blast
  have only: "writers s j \<noteq> InFlight k" if "j \<noteq> i" for j k
    using that assms(1,2) unfolding lock_inv_def by (metis option.inject)
  have "i \<notin> set (queued s)" "i \<in> set (born s)" using assms(1) i unfolding lock_inv_def by simp_all
  with assms only show ?thesis by (cases x) (auto simp: lock_inv_def)
qed

lemma lock_returns:
  assumes "lock_inv s" and "holder s = Some i"
  shows "lock_inv (write_returns i ok s)"
proof -
  have "lock_inv (becomes i (after_write (tries_left (writers s i)) ok) (s\<lparr>holder := None\<rparr>))"
    by (rule lock_release [OF assms]) (simp add: after_write_def)
  then show ?thesis by (simp add: write_returns_def becomes_def lock_inv_def)
qed

lemma lock_gives_up:
  assumes "lock_inv s" and "i \<in> polls s"
  shows "lock_inv (give_up i s)"
proof (cases "holder s = Some i")
  case True
  with lock_release [OF assms(1) True, of "Over False"] show ?thesis by (simp add: give_up_def)
next
  case False
  have "i \<in> set (born s)" using assms by (auto simp: lock_inv_def)
  with assms(1) False show ?thesis by (auto simp: lock_inv_def give_up_def)
qed

lemma order_acquire: "order_inv s \<Longrightarrow> order_inv (acquire i n s)"
  using subseq_snoc [of "begun s @ queued s" "asked s" i] by (auto simp: order_inv_def acquire_def)

lemma order_wake: "order_inv s \<Longrightarrow> order_inv (wake_first s)"
  by (auto simp: order_inv_def wake_first_def split: list.split)

lemma order_returns: "order_inv s \<Longrightarrow> order_inv (write_returns i ok s)"
  by (simp add: order_inv_def write_returns_def)

lemma subseq_remove1: "subseq (remove1 x xs) xs"
  by (induction xs) auto

lemma order_gives_up:
  assumes "order_inv s" and "i \<in> polls s" and "holder s \<noteq> Some i \<Longrightarrow> i \<in> set (queued s)"
  shows "order_inv (give_up i s)"
proof (cases "holder s = Some i")
  case False
  have "subseq (begun s @ remove1 i (queued s)) (begun s @ queued s)"
    by (intro list_emb_append_mono subseq_remove1) simp
  then have "subseq (begun s @ remove1 i (queued s)) (asked s)"
    using assms(1) unfolding order_inv_def by (blast intro: subseq_order.order_trans)
  moreover have "mset (queued s) = mset (remove1 i (queued s)) + {#i#}"
    using assms(3) [OF False] by simp
  ultimately show ?thesis
    using assms(1,2) False by (simp add: order_inv_def give_up_def)
qed (use assms in \<open>simp add: order_inv_def give_up_def\<close>)



subsection \<open>Each writer is \<open>write_with_retry\<close>\<close>

text \<open>A client that gives these answers, one to each write.\<close>

definition scripted :: "(bool list, unit) pym" where
  "scripted = (\<lambda>as. case as of [] \<Rightarrow> (Inl OSError, []) | a # rest \<Rightarrow> (if a then Inr () else Inl OSError, rest))"

definition answers :: "nat \<Rightarrow> wire \<Rightarrow> bool list" where
  "answers i s = map snd (filter (\<lambda>(j, ok). j = i) (answered s))"

text \<open>What a writer has left to do is what \<open>write_with_retry\<close> has left after the answers so far.\<close>

fun simulates :: "nat \<Rightarrow> writer \<Rightarrow> bool list \<Rightarrow> bool" where
  "simulates attempts Unborn as \<longleftrightarrow> as = []"
| "simulates attempts (Over b) as \<longleftrightarrow> (\<forall>rest. write_attempts scripted id attempts (as @ rest) = (Inr b, rest))"
| "simulates attempts x as \<longleftrightarrow>
     (\<forall>rest. write_attempts scripted id attempts (as @ rest) = write_attempts scripted id (Suc (tries_left x)) rest)"

fun single_try :: "writer \<Rightarrow> bool" where
  "single_try (Pausing n) = False"
| "single_try (Queued n) = (n = 0)"
| "single_try (InFlight n) = (n = 0)"
| "single_try x = True"

definition result_inv :: "wire \<Rightarrow> bool" where
  "result_inv s \<longleftrightarrow>
     (\<forall>i \<in> polls s. single_try (writers s i)) \<and>
     (\<forall>i. i \<notin> polls s \<longrightarrow> simulates 2 (writers s i) (answers i s))"

lemma answers_becomes [simp]: "answers i (becomes j x s) = answers i s"
  by (simp add: answers_def)

lemma answers_same: "answered s' = answered s \<Longrightarrow> answers i s' = answers i s"
  by (simp add: answers_def)

lemma scripted_attempt:
  "write_attempts scripted id (Suc n) (a # rest) =
     (if a then (Inr True, rest) else if n = 0 then (Inr False, rest) else write_attempts scripted id n rest)"
  by (simp add: scripted_def pym_simps)

lemma simulates_answer:
  "simulates k (InFlight n) as \<Longrightarrow> simulates k (after_write n ok) (as @ [ok])"
  by (cases n) (simp_all add: after_write_def scripted_attempt del: write_attempts.simps)

lemma result_acquire:
  assumes "result_inv s" and "i \<in> polls s \<Longrightarrow> n = 0"
    and "i \<notin> polls s \<Longrightarrow> simulates 2 (Queued n) (answers i s)"
  shows "result_inv (acquire i n s)"
proof -
  have "simulates 2 (InFlight n) (answers i s)" if "i \<notin> polls s" using assms(3) [OF that] by simp
  with assms show ?thesis by (auto simp: result_inv_def acquire_def answers_def)
qed

lemma result_wake:
  assumes "result_inv s" and "lock_inv s"
  shows "result_inv (wake_first s)"
proof (cases "queued s")
  case (Cons i ws)
  then obtain n where i: "writers s i = Queued n" using assms(2) unfolding lock_inv_def by (metis list.set_intros(1))
  then have "i \<notin> polls s \<Longrightarrow> simulates 2 (Queued n) (answers i s)" "i \<in> polls s \<Longrightarrow> n = 0"
    using assms(1) unfolding result_inv_def by (metis, force)
  with Cons i assms show ?thesis by (auto simp: result_inv_def wake_first_def answers_def)
qed (use assms in \<open>simp add: wake_first_def\<close>)

lemma result_returns:
  assumes "result_inv s" and "writers s i = InFlight n"
  shows "result_inv (write_returns i ok s)"
proof -
  have "simulates 2 (InFlight n) (answers i s)" if "i \<notin> polls s"
    using assms that unfolding result_inv_def by metis
  then have "simulates 2 (after_write n ok) (answers i s @ [ok])" if "i \<notin> polls s" using that simulates_answer by blast
  moreover have "single_try (after_write n ok)" if "i \<in> polls s"
    using that assms unfolding result_inv_def by (force simp: after_write_def)
  ultimately show ?thesis
    using assms by (auto simp: result_inv_def write_returns_def answers_def)
qed

lemma result_gives_up: "result_inv s \<Longrightarrow> i \<in> polls s \<Longrightarrow> result_inv (give_up i s)"
  by (auto simp: result_inv_def give_up_def answers_def)

definition wire_inv :: "wire \<Rightarrow> bool" where
  "wire_inv s \<longleftrightarrow> lock_inv s \<and> order_inv s \<and> result_inv s"

lemma idle_inv: "wire_inv idle_wire"
  by (simp add: wire_inv_def idle_wire_inv) (simp add: result_inv_def idle_wire_def answers_def)

lemma proceeds_inv:
  assumes "proceeds s s'" and inv: "wire_inv s"
  shows "wire_inv s'"
proof -
  have lock: "lock_inv s" and order: "order_inv s" and result: "result_inv s" using inv by (simp_all add: wire_inv_def)
  from assms(1) show ?thesis
  proof (cases rule: proceeds.cases)
    case wakes
    then show ?thesis using lock order result by (simp add: wire_inv_def lock_wake order_wake result_wake)
  next
    case (returns i ok)
    then obtain n where "writers s i = InFlight n" using lock unfolding lock_inv_def by blast
    then show ?thesis using returns lock order result by (simp add: wire_inv_def lock_returns order_returns result_returns)
  next
    case (retries i n)
    then have i: "i \<notin> polls s" using result unfolding result_inv_def by (metis single_try.simps(1))
    then have "simulates 2 (Pausing n) (answers i s)" using result retries(2) unfolding result_inv_def by metis
    then have "result_inv (acquire i n s)" using i result by (intro result_acquire) simp_all
    then show ?thesis using retries lock order by (simp add: wire_inv_def lock_acquire order_acquire)
  next
    case (cancels i)
    then have "writers s i \<noteq> Unborn" "single_try (writers s i)"
      using lock result by (auto simp: lock_inv_def result_inv_def)
    then have "holder s = Some i \<or> i \<in> set (queued s)"
      using cancels(3) lock unfolding lock_inv_def by (cases "writers s i") auto
    then have "order_inv (give_up i s)" by (intro order_gives_up [OF order cancels(2)]) auto
    then show ?thesis using cancels lock result by (simp add: wire_inv_def lock_gives_up result_gives_up)
  qed
qed

lemma enter_inv:
  assumes "wire_inv s" and "writers s i = Unborn" and "p = (if k = 1 then insert i (polls s) else polls s)" and "k = 1 \<or> k = 2"
  shows "wire_inv (enter i k (s\<lparr>polls := p\<rparr>))"
proof -
  have inv: "lock_inv s" "order_inv s" "result_inv s" using assms(1) by (simp_all add: wire_inv_def)
  have i: "i \<notin> polls s" using inv(1) assms(2) by (auto simp: lock_inv_def)
  then have none: "answers i s = []" using inv(3) assms(2) unfolding result_inv_def by (metis simulates.simps(1))
  have "result_inv (s\<lparr>polls := p, born := xs\<rparr>)" for xs
    using inv(3) assms(2,3) by (auto simp: result_inv_def answers_def)
  then have "result_inv (enter i k (s\<lparr>polls := p\<rparr>))"
    unfolding enter_def using assms(3,4) i none
    by (intro result_acquire) (auto simp: answers_def numeral_2_eq_2 split: if_splits)
  moreover have "order_inv (enter i k (s\<lparr>polls := p\<rparr>))"
    unfolding enter_def using inv(2) assms(3) by (intro order_acquire) (auto simp: order_inv_def)
  moreover have "lock_inv (enter i k (s\<lparr>polls := p\<rparr>))"
    using inv(1) assms(2,3) by (intro lock_enter) (auto simp: lock_inv_def)
  ultimately show ?thesis by (simp add: wire_inv_def)
qed

lemma step_inv:
  assumes "wire_step s s'" and "wire_inv s"
  shows "wire_inv s'"
  using assms(1)
proof (cases rule: wire_step.cases)
  case (commands i)
  then show ?thesis using enter_inv [OF assms(2) commands(2), of "polls s" 2] by simp
next
  case (polling i)
  then show ?thesis using enter_inv [OF assms(2) polling(2), of "insert i (polls s)" 1] by simp
next
  case goes_on
  then show ?thesis using proceeds_inv assms(2) by blast
qed

lemma wire_reaches_inv: "wire_reaches s s' \<Longrightarrow> wire_inv s \<Longrightarrow> wire_inv s'"
  by (induction rule: wire_reaches.induct) (auto intro: step_inv)


subsection \<open>One write at a time, first come first served\<close>

text \<open>
  C9: writes on one connection never overlap: at every moment the writer in flight is the one
  that holds the lock, and there is no other. The lock is given in the order in which it was
  asked for; left out are only polls whose task was cancelled while they waited.
\<close>

theorem writes_serialised:
  assumes "wire_reaches idle_wire s"
  shows "{i. \<exists>n. writers s i = InFlight n} = set_option (holder s) \<and>
    subseq (begun s @ queued s) (asked s) \<and>
    mset (asked s) = mset (begun s @ queued s @ dropped_out s) \<and> set (dropped_out s) \<subseteq> polls s"
proof -
  have "wire_inv s" using wire_reaches_inv [OF assms idle_inv] .
  then have "lock_inv s" "order_inv s" by (simp_all add: wire_inv_def)
  then show ?thesis by (auto simp: lock_inv_def order_inv_def)
qed

text \<open>A schedule of steps, each made only where the code can make it.\<close>

datatype act = NewCommand nat | NewPoll nat | Wake | Answer bool | Retry nat | Cancel nat

fun act_once :: "act \<Rightarrow> wire \<Rightarrow> wire option" where
  "act_once (NewCommand i) s = (if writers s i = Unborn then Some (enter i 2 s) else None)"
| "act_once (NewPoll i) s =
     (if writers s i = Unborn \<and> list_all (\<lambda>j. j \<in> polls s \<longrightarrow> ended (writers s j)) (born s)
      then Some (enter i 1 (s\<lparr>polls := insert i (polls s)\<rparr>)) else None)"
| "act_once Wake s = (if holder s = None \<and> queued s \<noteq> [] then Some (wake_first s) else None)"
| "act_once (Answer ok) s = (case holder s of None \<Rightarrow> None | Some i \<Rightarrow> Some (write_returns i ok s))"
| "act_once (Retry i) s = (case writers s i of Pausing n \<Rightarrow> Some (acquire i n s) | _ \<Rightarrow> None)"
| "act_once (Cancel i) s = (if i \<in> polls s \<and> \<not> ended (writers s i) then Some (give_up i s) else None)"

fun play :: "act list \<Rightarrow> wire \<Rightarrow> wire option" where
  "play [] s = Some s"
| "play (a # as) s = (case act_once a s of None \<Rightarrow> None | Some s' \<Rightarrow> play as s')"

lemma act_once_steps:
  assumes "act_once a s = Some s'" and "wire_inv s" shows "wire_step s s'"
proof -
  have "polls s \<subseteq> set (born s)" using assms(2) by (simp add: wire_inv_def lock_inv_def)
  then have polls: "\<forall>j \<in> polls s. ended (writers s j)" if "list_all (\<lambda>j. j \<in> polls s \<longrightarrow> ended (writers s j)) (born s)"
    using that by (auto simp: list_all_iff)
  show ?thesis
  proof (cases a)
    case (NewCommand i)
    then show ?thesis using assms(1) by (auto intro: commands split: if_splits)
  next
    case (NewPoll i)
    then have "writers s i = Unborn" "s' = enter i 1 (s\<lparr>polls := insert i (polls s)\<rparr>)" "\<forall>j \<in> polls s. ended (writers s j)"
      using assms(1) polls by (auto split: if_splits)
    then show ?thesis using polling by simp
  qed (use assms(1) in \<open>auto intro!: goes_on proceeds.intros split: if_splits option.splits writer.splits\<close>)
qed

lemma reaches_trans: "wire_reaches s t \<Longrightarrow> wire_reaches t u \<Longrightarrow> wire_reaches s u"
  by (rotate_tac, induction rule: wire_reaches.induct) (auto intro: wire_reaches.intros)

lemma play_reaches: "play as s = Some s' \<Longrightarrow> wire_inv s \<Longrightarrow> wire_reaches s s'"
proof (induction as arbitrary: s)
  case (Cons a as)
  then obtain t where t: "act_once a s = Some t" "play as t = Some s'" by (auto split: option.splits)
  have step: "wire_step s t" by (rule act_once_steps [OF t(1) Cons.prems(2)])
  from Cons.IH [OF t(2) step_inv [OF step Cons.prems(2)]] show ?case
    using reaches_trans [OF further [OF here step]] by blast
qed (simp add: here)

text \<open>Two commands, the first write failing.\<close>

definition overtaking :: "act list" where
  "overtaking = [NewCommand 0, NewCommand 1, Answer False, Wake, Answer True, Retry 0, Answer True]"

lemmas run_wire = idle_wire_def enter_def acquire_def wake_first_def write_returns_def after_write_def becomes_def

theorem writes_serialised_witness:
  "\<exists>s. play (NewPoll 7 # take 2 overtaking) idle_wire = Some s \<and> {i. \<exists>n. writers s i = InFlight n} = {7} \<and>
     asked s = [7, 0, 1] \<and> queued s = [0, 1]"
proof -
  obtain s where run: "play (NewPoll 7 # take 2 overtaking) idle_wire = Some s" "holder s = Some 7"
      "asked s = [7, 0, 1]" "queued s = [0, 1]"
    by (simp add: overtaking_def run_wire)
  from writes_serialised [OF play_reaches [OF run(1) idle_inv]] run show ?thesis by auto
qed

subsection \<open>Each write ends as \<open>write_with_retry\<close> does\<close>

lemma ended_result:
  assumes "result_inv s" and "writers s i = Over b" and "i \<notin> polls s"
  shows "write_with_retry scripted id 2 (answers i s @ rest) = (Inr b, rest)"
proof -
  have "simulates 2 (Over b) (answers i s)" using assms unfolding result_inv_def by metis
  then show ?thesis by (simp add: write_with_retry_def del: write_attempts.simps)
qed

text \<open>
  C8: however the writers of a connection interleave, each command ends with the result that
  \<open>write_with_retry\<close>, run alone, gives on the client's answers to its own writes, and uses up
  exactly these answers: one if it was accepted, at most two.
\<close>

theorem writer_implements_retry:
  assumes "wire_reaches idle_wire s" and "writers s i = Over b" and "i \<notin> polls s"
  shows "write_with_retry scripted id 2 (answers i s @ rest) = (Inr b, rest)"
proof -
  have "result_inv s" using wire_reaches_inv [OF assms(1) idle_inv] by (simp add: wire_inv_def)
  then show ?thesis using assms(2,3) by (rule ended_result)
qed

theorem writer_implements_retry_witness:
  "\<exists>s. play overtaking idle_wire = Some s \<and> answers 0 s = [False, True] \<and>
     (\<forall>rest. write_with_retry scripted id 2 (answers 0 s @ rest) = (Inr True, rest))"
proof -
  obtain s where run: "play overtaking idle_wire = Some s" "writers s 0 = Over True" "polls s = {}"
      "answers 0 s = [False, True]"
    by (simp add: overtaking_def run_wire answers_def)
  from writer_implements_retry [OF play_reaches [OF run(1) idle_inv] run(2)] run show ?thesis by simp
qed


subsection \<open>No writer is stuck\<close>

fun weight :: "writer \<Rightarrow> nat" where
  "weight (Pausing n) = 3 * n + 3"
| "weight (Queued n) = 3 * n + 2"
| "weight (InFlight n) = 3 * n + 1"
| "weight x = 0"

text \<open>The steps that can still follow without a new request.\<close>

definition work :: "wire \<Rightarrow> nat" where
  "work s = (\<Sum>i \<in> set (born s). weight (writers s i))"

lemma work_less:
  assumes "i \<in> set (born s)" and "weight x < weight (writers s i)"
    and "born t = born s" and "writers t = (writers s)(i := x)"
  shows "work t < work s"
  unfolding work_def assms(3,4) using assms(1,2) by (intro sum_strict_mono_ex1) auto

lemma proceeds_lighter:
  assumes "proceeds s s'" and "wire_inv s"
  shows "\<exists>i x. i \<in> set (born s) \<and> weight x < weight (writers s i) \<and> born s' = born s \<and> writers s' = (writers s)(i := x)"
proof -
  have lock: "lock_inv s" using assms(2) by (simp add: wire_inv_def)
  then have exists: "i \<in> set (born s)" if "writers s i \<noteq> Unborn" for i using that by (simp add: lock_inv_def)
  from assms(1) show ?thesis
  proof (cases rule: proceeds.cases)
    case wakes
    then obtain i ws where q: "queued s = i # ws" by (cases "queued s") auto
    then obtain n where "writers s i = Queued n" using lock unfolding lock_inv_def by (metis list.set_intros(1))
    then show ?thesis using wakes q exists by (intro exI [of _ i] exI [of _ "InFlight n"]) (auto simp: wake_first_def)
  next
    case (returns i ok)
    then obtain n where "writers s i = InFlight n" using lock unfolding lock_inv_def by blast
    then show ?thesis using returns exists
      by (intro exI [of _ i] exI [of _ "after_write n ok"]) (auto simp: write_returns_def after_write_def)
  next
    case (retries i n)
    then show ?thesis using exists
      by (intro exI [of _ i] exI [of _ "if holder s = None \<and> queued s = [] then InFlight n else Queued n"])
        (auto simp: acquire_def)
  next
    case (cancels i)
    then have i: "i \<in> set (born s)" using lock by (auto simp: lock_inv_def)
    then have "weight (Over False) < weight (writers s i)"
      using lock cancels(3) unfolding lock_inv_def by (cases "writers s i") auto
    then show ?thesis using cancels i by (intro exI [of _ i] exI [of _ "Over False"]) (auto simp: give_up_def)
  qed
qed

lemma reaches_weight: "wire_reaches s s' \<Longrightarrow> wire_inv s \<Longrightarrow> \<forall>i. weight (writers s i) \<le> 5 \<Longrightarrow> weight (writers s' i) \<le> 5"
proof (induction arbitrary: i rule: wire_reaches.induct)
  case (further s t u)
  then have t: "wire_inv t" "\<forall>i. weight (writers t i) \<le> 5" using wire_reaches_inv by blast+
  from further.hyps(2) show ?case
  proof (cases rule: wire_step.cases)
    case goes_on
    then obtain j x where "weight x < weight (writers t j)" "writers u = (writers t)(j := x)"
      using proceeds_lighter t(1) by blast
    moreover have "weight (writers t j) \<le> 5" using t(2) by blast
    ultimately have "weight x \<le> 5" by linarith
    with t(2) \<open>writers u = (writers t)(j := x)\<close> show ?thesis by simp
  qed (use t in \<open>auto simp: enter_def acquire_def\<close>)
qed simp

lemma stuck_ended:
  assumes "wire_inv s" and "\<And>s'. \<not> proceeds s s'" and "i \<in> set (born s)"
  shows "ended (writers s i)"
proof -
  have lock: "lock_inv s" using assms(1) by (simp add: wire_inv_def)
  have h: "holder s = None" using assms(2) returns by (metis not_None_eq)
  then have q: "queued s = []" using assms(2) wakes by blast
  show ?thesis
  proof (cases "writers s i")
    case (Queued n)
    then show ?thesis using lock q unfolding lock_inv_def by (metis list.set(1) empty_iff)
  next
    case (InFlight n)
    then show ?thesis using lock h unfolding lock_inv_def by (metis option.distinct(1))
  next
    case (Pausing n)
    then show ?thesis using assms(2) retries by blast
  next
    case Unborn
    then show ?thesis using lock assms(3) by (simp add: lock_inv_def)
  qed simp
qed

text \<open>
  C19: no writer is stuck: without new requests, a connection makes at most five steps for each
  write that was ever asked for, and it stops only where all of them have ended.
\<close>

theorem writers_finish:
  assumes "wire_reaches idle_wire s" and "(proceeds ^^ n) s s'"
  shows "n \<le> 5 * length (born s) \<and> ((\<forall>s''. \<not> proceeds s' s'') \<longrightarrow> (\<forall>i \<in> set (born s). ended (writers s' i)))"
proof -
  have inv: "wire_inv s" using wire_reaches_inv [OF assms(1) idle_inv] .
  have "n + work s' \<le> work s \<and> wire_inv s' \<and> born s' = born s"
    using assms(2)
  proof (induction n arbitrary: s')
    case (Suc n)
    then obtain t where t: "(proceeds ^^ n) s t" "proceeds t s'" by auto
    then have ih: "n + work t \<le> work s" "wire_inv t" "born t = born s" using Suc.IH by blast+
    obtain i x where "i \<in> set (born t)" "weight x < weight (writers t i)" "born s' = born t" "writers s' = (writers t)(i := x)"
      using proceeds_lighter [OF t(2) ih(2)] by blast
    moreover from this have "work s' < work t" by (rule work_less)
    ultimately show ?case using ih proceeds_inv [OF t(2)] by simp
  qed (simp add: inv)
  moreover have "work s \<le> (\<Sum>i \<in> set (born s). 5)"
    unfolding work_def using reaches_weight [OF assms(1) idle_inv] by (intro sum_mono) (simp add: idle_wire_def)
  then have "work s \<le> 5 * length (born s)" using card_length [of "born s"] by simp
  ultimately show ?thesis using stuck_ended by auto
qed

theorem writers_finish_witness:
  "\<exists>s s'. wire_reaches idle_wire s \<and> (proceeds ^^ 3) s s' \<and> born s = [0, 1] \<and>
     ended (writers s' 0) \<and> ended (writers s' 1)"
proof -
  obtain s where run: "play [NewCommand 0, NewCommand 1] idle_wire = Some s" "born s = [0, 1]" "holder s = Some 0" "queued s = [1]"
      "writers s = (\<lambda>_. Unborn)(0 := InFlight 1, 1 := Queued 1)" "polls s = {}"
    by (simp add: run_wire)
  define s1 s2 s3 where "s1 = write_returns 0 True s" and "s2 = wake_first s1" and "s3 = write_returns 1 True s2"
  have s1: "holder s1 = None" "queued s1 = [1]" "writers s1 = (\<lambda>_. Unborn)(0 := Over True, 1 := Queued 1)" "polls s1 = {}"
    using run by (simp_all add: s1_def write_returns_def after_write_def fun_eq_iff)
  then have s2: "holder s2 = Some 1" "queued s2 = []" "writers s2 = (\<lambda>_. Unborn)(0 := Over True, 1 := InFlight 1)" "polls s2 = {}"
    by (simp_all add: s2_def wake_first_def fun_eq_iff)
  then have s3: "holder s3 = None" "queued s3 = []" "writers s3 = (\<lambda>_. Unborn)(0 := Over True, 1 := Over True)" "polls s3 = {}"
    by (simp_all add: s3_def write_returns_def after_write_def fun_eq_iff)
  have "proceeds s s1" unfolding s1_def by (rule returns [OF run(3)])
  moreover have "proceeds s1 s2" unfolding s2_def by (rule wakes [OF s1(1)]) (simp add: s1)
  moreover have "proceeds s2 s3" unfolding s3_def by (rule returns [OF s2(1)])
  ultimately have three: "(proceeds ^^ 3) s s3" by (auto simp: eval_nat_numeral)
  have "\<not> proceeds s3 s''" for s''
    using s3 by (auto elim!: proceedsE split: if_splits)
  with writers_finish [OF play_reaches [OF run(1) idle_inv] three] run(2)
  have "ended (writers s3 0)" "ended (writers s3 1)" by simp_all
  with three run(2) play_reaches [OF run(1) idle_inv] show ?thesis by blast
qed

subsection \<open>The order of the commands\<close>

definition failed_commands :: "wire \<Rightarrow> nat list" where
  "failed_commands s = filter (\<lambda>i. i \<notin> polls s) (map fst (filter (\<lambda>(i, ok). \<not> ok) (answered s)))"

text \<open>While no write of a command has failed, everyone has asked once, in the order of their creation.\<close>

definition flow_inv :: "wire \<Rightarrow> bool" where
  "flow_inv s \<longleftrightarrow>
     subseq (map fst (answered s) @ (case holder s of None \<Rightarrow> [] | Some i \<Rightarrow> [i])) (begun s) \<and>
     (\<forall>i n. writers s i = Pausing n \<longrightarrow> i \<in> set (failed_commands s)) \<and>
     (failed_commands s = [] \<longrightarrow> asked s = born s)"

lemma idle_flow: "flow_inv idle_wire"
  by (simp add: flow_inv_def idle_wire_def)

lemma failed_same: "answered s' = answered s \<Longrightarrow> polls s' = polls s \<Longrightarrow> failed_commands s' = failed_commands s"
  by (simp add: failed_commands_def)

lemma unborn_failed:
  assumes "wire_inv s" and "writers s i = Unborn"
  shows "failed_commands (s\<lparr>polls := insert i (polls s)\<rparr>) = failed_commands s"
proof -
  have inv: "lock_inv s" "result_inv s" using assms(1) by (simp_all add: wire_inv_def)
  have "i \<notin> polls s" using inv(1) assms(2) by (auto simp: lock_inv_def)
  then have "answers i s = []" using inv(2) assms(2) unfolding result_inv_def by (metis simulates.simps(1))
  then have "i \<notin> fst ` set (answered s)" by (auto simp: answers_def filter_empty_conv)
  then show ?thesis by (auto simp: failed_commands_def intro!: filter_cong)
qed

lemma flow_acquire:
  assumes "flow_inv s" and "failed_commands s = [] \<Longrightarrow> xs = asked s @ [i]"
  shows "flow_inv (acquire i n (s\<lparr>born := xs\<rparr>))"
proof -
  have "failed_commands (acquire i n (s\<lparr>born := xs\<rparr>)) = failed_commands s"
    by (rule failed_same) (simp_all add: acquire_def)
  with assms show ?thesis
    by (auto simp: flow_inv_def acquire_def subseq_snoc split: option.splits)
qed


lemma flow_wake: "flow_inv s \<Longrightarrow> holder s = None \<Longrightarrow> lock_inv s \<Longrightarrow> flow_inv (wake_first s)"
  using failed_same [of "wake_first s" s]
  by (auto simp: flow_inv_def wake_first_def subseq_snoc split: list.splits)

lemma flow_returns:
  assumes "flow_inv s" and "holder s = Some i" and "result_inv s" and "writers s i = InFlight n"
  shows "flow_inv (write_returns i ok s)"
proof -
  have fails: "failed_commands (write_returns i ok s) = failed_commands s @ (if ok \<or> i \<in> polls s then [] else [i])"
    by (simp add: failed_commands_def write_returns_def)
  have "n = 0" if "i \<in> polls s" using that assms(3,4) unfolding result_inv_def by force
  with assms(1,2,4) fails show ?thesis
    by (auto simp: flow_inv_def write_returns_def after_write_def split: if_splits)
qed

lemma flow_gives_up:
  assumes "flow_inv s" and "i \<in> polls s"
  shows "flow_inv (give_up i s)"
proof -
  have fails: "failed_commands (give_up i s) = failed_commands s"
    by (rule failed_same) (simp_all add: give_up_def)
  have "subseq (map fst (answered s)) (begun s)" if "subseq (map fst (answered s) @ [i]) (begun s)"
    using that by (rule subseq_drop_last)
  with assms fails show ?thesis
    by (auto simp: flow_inv_def give_up_def split: option.splits)
qed


lemma reaches_flow:
  assumes "wire_reaches idle_wire s"
  shows "flow_inv s"
  using assms
proof (induction "idle_wire" s rule: wire_reaches.induct)
  case here
  show ?case by (rule idle_flow)
next
  case (further s s')
  have inv: "wire_inv s" "lock_inv s" "result_inv s"
    using wire_reaches_inv [OF further.hyps(1) idle_inv] by (simp_all add: wire_inv_def)
  have flow: "flow_inv s" using further.hyps(2) by simp
  have polled: "flow_inv (s\<lparr>polls := insert i (polls s)\<rparr>)" if "writers s i = Unborn" for i
    using flow unborn_failed [OF inv(1) that] by (simp add: flow_inv_def)
  from further.hyps(3) show ?case
  proof (cases rule: wire_step.cases)
    case (commands i)
    have "flow_inv (acquire i 1 (s\<lparr>born := born s @ [i]\<rparr>))"
      using flow by (intro flow_acquire) (simp_all add: flow_inv_def)
    then show ?thesis using commands(1) by (simp add: enter_def)
  next
    case (polling i)
    let ?s = "s\<lparr>polls := insert i (polls s)\<rparr>"
    have "flow_inv (acquire i 0 (?s\<lparr>born := born s @ [i]\<rparr>))"
      using polled [OF polling(2)] by (intro flow_acquire) (simp_all add: flow_inv_def)
    then show ?thesis using polling(1) by (simp add: enter_def)
  next
    case goes_on
    then show ?thesis
    proof (cases rule: proceeds.cases)
      case (returns i ok)
      then obtain n where "writers s i = InFlight n" using inv(2) unfolding lock_inv_def by blast
      then show ?thesis using returns flow inv(3) by (simp add: flow_returns)
    next
      case (retries i n)
      then have "failed_commands s \<noteq> []" using flow by (auto simp: flow_inv_def)
      then have "flow_inv (acquire i n (s\<lparr>born := born s\<rparr>))" using flow by (intro flow_acquire) simp_all
      then show ?thesis using retries by simp
    qed (use flow inv in \<open>simp_all add: flow_wake flow_gives_up\<close>)
  qed
qed

lemma subseq_all:
  assumes "subseq xs ys" and "distinct ys" and "set ys \<subseteq> set xs"
  shows "xs = ys"
proof -
  have "card (set ys) \<le> card (set xs)" using assms(3) by (simp add: card_mono)
  then have "length ys \<le> length xs" using assms(2) card_length [of xs] by (simp add: distinct_card)
  with assms(1) show ?thesis by (metis le_antisym list_emb_length subseq_same_length)
qed

lemma ended_answered:
  assumes "result_inv s" and "writers s i = Over b" and "i \<notin> polls s"
  shows "i \<in> fst ` set (answered s)"
proof -
  have "write_with_retry scripted id 2 (answers i s @ [True]) = (Inr b, [True])"
    using ended_result [OF assms] by simp
  then have "answers i s \<noteq> []" by (auto simp: write_with_retry_def scripted_def pym_simps numeral_2_eq_2)
  then show ?thesis by (auto simp: answers_def filter_empty_conv intro: rev_image_eqI)
qed

lemma answered_in_order:
  assumes "wire_reaches idle_wire s" and "failed_commands s = []"
  shows "subseq (map fst (answered s)) (born s)"
proof -
  have "subseq (map fst (answered s)) (begun s)" "asked s = born s"
    using reaches_flow [OF assms(1)] assms(2) by (auto simp: flow_inv_def split: option.splits intro: subseq_drop_last)
  moreover have "order_inv s" using wire_reaches_inv [OF assms(1) idle_inv] by (simp add: wire_inv_def)
  then have "subseq (begun s) (asked s)"
    unfolding order_inv_def by (meson subseq_order.order_trans subseq_rev_drop_many subseq_order.order_refl list_emb_append2 list_emb_append_mono list_emb_Nil)
  ultimately show ?thesis by (metis subseq_order.order_trans)
qed

lemma commands_answered:
  assumes "wire_reaches idle_wire s" and "failed_commands s = []"
    and "\<forall>i \<in> set (born s) - polls s. ended (writers s i)"
  shows "filter (\<lambda>i. i \<notin> polls s) (map fst (answered s)) = filter (\<lambda>i. i \<notin> polls s) (born s)"
proof (rule subseq_all)
  have inv: "lock_inv s" "result_inv s" using wire_reaches_inv [OF assms(1) idle_inv] by (simp_all add: wire_inv_def)
  then show "distinct (filter (\<lambda>i. i \<notin> polls s) (born s))" by (simp add: lock_inv_def)
  show "subseq (filter (\<lambda>i. i \<notin> polls s) (map fst (answered s))) (filter (\<lambda>i. i \<notin> polls s) (born s))"
    using answered_in_order [OF assms(1,2)] by (rule subseq_filter)
  have "i \<in> fst ` set (answered s)" if "i \<in> set (born s)" "i \<notin> polls s" for i
  proof -
    obtain b where "writers s i = Over b" using assms(3) \<open>i \<in> set (born s)\<close> \<open>i \<notin> polls s\<close> by (metis DiffI ended.elims(2))
    then show ?thesis using ended_answered [OF inv(2)] \<open>i \<notin> polls s\<close> by blast
  qed
  then show "set (filter (\<lambda>i. i \<notin> polls s) (born s)) \<subseteq> set (filter (\<lambda>i. i \<notin> polls s) (map fst (answered s)))" by auto
qed

lemma commands_accepted:
  assumes "wire_reaches idle_wire s" and "failed_commands s = []"
    and "\<forall>i \<in> set (born s) - polls s. ended (writers s i)"
  shows "filter (\<lambda>(i, ok). i \<notin> polls s) (answered s) = map (\<lambda>i. (i, True)) (filter (\<lambda>i. i \<notin> polls s) (born s))"
proof -
  have "filter (\<lambda>(i, ok). i \<notin> P) xs = map (\<lambda>i. (i, True)) (filter (\<lambda>i. i \<notin> P) (map fst xs))"
    if "filter (\<lambda>i. i \<notin> P) (map fst (filter (\<lambda>(i, ok). \<not> ok) xs)) = []" for xs :: "(nat \<times> bool) list" and P
    using that by (induction xs) (auto split: if_splits)
  from this [OF assms(2) [unfolded failed_commands_def]] show ?thesis
    by (simp only: commands_answered [OF assms])
qed

text \<open>
  C20: the commands of a device reach it in the order in which it wrote them, unless one
  fails: while no write of a command failed, the answered writes are in the order in which
  they were created, polls among them; and when all commands have ended, the client has
  accepted each of them once, in that order, whatever polls came between or gave up.
\<close>

theorem commands_reach_in_order:
  assumes "wire_reaches idle_wire s" and "failed_commands s = []"
  shows "subseq (map fst (answered s)) (born s) \<and>
    ((\<forall>i \<in> set (born s) - polls s. ended (writers s i)) \<longrightarrow>
       filter (\<lambda>(i, ok). i \<notin> polls s) (answered s) = map (\<lambda>i. (i, True)) (filter (\<lambda>i. i \<notin> polls s) (born s)))"
  using answered_in_order [OF assms] commands_accepted [OF assms] by blast

theorem commands_reach_in_order_witness:
  "\<exists>s. play [NewCommand 0, NewPoll 7, NewCommand 1, Answer True, Wake, Answer False, Wake, Answer True] idle_wire = Some s \<and>
     filter (\<lambda>(i, ok). i \<notin> polls s) (answered s) = [(0, True), (1, True)]"
proof -
  obtain s where run: "play [NewCommand 0, NewPoll 7, NewCommand 1, Answer True, Wake, Answer False, Wake, Answer True] idle_wire = Some s"
      "failed_commands s = []" "polls s = {7}" "born s = [0, 7, 1]" "writers s 0 = Over True" "writers s 1 = Over True"
    by (simp add: run_wire failed_commands_def)
  have "\<forall>i \<in> set (born s) - polls s. ended (writers s i)" unfolding run(3,4) using run(5,6) by (simp add: insert_Diff_if)
  then have "filter (\<lambda>(i, ok). i \<notin> polls s) (answered s) = map (\<lambda>i. (i, True)) (filter (\<lambda>i. i \<notin> polls s) (born s))"
    using commands_reach_in_order [OF play_reaches [OF run(1) idle_inv] run(2)] by blast
  then have "filter (\<lambda>(i, ok). i \<notin> polls s) (answered s) = [(0, True), (1, True)]" unfolding run(3,4) by simp
  with run(1) show ?thesis by blast
qed

text \<open>
  a retry overtakes: of two commands whose first write fails, the second is accepted
  before the first is tried again, so the device ends with the older of the two. Both are
  reported as accepted.
\<close>

theorem retry_overtakes:
  "\<exists>s. wire_reaches idle_wire s \<and> born s = [0, 1] \<and> answered s = [(0, False), (1, True), (0, True)] \<and>
     writers s 0 = Over True \<and> writers s 1 = Over True"
proof -
  obtain s where run: "play overtaking idle_wire = Some s" "born s = [0, 1]"
      "answered s = [(0, False), (1, True), (0, True)]" "writers s 0 = Over True" "writers s 1 = Over True"
    by (simp add: overtaking_def run_wire)
  with play_reaches [OF run(1) idle_inv] show ?thesis by blast
qed

end
