(* ===== verification/Manager.thy ===== *)
theory Manager
  imports Monitor Writes
begin

section \<open>ble.py: BleManager\<close>

text \<open>
  The event loop in its thread, and what the other threads ask of it. The loop is the one of
  the standard library: a queue of callbacks, run in rounds, each round the callbacks queued
  at its start; \<open>run_coroutine_threadsafe\<close> queues a callback that makes a task, whose first
  step is queued in turn; \<open>loop.stop\<close> ends the loop after its round. A connection's coroutine
  (theory \<open>Ble\<close>) appears here as the state of its task. Between two rounds, awaited operations
  complete and other threads post callbacks (\<open>arrival\<close>). The theorems: \<open>stop\<close> leaves no task in
  the middle of a connection, and does not wait for the disconnections; commands run in the
  order in which they were submitted, within two rounds; a scan finds the devices whatever the
  case of their addresses; one task for each address, as the main program assumes.
\<close>

subsection \<open>The event loop\<close>

datatype job = InitPrimitives | AddTask string | ShutDown | RunCommand command

datatype loop_callback = Spawn job | Run job | TaskStep string | StopLoop

text \<open>
  A task has not begun, waits for an operation, has a step queued, has been cancelled and
  waits in its \<open>finally\<close> block for the disconnection, or has nothing left to do. The flag tells
  whether the step queued for it will raise a cancellation.
\<close>

datatype ble_task = Fresh bool | Suspended | Scheduled bool | Unwinding | Finished

record manager =
  adapter_name :: "string option"
  looping :: bool
  stop_set :: "bool option"
  lock_made :: bool
  task_table :: "(string \<times> ble_task) list"
  callbacks :: "loop_callback list"
  leaving :: bool
  ran :: "command list"
  requested :: "command list"

definition new_manager :: "string option \<Rightarrow> manager" where
  "new_manager adapter =
     \<lparr>adapter_name = adapter, looping = False, stop_set = None, lock_made = False, task_table = [], callbacks = [],
      leaving = False, ran = [], requested = []\<rparr>"

text \<open>
  How a coroutine goes on: after a step it waits again or has ended, and after its
  cancellation it still has a client to disconnect, or not.
\<close>

record course =
  waits_again :: "string \<Rightarrow> bool"
  disconnects :: "string \<Rightarrow> bool"

definition call_soon :: "loop_callback \<Rightarrow> manager \<Rightarrow> manager" where
  "call_soon c m = m\<lparr>callbacks := callbacks m @ [c]\<rparr>"

text \<open>\<open>self._tasks[mac] = \<dots>\<close>\<close>

definition set_task :: "string \<Rightarrow> ble_task \<Rightarrow> manager \<Rightarrow> manager" where
  "set_task mac t m = m\<lparr>task_table := map (\<lambda>(k, x). (k, if k = mac then t else x)) (task_table m)\<rparr>"

definition cancel :: "string \<Rightarrow> manager \<Rightarrow> manager" where
  "cancel mac m =
     (case map_of (task_table m) mac of
        Some Suspended \<Rightarrow> call_soon (TaskStep mac) (set_task mac (Scheduled True) m)
      | Some (Scheduled c) \<Rightarrow> set_task mac (Scheduled True) m
      | Some (Fresh c) \<Rightarrow> set_task mac (Fresh True) m
      | Some Unwinding \<Rightarrow> set_task mac Finished m
      | _ \<Rightarrow> m)"

text \<open>
  A step of a task: the first one asks whether the stop event is set, and does nothing when
  the task was cancelled before. A later step with a cancellation runs the \<open>finally\<close> block.
\<close>

definition task_step :: "course \<Rightarrow> string \<Rightarrow> manager \<Rightarrow> manager" where
  "task_step e mac m =
     (case map_of (task_table m) mac of
        Some (Fresh cancelled) \<Rightarrow>
          set_task mac (if \<not> cancelled \<and> stop_set m \<noteq> Some True \<and> waits_again e mac then Suspended else Finished) m
      | Some (Scheduled cancelled) \<Rightarrow>
          set_task mac
            (if cancelled then (if disconnects e mac then Unwinding else Finished)
             else if waits_again e mac then Suspended else Finished) m
      | _ \<Rightarrow> m)"

text \<open>The bodies of the coroutines: \<open>_init_primitives\<close>, \<open>_add\<close>, \<open>_shutdown\<close>, \<open>_cmd\<close>.\<close>

fun run_job :: "job \<Rightarrow> manager \<Rightarrow> manager" where
  "run_job InitPrimitives m = m\<lparr>stop_set := Some False, lock_made := True\<rparr>"
| "run_job (AddTask mac) m =
     (if mac \<in> fst ` set (task_table m) then m
      else call_soon (TaskStep mac) (m\<lparr>task_table := task_table m @ [(mac, Fresh False)]\<rparr>))"
| "run_job ShutDown m =
     (if stop_set m = None then m
      else foldl (\<lambda>m mac. cancel mac m) (m\<lparr>stop_set := Some True\<rparr>) (map fst (task_table m)))"
| "run_job (RunCommand c) m = m\<lparr>ran := ran m @ [c]\<rparr>"

fun run_callback :: "course \<Rightarrow> loop_callback \<Rightarrow> manager \<Rightarrow> manager" where
  "run_callback e (Spawn j) m = call_soon (Run j) m"
| "run_callback e (Run j) m = run_job j m"
| "run_callback e (TaskStep mac) m = task_step e mac m"
| "run_callback e StopLoop m = m\<lparr>leaving := True\<rparr>"

definition run_once :: "course \<Rightarrow> manager \<Rightarrow> manager" where
  "run_once e m =
     (let m' = foldl (\<lambda>m c. run_callback e c m) (m\<lparr>callbacks := []\<rparr>) (callbacks m)
      in if leaving m' then m'\<lparr>looping := False\<rparr> else m')"

datatype arrival = IoDone string | Posted job

fun arrive :: "manager \<Rightarrow> arrival \<Rightarrow> manager" where
  "arrive m (IoDone mac) =
     (case map_of (task_table m) mac of
        Some Suspended \<Rightarrow> call_soon (TaskStep mac) (set_task mac (Scheduled False) m)
      | Some Unwinding \<Rightarrow> set_task mac Finished m
      | _ \<Rightarrow> m)"
| "arrive m (Posted j) =
     (case j of RunCommand c \<Rightarrow> call_soon (Spawn j) (m\<lparr>requested := requested m @ [c]\<rparr>) | _ \<Rightarrow> call_soon (Spawn j) m)"

text \<open>\<open>run_forever\<close>, one list of arrivals for each round.\<close>

fun run_rounds :: "course \<Rightarrow> arrival list list \<Rightarrow> manager \<Rightarrow> manager" where
  "run_rounds e [] m = m"
| "run_rounds e (as # ass) m =
     (if looping m then run_rounds e ass (run_once e (foldl arrive m as)) else m)"

subsection \<open>What the other threads call\<close>

text \<open>
  Each call posts a coroutine and waits for its result; the rounds are what the loop does
  meanwhile. During \<open>start\<close> nothing else can arrive: there are no tasks and no other callers yet.
\<close>

definition start_manager :: "course \<Rightarrow> manager \<Rightarrow> manager" where
  "start_manager e m = run_rounds e [[], []] (arrive (m\<lparr>looping := True\<rparr>) (Posted InitPrimitives))"

definition register :: "course \<Rightarrow> string \<Rightarrow> arrival list list \<Rightarrow> manager \<Rightarrow> manager" where
  "register e mac rounds m = run_rounds e rounds (arrive m (Posted (AddTask mac)))"

text \<open>\<open>stop\<close> goes on when the shutdown has not run in time, here: within \<open>before\<close>.\<close>

definition stop_manager :: "course \<Rightarrow> arrival list list \<Rightarrow> arrival list list \<Rightarrow> manager \<Rightarrow> manager" where
  "stop_manager e before after m =
     run_rounds e after (call_soon StopLoop (run_rounds e before (arrive m (Posted ShutDown))))"

text \<open>The scan: the addresses in lower case; a device without a name goes by its address.\<close>

definition discover :: "(string \<times> string option) list \<Rightarrow> scan" where
  "discover found = foldl (\<lambda>m (address, name). m(lower address \<mapsto> (case truthy name of None \<Rightarrow> address | Some n \<Rightarrow> n))) Map.empty found"

record ble_client =
  client_mac :: string
  client_adapter :: "string option"
  write_lock :: wire

definition client_factory :: "manager \<Rightarrow> string \<Rightarrow> ble_client" where
  "client_factory m mac = \<lparr>client_mac = mac, client_adapter = truthy (adapter_name m), write_lock = idle_wire\<rparr>"

text \<open>The time \<open>_stop_aware_sleep\<close> takes, when the stop event is set so long from now.\<close>

definition stop_aware_sleep :: "rat \<Rightarrow> rat option \<Rightarrow> rat" where
  "stop_aware_sleep delay stop_in =
     (if delay \<le> 0 then 0 else case stop_in of None \<Rightarrow> delay | Some t \<Rightarrow> min delay (max t 0))"

text \<open>\<open>bluetoothctl\<close>, best effort: the call made, and that nothing is raised.\<close>

definition set_trusted :: "(string list \<Rightarrow> py_error + unit) \<Rightarrow> string \<Rightarrow> bool \<Rightarrow> string list \<times> (py_error + unit)" where
  "set_trusted run mac trusted =
     (let args = [''bluetoothctl'', if trusted then ''trust'' else ''untrust'', mac]
      in (args, case run args of Inl e \<Rightarrow> Inr () | Inr x \<Rightarrow> Inr x))"


subsection \<open>The tasks, by address\<close>

definition status :: "manager \<Rightarrow> string \<Rightarrow> ble_task option" where
  "status m mac = map_of (task_table m) mac"

fun cancelled_state :: "ble_task \<Rightarrow> ble_task" where
  "cancelled_state Suspended = Scheduled True"
| "cancelled_state (Scheduled c) = Scheduled True"
| "cancelled_state (Fresh c) = Fresh True"
| "cancelled_state t = Finished"

definition stepping :: "ble_task \<Rightarrow> bool" where
  "stepping t \<longleftrightarrow> (\<exists>c. t = Fresh c \<or> t = Scheduled c)"

lemma stepping_simps [simp]:
  "stepping (Fresh c)" "stepping (Scheduled c)" "\<not> stepping Suspended" "\<not> stepping Unwinding" "\<not> stepping Finished"
  by (simp_all add: stepping_def)

lemma call_soon_simps [simp]:
  "task_table (call_soon c m) = task_table m" "callbacks (call_soon c m) = callbacks m @ [c]"
  "stop_set (call_soon c m) = stop_set m" "leaving (call_soon c m) = leaving m" "looping (call_soon c m) = looping m"
  "ran (call_soon c m) = ran m" "requested (call_soon c m) = requested m" "status (call_soon c m) = status m"
  by (simp_all add: call_soon_def status_def fun_eq_iff)

lemma status_set_task [simp]:
  "status (set_task k t m) = (if status m k = None then status m else (status m)(k := Some t))"
proof
  have "map_of (map (\<lambda>(j, x). (j, if j = k then t else x)) xs) i =
      (if i = k \<and> map_of xs k \<noteq> None then Some t else map_of xs i)" for xs i
    by (induction xs) auto
  then show "status (set_task k t m) j = (if status m k = None then status m else (status m)(k := Some t)) j" for j
    by (simp add: status_def set_task_def)
qed

lemma set_task_simps [simp]:
  "callbacks (set_task k t m) = callbacks m" "stop_set (set_task k t m) = stop_set m"
  "leaving (set_task k t m) = leaving m" "looping (set_task k t m) = looping m"
  "ran (set_task k t m) = ran m" "requested (set_task k t m) = requested m"
  by (simp_all add: set_task_def)

lemma status_fields [simp]:
  "status (m\<lparr>stop_set := x\<rparr>) = status m" "status (m\<lparr>lock_made := b\<rparr>) = status m" "status (m\<lparr>callbacks := cs\<rparr>) = status m"
  "status (m\<lparr>leaving := b\<rparr>) = status m" "status (m\<lparr>looping := b\<rparr>) = status m" "status (m\<lparr>ran := r\<rparr>) = status m"
  "status (m\<lparr>requested := r\<rparr>) = status m"
  by (simp_all add: status_def fun_eq_iff)

lemma status_None: "mac \<notin> fst ` set (task_table m) \<longleftrightarrow> status m mac = None"
  by (simp add: status_def map_of_eq_None_iff)

lemma status_added:
  "status m mac = None \<Longrightarrow> status (m\<lparr>task_table := task_table m @ [(mac, t)]\<rparr>) = (status m)(mac := Some t)"
  by (auto simp: status_def fun_eq_iff map_add_def split: option.split)

lemma status_cancel: "status (cancel k m) = (status m)(k := map_option cancelled_state (status m k))"
  by (auto simp: cancel_def fun_eq_iff status_def [symmetric] split: option.split ble_task.split)

lemma task_step_status: "status (task_step e mac m) j = (if j = mac then status (task_step e mac m) mac else status m j)"
  by (auto simp: task_step_def status_def [symmetric] split: option.split ble_task.split)

lemma task_step_frame [simp]:
  "callbacks (task_step e mac m) = callbacks m" "stop_set (task_step e mac m) = stop_set m"
  "leaving (task_step e mac m) = leaving m" "looping (task_step e mac m) = looping m"
  "ran (task_step e mac m) = ran m" "requested (task_step e mac m) = requested m"
  by (simp_all add: task_step_def split: option.split ble_task.split)

lemma task_step_ends: "status (task_step e mac m) mac = Some t \<Longrightarrow> \<not> stepping t"
  by (auto simp: task_step_def status_def [symmetric] split: option.splits ble_task.splits if_splits)

text \<open>A round: what holds of the queue and the state before holds of the state after, with an empty rest.\<close>

lemma round_induct:
  assumes "P (callbacks m) (m\<lparr>callbacks := []\<rparr>)"
    and "\<And>c rest m. P (c # rest) m \<Longrightarrow> P rest (run_callback e c m)"
    and "\<And>m. P [] m \<Longrightarrow> P [] (m\<lparr>looping := False\<rparr>)"
  shows "P [] (run_once e m)"
proof -
  have "P [] (foldl (\<lambda>m c. run_callback e c m) m' cs)" if "P cs m'" for cs m'
    using that by (induction cs arbitrary: m') (auto intro: assms(2))
  from this [OF assms(1)] show ?thesis using assms(3) by (simp add: run_once_def Let_def)
qed

subsection \<open>Shutting down\<close>

text \<open>What waits for its next step has it queued; the primitives are made once.\<close>

definition queue_ok :: "loop_callback list \<Rightarrow> manager \<Rightarrow> bool" where
  "queue_ok rest m \<longleftrightarrow>
     (\<forall>mac t. status m mac = Some t \<longrightarrow> stepping t \<longrightarrow> TaskStep mac \<in> set rest \<union> set (callbacks m)) \<and>
     Spawn InitPrimitives \<notin> set rest \<union> set (callbacks m) \<and> Run InitPrimitives \<notin> set rest \<union> set (callbacks m)"

definition may_arrive :: "arrival \<Rightarrow> bool" where
  "may_arrive a \<longleftrightarrow> a \<noteq> Posted InitPrimitives"

lemma queue_step: "queue_ok rest m \<Longrightarrow> status m mac = Some t \<Longrightarrow> stepping t \<Longrightarrow> TaskStep mac \<in> set rest \<union> set (callbacks m)"
  unfolding queue_ok_def by blast

lemma queue_cancel:
  assumes "queue_ok rest m" shows "queue_ok rest (cancel k m)"
proof (cases "status m k")
  case (Some t)
  then show ?thesis
    using assms queue_step [OF assms Some]
    by (cases t) (auto simp: queue_ok_def cancel_def status_def [symmetric])
qed (use assms in \<open>simp add: cancel_def status_def [symmetric]\<close>)

lemma queue_cancels: "queue_ok rest m \<Longrightarrow> queue_ok rest (foldl (\<lambda>m mac. cancel mac m) m ks)"
  by (induction ks arbitrary: m) (auto intro: queue_cancel)

lemma queue_callback: "queue_ok (c # rest) m \<Longrightarrow> queue_ok rest (run_callback e c m)"
proof (cases c)
  case (Run j)
  assume ok: "queue_ok (c # rest) m"
  show ?thesis
  proof (cases j)
    case InitPrimitives
    then show ?thesis using ok Run by (simp add: queue_ok_def)
  next
    case (AddTask mac)
    then show ?thesis using ok Run by (auto simp: queue_ok_def status_None status_added)
  next
    case ShutDown
    have "queue_ok rest (m\<lparr>stop_set := Some True\<rparr>)" using ok Run by (auto simp: queue_ok_def)
    then have "queue_ok rest (foldl (\<lambda>m mac. cancel mac m) (m\<lparr>stop_set := Some True\<rparr>) (map fst (task_table m)))"
      by (rule queue_cancels)
    moreover have "queue_ok rest m" using ok Run by (auto simp: queue_ok_def)
    ultimately show ?thesis using Run ShutDown by simp
  next
    case (RunCommand cmd)
    then show ?thesis using ok Run by (simp add: queue_ok_def)
  qed
next
  case (TaskStep mac)
  assume ok: "queue_ok (c # rest) m"
  have "TaskStep k \<in> set rest \<union> set (callbacks m)" if "status (task_step e mac m) k = Some t" "stepping t" for k t
  proof -
    have k: "k \<noteq> mac" using that task_step_ends by blast
    then have "status m k = Some t" using that(1) task_step_status [of e mac m k] by simp
    with queue_step [OF ok this that(2)] k TaskStep show ?thesis by simp
  qed
  then show ?thesis using ok TaskStep by (simp add: queue_ok_def)
qed (auto simp: queue_ok_def)


lemma queue_round: "queue_ok [] m \<Longrightarrow> queue_ok [] (run_once e m)"
proof (rule round_induct [where P = queue_ok])
  assume "queue_ok [] m"
  then show "queue_ok (callbacks m) (m\<lparr>callbacks := []\<rparr>)" by (simp add: queue_ok_def)
qed (simp_all add: queue_callback, simp add: queue_ok_def)

lemma queue_arrive:
  assumes "queue_ok [] m" and "may_arrive a" shows "queue_ok [] (arrive m a)"
proof (cases a)
  case (IoDone mac)
  show ?thesis
  proof (cases "status m mac")
    case (Some t)
    then show ?thesis
      using assms(1) IoDone queue_step [OF assms(1)] by (cases t) (auto simp: queue_ok_def status_def [symmetric])
  qed (use assms(1) IoDone in \<open>simp add: status_def [symmetric]\<close>)
next
  case (Posted j)
  then show ?thesis using assms by (cases j) (auto simp: queue_ok_def may_arrive_def)
qed

text \<open>Once the shutdown has run, no task waits in the middle of a connection, or is about to go on.\<close>

definition closing :: "manager \<Rightarrow> bool" where
  "closing m \<longleftrightarrow> stop_set m = Some True \<and>
     (\<forall>mac. status m mac \<noteq> Some Suspended \<and> status m mac \<noteq> Some (Scheduled False))"

lemma cancels_status:
  "mac \<in> set ks \<Longrightarrow> \<exists>t. status (foldl (\<lambda>m k. cancel k m) m ks) mac = map_option cancelled_state t"
proof (induction ks rule: rev_induct)
  case (snoc k ks)
  then show ?case by (cases "mac = k") (auto simp: status_cancel)
qed simp

lemma cancels_stop: "stop_set (foldl (\<lambda>m k. cancel k m) m ks) = stop_set m"
  by (induction ks arbitrary: m) (simp_all add: cancel_def split: option.split ble_task.split)

lemma cancel_None: "status m mac = None \<Longrightarrow> status (cancel k m) mac = None"
  by (auto simp: status_cancel)

lemma cancels_other: "status m mac = None \<Longrightarrow> status (foldl (\<lambda>m k. cancel k m) m ks) mac = None"
  by (induction ks arbitrary: m) (simp_all add: cancel_None)

lemma cancelled_closed: "map_option cancelled_state t \<noteq> Some Suspended \<and> map_option cancelled_state t \<noteq> Some (Scheduled False)"
proof (cases t)
  case (Some x)
  then show ?thesis by (cases x) simp_all
qed simp

lemma shutdown_closes:
  assumes "stop_set m \<noteq> None" shows "closing (run_job ShutDown m)"
proof -
  let ?m = "m\<lparr>stop_set := Some True\<rparr>" and ?ks = "map fst (task_table m)"
  let ?c = "foldl (\<lambda>m k. cancel k m) ?m ?ks"
  have "status ?c mac \<noteq> Some Suspended \<and> status ?c mac \<noteq> Some (Scheduled False)" for mac
  proof (cases "mac \<in> set ?ks")
    case True
    then obtain t where "status ?c mac = map_option cancelled_state t" using cancels_status by blast
    then show ?thesis using cancelled_closed [of t] by simp
  next
    case False
    then have "status ?m mac = None" by (simp add: status_None [symmetric])
    then have "status ?c mac = None" by (rule cancels_other)
    then show ?thesis by simp
  qed
  with assms show ?thesis by (simp add: closing_def cancels_stop)
qed

lemma closing_callback:
  assumes "closing m" and "c \<noteq> Run InitPrimitives" shows "closing (run_callback e c m)"
proof (cases c)
  case (Run j)
  show ?thesis
  proof (cases j)
    case (AddTask mac)
    then show ?thesis using assms(1) Run by (auto simp: closing_def status_None status_added)
  next
    case ShutDown
    have "closing (run_job ShutDown m)" using assms(1) by (intro shutdown_closes) (simp add: closing_def)
    then show ?thesis using Run ShutDown by simp
  qed (use assms Run in \<open>auto simp: closing_def\<close>)
next
  case (TaskStep mac)
  then show ?thesis
    using assms(1) by (auto simp: closing_def task_step_def status_def [symmetric] split: option.split ble_task.split)
qed (use assms in \<open>auto simp: closing_def\<close>)

lemma closing_arrive: "closing m \<Longrightarrow> closing (arrive m a)"
  by (cases a) (auto simp: closing_def status_def [symmetric] split: option.split ble_task.split job.split)

lemma closing_round:
  assumes "closing m" and "queue_ok [] m" shows "closing (run_once e m)"
proof -
  have "closing (run_once e m) \<and> queue_ok [] (run_once e m)"
  proof (rule round_induct [where P = "\<lambda>rest m. closing m \<and> queue_ok rest m"])
    show "closing (m\<lparr>callbacks := []\<rparr>) \<and> queue_ok (callbacks m) (m\<lparr>callbacks := []\<rparr>)"
      using assms by (simp add: closing_def queue_ok_def)
    show "closing (run_callback e c m) \<and> queue_ok rest (run_callback e c m)"
      if "closing m \<and> queue_ok (c # rest) m" for c rest m
    proof -
      have "c \<noteq> Run InitPrimitives" using that by (auto simp: queue_ok_def)
      with that show ?thesis by (simp add: closing_callback queue_callback)
    qed
  qed (simp add: closing_def queue_ok_def)
  then show ?thesis by simp
qed


subsection \<open>What a callback leaves in the queue\<close>

lemma cancel_frame: "\<exists>ks. callbacks (cancel k m) = callbacks m @ map TaskStep ks"
  "ran (cancel k m) = ran m" "requested (cancel k m) = requested m" "leaving (cancel k m) = leaving m"
  "looping (cancel k m) = looping m"
proof -
  have "callbacks (cancel k m) \<in> {callbacks m @ map TaskStep [], callbacks m @ map TaskStep [k]}"
    by (cases "status m k") (auto simp: cancel_def status_def [symmetric] split: ble_task.split)
  then show "\<exists>ks. callbacks (cancel k m) = callbacks m @ map TaskStep ks" by blast
qed (simp_all add: cancel_def split: option.split ble_task.split)

lemma cancels_frame:
  "\<exists>js. callbacks (foldl (\<lambda>m k. cancel k m) m ks) = callbacks m @ map TaskStep js"
  "ran (foldl (\<lambda>m k. cancel k m) m ks) = ran m" "requested (foldl (\<lambda>m k. cancel k m) m ks) = requested m"
  "leaving (foldl (\<lambda>m k. cancel k m) m ks) = leaving m" "looping (foldl (\<lambda>m k. cancel k m) m ks) = looping m"
proof -
  show "\<exists>js. callbacks (foldl (\<lambda>m k. cancel k m) m ks) = callbacks m @ map TaskStep js"
  proof (induction ks rule: rev_induct)
    case (snoc k ks)
    then obtain js where "callbacks (foldl (\<lambda>m k. cancel k m) m ks) = callbacks m @ map TaskStep js" by blast
    moreover obtain js2 where "callbacks (cancel k (foldl (\<lambda>m k. cancel k m) m ks)) =
        callbacks (foldl (\<lambda>m k. cancel k m) m ks) @ map TaskStep js2"
      using cancel_frame(1) by blast
    ultimately show ?case by (intro exI [of _ "js @ js2"]) simp
  qed (simp add: exI [of _ "[]"])
  show "ran (foldl (\<lambda>m k. cancel k m) m ks) = ran m" "requested (foldl (\<lambda>m k. cancel k m) m ks) = requested m"
    "leaving (foldl (\<lambda>m k. cancel k m) m ks) = leaving m" "looping (foldl (\<lambda>m k. cancel k m) m ks) = looping m"
    by (induction ks arbitrary: m) (simp_all add: cancel_frame)
qed

lemma callback_frame:
  "\<exists>ks. callbacks (run_callback e c m) = callbacks m @ (case c of Spawn j \<Rightarrow> [Run j] | _ \<Rightarrow> map TaskStep ks)"
  "ran (run_callback e c m) = ran m @ (case c of Run (RunCommand x) \<Rightarrow> [x] | _ \<Rightarrow> [])"
  "requested (run_callback e c m) = requested m" "looping (run_callback e c m) = looping m"
  "leaving (run_callback e c m) \<longleftrightarrow> leaving m \<or> c = StopLoop"
proof -
  have jobs: "\<exists>ks. callbacks (run_job j m) = callbacks m @ map TaskStep ks" for j
  proof (cases j)
    case (AddTask mac)
    have "callbacks (run_job j m) \<in> {callbacks m @ map TaskStep [], callbacks m @ map TaskStep [mac]}"
      using AddTask by simp
    then show ?thesis by blast
  next
    case ShutDown
    then show ?thesis
      using cancels_frame(1) [of "m\<lparr>stop_set := Some True\<rparr>" "map fst (task_table m)"] by (auto intro: exI [of _ "[]"])
  qed (auto intro: exI [of _ "[]"])
  show "\<exists>ks. callbacks (run_callback e c m) = callbacks m @ (case c of Spawn j \<Rightarrow> [Run j] | _ \<Rightarrow> map TaskStep ks)"
    using jobs by (cases c) (auto intro: exI [of _ "[]"])
  have "ran (run_job j m) = ran m @ (case j of RunCommand x \<Rightarrow> [x] | _ \<Rightarrow> [])" "requested (run_job j m) = requested m"
    "looping (run_job j m) = looping m" "leaving (run_job j m) = leaving m" for j
    by (cases j; simp add: cancels_frame)+
  then show "ran (run_callback e c m) = ran m @ (case c of Run (RunCommand x) \<Rightarrow> [x] | _ \<Rightarrow> [])"
    "requested (run_callback e c m) = requested m" "looping (run_callback e c m) = looping m"
    "leaving (run_callback e c m) \<longleftrightarrow> leaving m \<or> c = StopLoop"
    by (cases c; simp split: job.split)+
qed

lemma arrive_frame:
  "\<exists>ks. callbacks (arrive m a) = callbacks m @ (case a of Posted j \<Rightarrow> [Spawn j] | _ \<Rightarrow> map TaskStep ks)"
  "ran (arrive m a) = ran m" "looping (arrive m a) = looping m" "leaving (arrive m a) = leaving m"
  "stop_set (arrive m a) = stop_set m"
  "requested (arrive m a) = requested m @ (case a of Posted (RunCommand c) \<Rightarrow> [c] | _ \<Rightarrow> [])"
proof -
  have io: "callbacks (arrive m (IoDone mac)) \<in> {callbacks m @ map TaskStep [], callbacks m @ map TaskStep [mac]}" for mac
    by (auto split: option.split ble_task.split)
  show "\<exists>ks. callbacks (arrive m a) = callbacks m @ (case a of Posted j \<Rightarrow> [Spawn j] | _ \<Rightarrow> map TaskStep ks)"
  proof (cases a)
    case (IoDone mac)
    have "\<exists>ks. callbacks (arrive m (IoDone mac)) = callbacks m @ map TaskStep ks" using io [of mac] by blast
    with IoDone show ?thesis by (simp only: arrival.case)
  next
    case (Posted j)
    then show ?thesis by (simp split: job.split)
  qed
qed (cases a; auto split: option.split ble_task.split job.split)+


text \<open>The loop runs on, whatever arrives: no one has asked it to end.\<close>

definition serving :: "manager \<Rightarrow> bool" where
  "serving m \<longleftrightarrow> looping m \<and> \<not> leaving m \<and> StopLoop \<notin> set (callbacks m)"

lemma serving_arrive: "serving m \<Longrightarrow> serving (arrive m a)"
proof -
  assume m: "serving m"
  obtain ks where "callbacks (arrive m a) = callbacks m @ (case a of Posted j \<Rightarrow> [Spawn j] | _ \<Rightarrow> map TaskStep ks)"
    using arrive_frame(1) by blast
  with m show ?thesis by (auto simp: serving_def arrive_frame split: arrival.splits)
qed

text \<open>A callback that is in the queue is run in the next round, in the order of the queue.\<close>

lemma callbacks_run:
  assumes "callbacks (run_callback e c m) = callbacks m @ new"
  shows "StopLoop \<notin> set new"
proof -
  obtain ks where "callbacks (run_callback e c m) = callbacks m @ (case c of Spawn j \<Rightarrow> [Run j] | _ \<Rightarrow> map TaskStep ks)"
    using callback_frame(1) by blast
  with assms show ?thesis by (auto split: loop_callback.splits)
qed

lemma serving_round:
  assumes "serving m" shows "serving (run_once e m)"
proof -
  let ?P = "\<lambda>rest m. StopLoop \<notin> set rest \<and> serving m"
  have step: "?P rest (run_callback e c m)" if "?P (c # rest) m" for c rest m
  proof -
    obtain new where "callbacks (run_callback e c m) = callbacks m @ new" using callback_frame(1) by blast
    with callbacks_run [OF this] that show ?thesis by (auto simp: serving_def callback_frame)
  qed
  have "?P [] (foldl (\<lambda>m c. run_callback e c m) m' cs)" if "?P cs m'" for cs m'
    using that by (induction cs arbitrary: m') (use step in auto)
  from this [of "callbacks m" "m\<lparr>callbacks := []\<rparr>"] assms
  have "serving (foldl (\<lambda>m c. run_callback e c m) (m\<lparr>callbacks := []\<rparr>) (callbacks m))" by (simp add: serving_def)
  then show ?thesis by (simp add: run_once_def Let_def serving_def)
qed

text \<open>What is spawned is run two rounds later.\<close>

lemma round_spawns:
  assumes "Spawn j \<in> set (callbacks m)" shows "Run j \<in> set (callbacks (run_once e m))"
proof -
  have "Spawn j \<in> set [] \<or> Run j \<in> set (callbacks (run_once e m))"
  proof (rule round_induct [where P = "\<lambda>rest m. Spawn j \<in> set rest \<or> Run j \<in> set (callbacks m)"])
    show "Spawn j \<in> set rest \<or> Run j \<in> set (callbacks (run_callback e c m))"
      if "Spawn j \<in> set (c # rest) \<or> Run j \<in> set (callbacks m)" for c rest m
    proof -
      obtain ks where "callbacks (run_callback e c m) = callbacks m @ (case c of Spawn j \<Rightarrow> [Run j] | _ \<Rightarrow> map TaskStep ks)"
        using callback_frame(1) by blast
      with that show ?thesis by auto
    qed
  qed (use assms in auto)
  then show ?thesis by simp
qed

lemma round_shuts_down:
  assumes "Run ShutDown \<in> set (callbacks m)" and "stop_set m \<noteq> None" and "queue_ok [] m"
  shows "closing (run_once e m)"
proof -
  let ?P = "\<lambda>rest m. queue_ok rest m \<and> stop_set m \<noteq> None \<and> (Run ShutDown \<in> set rest \<or> closing m)"
  have "?P [] (run_once e m)"
  proof (rule round_induct [where P = ?P])
    show "?P (callbacks m) (m\<lparr>callbacks := []\<rparr>)" using assms by (simp add: queue_ok_def)
    show "?P rest (run_callback e c m)" if p: "?P (c # rest) m" for c rest m
    proof -
      have c: "c \<noteq> Run InitPrimitives" using p by (auto simp: queue_ok_def)
      have "stop_set (run_job j m) = stop_set m \<or> closing (run_job j m)" if "j \<noteq> InitPrimitives" for j
        using that p shutdown_closes [of m] by (cases j) auto
      then have "stop_set (run_callback e c m) = stop_set m \<or> closing (run_callback e c m)"
        using c by (cases c) auto
      then have "stop_set (run_callback e c m) \<noteq> None" using p by (auto simp: closing_def)
      moreover have "closing (run_callback e c m)" if "c = Run ShutDown" using that p shutdown_closes [of m] by simp
      ultimately show ?thesis using p c queue_callback closing_callback by auto
    qed
  qed (simp add: queue_ok_def closing_def)
  then show ?thesis by simp
qed


text \<open>The last round: each task still in a connection gets its cancellation.\<close>

definition closed_state :: "ble_task \<Rightarrow> bool" where
  "closed_state t \<longleftrightarrow> (\<exists>c. t = Fresh c) \<or> t = Unwinding \<or> t = Finished"

lemma cancels_back:
  "status (foldl (\<lambda>m k. cancel k m) m ks) mac = Some (Scheduled b) \<Longrightarrow>
     status m mac = Some Suspended \<or> (\<exists>b. status m mac = Some (Scheduled b))"
proof (induction ks arbitrary: b rule: rev_induct)
  case (snoc k ks)
  let ?m = "foldl (\<lambda>m k. cancel k m) m ks"
  have "status ?m mac = Some Suspended \<or> (\<exists>b. status ?m mac = Some (Scheduled b))"
    using snoc.prems by (auto simp: status_cancel split: if_splits elim: cancelled_state.elims)
  moreover have "status ?m mac \<noteq> Some Suspended \<or> status m mac = Some Suspended"
  proof (induction ks rule: rev_induct)
    case (snoc j js)
    then show ?case by (auto simp: status_cancel split: if_splits elim: cancelled_state.elims)
  qed simp
  ultimately show ?case using snoc.IH by blast
qed simp

lemma scheduled_before:
  assumes "closing m" and "c \<noteq> Run InitPrimitives" and "status (run_callback e c m) mac = Some (Scheduled b)"
  shows "(\<exists>b. status m mac = Some (Scheduled b)) \<and> c \<noteq> TaskStep mac"
proof (cases c)
  case (TaskStep k)
  then have "k \<noteq> mac" using assms(3) task_step_ends by fastforce
  then show ?thesis using TaskStep assms(3) task_step_status [of e k m mac] by auto
next
  case (Run j)
  show ?thesis
  proof (cases j)
    case (AddTask k)
    then show ?thesis using assms(3) Run by (auto simp: status_None status_added split: if_splits)
  next
    case ShutDown
    then have "status (foldl (\<lambda>m k. cancel k m) (m\<lparr>stop_set := Some True\<rparr>) (map fst (task_table m))) mac = Some (Scheduled b)"
      using assms(1,3) Run by (simp add: closing_def)
    from cancels_back [OF this] show ?thesis using assms(1) Run by (auto simp: closing_def)
  qed (use assms Run in auto)
qed (use assms in auto)

lemma round_closes:
  assumes "closing m" and "queue_ok [] m" and "status (run_once e m) mac = Some t"
  shows "closed_state t"
proof -
  let ?P = "\<lambda>rest m. closing m \<and> queue_ok rest m \<and> (\<forall>mac c. status m mac = Some (Scheduled c) \<longrightarrow> TaskStep mac \<in> set rest)"
  have "?P [] (run_once e m)"
  proof (rule round_induct [where P = ?P])
    show "?P (callbacks m) (m\<lparr>callbacks := []\<rparr>)"
      using assms(1,2) queue_step [OF assms(2)] by (auto simp: closing_def queue_ok_def)
    show "?P rest (run_callback e c m)" if p: "?P (c # rest) m" for c rest m
    proof -
      have c: "c \<noteq> Run InitPrimitives" using p by (auto simp: queue_ok_def)
      have "TaskStep mac \<in> set rest" if sch: "status (run_callback e c m) mac = Some (Scheduled b)" for mac b
        using scheduled_before [OF _ c sch] p by auto
      with p c queue_callback closing_callback show ?thesis by auto
    qed
  qed (simp add: closing_def queue_ok_def)
  then have "closing (run_once e m)" "\<And>c. t \<noteq> Scheduled c" using assms(3) by auto
  then show ?thesis using assms(3) by (cases t) (auto simp: closing_def closed_state_def)
qed


lemma arrivals_keep:
  assumes "list_all may_arrive as" and "queue_ok [] m"
  shows "queue_ok [] (foldl arrive m as)" "serving m \<Longrightarrow> serving (foldl arrive m as)"
    "closing m \<Longrightarrow> closing (foldl arrive m as)" "stop_set (foldl arrive m as) = stop_set m"
    "\<exists>cs. callbacks (foldl arrive m as) = callbacks m @ cs"
  using assms
proof (induction as arbitrary: m)
  case (Cons a as)
  { case 1 then show ?case using Cons.IH(1) queue_arrive by simp }
  { case 2 then show ?case using Cons.IH(2) queue_arrive serving_arrive by simp }
  { case 3 then show ?case using Cons.IH(3) queue_arrive closing_arrive by simp }
  { case 4 then show ?case using Cons.IH(4) queue_arrive by (simp add: arrive_frame) }
  { case 5
    then obtain cs where "callbacks (foldl arrive (arrive m a) as) = callbacks (arrive m a) @ cs"
      using Cons.IH(5) [of "arrive m a"] queue_arrive by auto
    moreover obtain cs2 where "callbacks (arrive m a) = callbacks m @ cs2" using arrive_frame(1) by blast
    ultimately show ?case by simp }
qed simp_all


lemma round_leaves:
  assumes "StopLoop \<in> set (callbacks m)" shows "\<not> looping (run_once e m)"
proof -
  have "leaving (foldl (\<lambda>m c. run_callback e c m) m' cs)" if "StopLoop \<in> set cs \<or> leaving m'" for cs m'
    using that by (induction cs arbitrary: m') (auto simp: callback_frame)
  with assms show ?thesis by (simp add: run_once_def Let_def)
qed

lemma stop_set_callback: "stop_set m \<noteq> None \<Longrightarrow> stop_set (run_callback e c m) \<noteq> None"
proof -
  assume m: "stop_set m \<noteq> None"
  have "stop_set (run_job j m) \<noteq> None" for j using m by (cases j) (auto simp: cancels_stop)
  then show ?thesis using m by (cases c) simp_all
qed

lemma round_stop_set: "stop_set m \<noteq> None \<Longrightarrow> stop_set (run_once e m) \<noteq> None"
  by (rule round_induct [where P = "\<lambda>rest m. stop_set m \<noteq> None"]) (simp_all add: stop_set_callback)

text \<open>What holds of a running loop, and stays so.\<close>

definition running_ok :: "manager \<Rightarrow> bool" where
  "running_ok m \<longleftrightarrow> serving m \<and> queue_ok [] m \<and> stop_set m \<noteq> None"

lemma running_round:
  assumes "running_ok m" and "list_all may_arrive as"
  shows "running_ok (run_once e (foldl arrive m as))" "closing m \<Longrightarrow> closing (run_once e (foldl arrive m as))"
proof -
  have m: "serving m" "queue_ok [] m" "stop_set m \<noteq> None" using assms(1) by (simp_all add: running_ok_def)
  note keep = arrivals_keep [OF assms(2) m(2)]
  show "running_ok (run_once e (foldl arrive m as))"
    using keep m by (simp add: running_ok_def serving_round queue_round round_stop_set)
  show "closing (run_once e (foldl arrive m as))" if "closing m"
    using keep that by (simp add: closing_round)
qed

lemma running_rounds:
  assumes "running_ok m" and "list_all (list_all may_arrive) ass"
  shows "running_ok (run_rounds e ass m) \<and> (closing m \<longrightarrow> closing (run_rounds e ass m))"
  using assms
proof (induction ass arbitrary: m)
  case (Cons as ass)
  have "looping m" using Cons.prems(1) by (simp add: running_ok_def serving_def)
  then show ?case using Cons running_round [OF Cons.prems(1), of as e] by simp
qed simp

lemma started:
  "start_manager e (new_manager adapter) = (new_manager adapter)\<lparr>looping := True, stop_set := Some False, lock_made := True\<rparr>"
  by (simp add: start_manager_def new_manager_def run_once_def call_soon_def)

lemma started_running: "running_ok (start_manager e (new_manager adapter))"
  unfolding started by (simp add: running_ok_def serving_def queue_ok_def new_manager_def status_def)

text \<open>
  C17: \<open>stop\<close> leaves no connection in use: whatever the tasks were doing and whatever else the
  loop was asked meanwhile, once \<open>stop\<close> has returned, the loop has ended and each device's task
  has either not connected, or got its cancellation and run its \<open>finally\<close> block up to the
  disconnection, provided the shutdown had its two rounds within the 5 seconds.
\<close>

theorem stop_leaves_no_connection:
  assumes "m = run_rounds e ass (start_manager e (new_manager adapter))"
    and "list_all (list_all may_arrive) (ass @ before @ after)" and "2 \<le> length before" and "1 \<le> length after"
  shows "\<not> looping (stop_manager e before after m) \<and>
    (\<forall>mac t. map_of (task_table (stop_manager e before after m)) mac = Some t \<longrightarrow> closed_state t)"
proof -
  have arr: "list_all (list_all may_arrive) ass" "list_all (list_all may_arrive) before" "list_all (list_all may_arrive) after"
    using assms(2) by simp_all
  have m: "running_ok m" using running_rounds [OF started_running arr(1)] assms(1) by simp
  let ?m0 = "arrive m (Posted ShutDown)"
  have m0: "running_ok ?m0"
    using m serving_arrive [of m "Posted ShutDown"] queue_arrive [of m "Posted ShutDown"]
    by (simp add: running_ok_def may_arrive_def del: arrive.simps) (simp add: arrive_frame del: arrive.simps)
  obtain a1 a2 more where before: "before = a1 # a2 # more" using assms(3) by (metis Suc_le_length_iff numeral_2_eq_2)
  let ?m1 = "run_once e (foldl arrive ?m0 a1)"
  have a: "list_all may_arrive a1" "list_all may_arrive a2" "list_all (list_all may_arrive) more" using arr(2) before by simp_all
  obtain cs where "callbacks (foldl arrive ?m0 a1) = callbacks ?m0 @ cs"
    using arrivals_keep(5) [OF a(1)] m0 unfolding running_ok_def by blast
  then have run1: "Run ShutDown \<in> set (callbacks ?m1)" by (intro round_spawns) simp
  have m1: "running_ok ?m1" using running_round(1) [OF m0 a(1)] .
  let ?m2 = "run_once e (foldl arrive ?m1 a2)"
  obtain cs2 where "callbacks (foldl arrive ?m1 a2) = callbacks ?m1 @ cs2"
    using arrivals_keep(5) [OF a(2)] m1 unfolding running_ok_def by blast
  then have "closing ?m2"
    using run1 m1 arrivals_keep [OF a(2), of ?m1] by (intro round_shuts_down) (auto simp: running_ok_def)
  moreover have m2: "running_ok ?m2" using running_round(1) [OF m1 a(2)] .
  ultimately have closed: "running_ok (run_rounds e more ?m2)" "closing (run_rounds e more ?m2)"
    using running_rounds [OF m2 a(3)] by blast+
  have "looping ?m0" "looping ?m1" using m0 m1 by (simp_all add: running_ok_def serving_def)
  then have done_before: "run_rounds e before ?m0 = run_rounds e more ?m2" using before by simp
  let ?m3 = "call_soon StopLoop (run_rounds e more ?m2)"
  have m3: "queue_ok [] ?m3" "closing ?m3" "looping ?m3" "StopLoop \<in> set (callbacks ?m3)"
    using closed by (auto simp: running_ok_def queue_ok_def closing_def serving_def)
  obtain b rest where after: "after = b # rest" using assms(4) by (cases after) auto
  then have b: "list_all may_arrive b" using arr(3) by simp
  let ?m4 = "run_once e (foldl arrive ?m3 b)"
  obtain cs3 where "callbacks (foldl arrive ?m3 b) = callbacks ?m3 @ cs3" using arrivals_keep(5) [OF b m3(1)] by blast
  then have ended: "\<not> looping ?m4" using m3(4) by (intro round_leaves) auto
  then have same: "run_rounds e rest ?m4 = ?m4" by (cases rest) simp_all
  have stop: "stop_manager e before after m = ?m4"
    using done_before m3(3) after same by (simp add: stop_manager_def)
  have "closed_state t" if "status ?m4 mac = Some t" for mac t
    using round_closes [OF arrivals_keep(3) [OF b m3(1,2)] arrivals_keep(1) [OF b m3(1)] that] .
  with ended show ?thesis unfolding stop by (simp add: status_def)
qed


text \<open>A device that is connected when the program stops.\<close>

definition busy_course :: course where
  "busy_course = \<lparr>waits_again = (\<lambda>_. True), disconnects = (\<lambda>_. True)\<rparr>"

definition busy_manager :: manager where
  "busy_manager = run_rounds busy_course
     [[Posted (AddTask ''7c:01'')], [], [], [IoDone ''7c:01'']]
     (start_manager busy_course (new_manager None))"

lemma started_fresh:
  "start_manager e \<lparr>adapter_name = adapter, looping = False, stop_set = None, lock_made = False, task_table = [],
      callbacks = [], leaving = False, ran = [], requested = []\<rparr> =
   \<lparr>adapter_name = adapter, looping = True, stop_set = Some False, lock_made = True, task_table = [],
      callbacks = [], leaving = False, ran = [], requested = []\<rparr>"
  using started [of e adapter] by (simp add: new_manager_def)

lemmas run_manager = busy_course_def run_once_def call_soon_def set_task_def cancel_def task_step_def stop_manager_def started_fresh new_manager_def

theorem stop_leaves_no_connection_witness:
  "pred_option closed_state (map_of (task_table (stop_manager busy_course
     [[], [Posted (RunCommand (''regulator'', ''power_switch'', ''1''))]] [[]] busy_manager)) ''7c:01'')"
proof -
  have "list_all (list_all may_arrive) ([[Posted (AddTask ''7c:01'')], [], [], [IoDone ''7c:01'']] @
      [[], [Posted (RunCommand (''regulator'', ''power_switch'', ''1''))]] @ [[]])"
    by (simp add: may_arrive_def)
  from stop_leaves_no_connection [OF busy_manager_def this] show ?thesis by (simp add: option.pred_set)
qed

text \<open>
  \<open>stop\<close> does not wait for the disconnections: it ends the loop as soon as the cancellations
  have been asked for, so a device that is connected at that time gets its \<open>finally\<close> block
  started, and the \<open>disconnect\<close> in it is abandoned.
\<close>

theorem stop_abandons_disconnect:
  "map_of (task_table busy_manager) ''7c:01'' = Some Suspended \<and>
   \<not> looping (stop_manager e [[], []] [[]] busy_manager) \<and>
   (disconnects e ''7c:01'' \<longrightarrow>
      (\<forall>after. map_of (task_table (stop_manager e [[], []] ([] # after) busy_manager)) ''7c:01'' = Some Unwinding))"
proof -
  have busy: "busy_manager = \<lparr>adapter_name = None, looping = True, stop_set = Some False, lock_made = True,
      task_table = [(''7c:01'', Suspended)], callbacks = [], leaving = False, ran = [], requested = []\<rparr>"
    by (simp add: busy_manager_def run_manager)
  have "stop_manager e [[], []] ([] # after) busy_manager = \<lparr>adapter_name = None, looping = False, stop_set = Some True,
      lock_made = True, task_table = [(''7c:01'', if disconnects e ''7c:01'' then Unwinding else Finished)], callbacks = [],
      leaving = True, ran = [], requested = []\<rparr>" for after
    by (cases after) (simp_all add: busy run_manager)
  then show ?thesis by (simp add: busy)
qed

subsection \<open>Commands run in the order of their submission\<close>

fun runs :: "loop_callback list \<Rightarrow> command list" where
  "runs [] = []"
| "runs (c # cs) = (case c of Run (RunCommand x) \<Rightarrow> [x] | _ \<Rightarrow> []) @ runs cs"

fun spawns :: "loop_callback list \<Rightarrow> command list" where
  "spawns [] = []"
| "spawns (c # cs) = (case c of Spawn (RunCommand x) \<Rightarrow> [x] | _ \<Rightarrow> []) @ spawns cs"

lemma runs_append [simp]: "runs (xs @ ys) = runs xs @ runs ys" "spawns (xs @ ys) = spawns xs @ spawns ys"
  by (induction xs) auto

lemma runs_steps [simp]: "runs (map TaskStep ks) = []" "spawns (map TaskStep ks) = []"
  by (induction ks) auto

lemma callback_commands:
  "runs (callbacks (run_callback e c m)) = runs (callbacks m) @ (case c of Spawn (RunCommand x) \<Rightarrow> [x] | _ \<Rightarrow> [])"
  "spawns (callbacks (run_callback e c m)) = spawns (callbacks m)"
proof -
  obtain ks where "callbacks (run_callback e c m) = callbacks m @ (case c of Spawn j \<Rightarrow> [Run j] | _ \<Rightarrow> map TaskStep ks)"
    using callback_frame(1) by blast
  then show "runs (callbacks (run_callback e c m)) = runs (callbacks m) @ (case c of Spawn (RunCommand x) \<Rightarrow> [x] | _ \<Rightarrow> [])"
    "spawns (callbacks (run_callback e c m)) = spawns (callbacks m)"
    by (cases c; simp split: job.split)+
qed

lemma round_commands:
  "ran (run_once e m) = ran m @ runs (callbacks m)" "runs (callbacks (run_once e m)) = spawns (callbacks m)"
  "spawns (callbacks (run_once e m)) = []" "requested (run_once e m) = requested m"
proof -
  have "ran (foldl (\<lambda>m c. run_callback e c m) m' cs) = ran m' @ runs cs \<and>
      runs (callbacks (foldl (\<lambda>m c. run_callback e c m) m' cs)) = runs (callbacks m') @ spawns cs \<and>
      spawns (callbacks (foldl (\<lambda>m c. run_callback e c m) m' cs)) = spawns (callbacks m') \<and>
      requested (foldl (\<lambda>m c. run_callback e c m) m' cs) = requested m'" for cs m'
    by (induction cs arbitrary: m') (simp_all add: callback_frame callback_commands split: loop_callback.split job.split)
  from this [of "m\<lparr>callbacks := []\<rparr>" "callbacks m"]
  show "ran (run_once e m) = ran m @ runs (callbacks m)" "runs (callbacks (run_once e m)) = spawns (callbacks m)"
    "spawns (callbacks (run_once e m)) = []" "requested (run_once e m) = requested m"
    by (simp_all add: run_once_def Let_def)
qed

lemma arrivals_commands:
  "\<exists>new. ran (foldl arrive m as) = ran m \<and> runs (callbacks (foldl arrive m as)) = runs (callbacks m) \<and>
     spawns (callbacks (foldl arrive m as)) = spawns (callbacks m) @ new \<and> requested (foldl arrive m as) = requested m @ new \<and>
     looping (foldl arrive m as) = looping m"
proof (induction as arbitrary: m)
  case (Cons a as)
  obtain new where new: "ran (foldl arrive (arrive m a) as) = ran (arrive m a)"
    "runs (callbacks (foldl arrive (arrive m a) as)) = runs (callbacks (arrive m a))"
    "spawns (callbacks (foldl arrive (arrive m a) as)) = spawns (callbacks (arrive m a)) @ new"
    "requested (foldl arrive (arrive m a) as) = requested (arrive m a) @ new"
    "looping (foldl arrive (arrive m a) as) = looping (arrive m a)"
    using Cons.IH by blast
  obtain ks where ks: "callbacks (arrive m a) = callbacks m @ (case a of Posted j \<Rightarrow> [Spawn j] | _ \<Rightarrow> map TaskStep ks)"
    using arrive_frame(1) by blast
  have "runs (callbacks (arrive m a)) = runs (callbacks m)"
    "spawns (callbacks (arrive m a)) = spawns (callbacks m) @ (case a of Posted (RunCommand c) \<Rightarrow> [c] | _ \<Rightarrow> [])"
    unfolding ks by (cases a; simp split: job.split)+
  with new show ?case
    by (intro exI [of _ "(case a of Posted (RunCommand c) \<Rightarrow> [c] | _ \<Rightarrow> []) @ new"]) (simp add: arrive_frame)
qed simp

lemma rounds_commands:
  "requested m = ran m @ runs (callbacks m) @ spawns (callbacks m) \<Longrightarrow>
     requested (run_rounds e ass m) = ran (run_rounds e ass m) @ runs (callbacks (run_rounds e ass m)) @
       spawns (callbacks (run_rounds e ass m)) \<and> (\<exists>more. ran (run_rounds e ass m) = ran m @ more)"
proof (induction ass arbitrary: m)
  case (Cons as ass)
  obtain new where new: "ran (foldl arrive m as) = ran m" "runs (callbacks (foldl arrive m as)) = runs (callbacks m)"
     "spawns (callbacks (foldl arrive m as)) = spawns (callbacks m) @ new" "requested (foldl arrive m as) = requested m @ new"
    using arrivals_commands by blast
  let ?m = "run_once e (foldl arrive m as)"
  have "requested ?m = ran ?m @ runs (callbacks ?m) @ spawns (callbacks ?m)"
    using new Cons.prems by (simp add: round_commands)
  from Cons.IH [OF this] new Cons.prems show ?case by (auto simp: round_commands)
qed simp

lemma commands_queued:
  assumes "m = run_rounds e ass (start_manager e (new_manager adapter))"
  shows "requested m = ran m @ runs (callbacks m) @ spawns (callbacks m)"
proof -
  have "requested (start_manager e (new_manager adapter)) = []" "ran (start_manager e (new_manager adapter)) = []"
    "callbacks (start_manager e (new_manager adapter)) = []"
    unfolding started by (simp_all add: new_manager_def)
  then show ?thesis using rounds_commands [of "start_manager e (new_manager adapter)" e ass] assms by simp
qed

lemma run_rounds_append: "run_rounds e (xs @ ys) m = run_rounds e ys (run_rounds e xs m)"
proof (induction xs arbitrary: m)
  case (Cons x xs)
  then show ?case by (cases ys) simp_all
qed simp

text \<open>
  commands from Home Assistant run on the event loop in the order in which the bridge
  submitted them, each once, whatever else the loop has to do; and each has run two rounds of
  the loop later.
\<close>

theorem commands_run_in_order:
  assumes "m = run_rounds e ass (start_manager e (new_manager adapter))"
    and "m' = run_rounds e (as1 # as2 # rest) m" and "looping (run_rounds e [as1] m)" and "looping m"
  shows "(\<exists>waiting. requested m = ran m @ waiting) \<and> (\<exists>later. ran m' = requested m @ later)"
proof -
  have m: "requested m = ran m @ runs (callbacks m) @ spawns (callbacks m)" using commands_queued [OF assms(1)] .
  obtain new where new: "ran (foldl arrive m as1) = ran m" "runs (callbacks (foldl arrive m as1)) = runs (callbacks m)"
     "spawns (callbacks (foldl arrive m as1)) = spawns (callbacks m) @ new" "requested (foldl arrive m as1) = requested m @ new"
    using arrivals_commands by blast
  let ?m1 = "run_once e (foldl arrive m as1)"
  have m1: "ran ?m1 = ran m @ runs (callbacks m)" "runs (callbacks ?m1) = spawns (callbacks m) @ new"
      "spawns (callbacks ?m1) = []" "requested ?m1 = requested m @ new"
    using new by (simp_all add: round_commands)
  obtain new2 where new2: "ran (foldl arrive ?m1 as2) = ran ?m1" "runs (callbacks (foldl arrive ?m1 as2)) = runs (callbacks ?m1)"
     "spawns (callbacks (foldl arrive ?m1 as2)) = spawns (callbacks ?m1) @ new2" "requested (foldl arrive ?m1 as2) = requested ?m1 @ new2"
    using arrivals_commands by blast
  let ?m2 = "run_once e (foldl arrive ?m1 as2)"
  have m2: "ran ?m2 = requested m @ new" "requested ?m2 = ran ?m2 @ runs (callbacks ?m2) @ spawns (callbacks ?m2)"
    using m m1 new2 by (simp_all add: round_commands)
  have "m' = run_rounds e rest ?m2" using assms(2-4) by simp
  with rounds_commands [OF m2(2)] m2(1) have "\<exists>later. ran m' = requested m @ later" by (metis append.assoc)
  with m show ?thesis by blast
qed


theorem commands_run_in_order_witness:
  "ran (run_rounds busy_course [[], []] (run_rounds busy_course [[Posted (RunCommand (''a'', ''x'', ''1'')), Posted (RunCommand (''a'', ''x'', ''0''))]]
     (start_manager busy_course (new_manager None)))) = [(''a'', ''x'', ''1''), (''a'', ''x'', ''0'')]"
proof -
  let ?m = "run_rounds busy_course [[Posted (RunCommand (''a'', ''x'', ''1'')), Posted (RunCommand (''a'', ''x'', ''0''))]]
     (start_manager busy_course (new_manager None))"
  let ?x = "(''a'', ''x'', ''1'')" and ?y = "(''a'', ''x'', ''0'')"
  have m: "?m = \<lparr>adapter_name = None, looping = True, stop_set = Some False, lock_made = True, task_table = [],
      callbacks = [Run (RunCommand ?x), Run (RunCommand ?y)], leaving = False, ran = [], requested = [?x, ?y]\<rparr>"
    by (simp add: run_manager)
  have one: "run_rounds busy_course [[]] ?m = \<lparr>adapter_name = None, looping = True, stop_set = Some False, lock_made = True,
      task_table = [], callbacks = [], leaving = False, ran = [?x, ?y], requested = [?x, ?y]\<rparr>"
    unfolding m by (simp add: run_once_def)
  have two: "ran (run_rounds busy_course [[], []] ?m) = ran (run_rounds busy_course [[]] (run_rounds busy_course [[]] ?m))" by simp
  have len: "length (ran (run_rounds busy_course [[], []] ?m)) = 2" unfolding two one by (simp add: run_once_def)
  have m': "looping ?m" "requested ?m = [?x, ?y]" unfolding m by simp_all
  have "looping (run_rounds busy_course [[]] ?m)" unfolding one by simp
  from commands_run_in_order [OF refl refl this m'(1)]
  obtain later where "ran (run_rounds busy_course [[], []] ?m) = requested ?m @ later" by blast
  then have ran: "ran (run_rounds busy_course [[], []] ?m) = [?x, ?y] @ later" by (simp only: m'(2))
  with len have "later = []" by (simp only: length_append list.size) simp
  with ran show ?thesis by (simp only: append_Nil2)
qed

subsection \<open>One task for each address, as the main program assumes\<close>

text \<open>
  \<open>register\<close> in two quiet rounds does to the table what \<open>register_task\<close> of theory \<open>Monitor\<close> does to
  the list of tasks.
\<close>

lemma register_refines:
  assumes "looping m" and "callbacks m = []" and "\<not> leaving m" and "loop_reply w (map fst (task_table m)) mac = Inr ()"
  shows "map fst (task_table (register e mac [[], []] m)) =
    tasks (snd (register_task w mac (a\<lparr>tasks := map fst (task_table m)\<rparr>)))"
  using assms by (auto simp: register_def run_once_def register_task_def call_soon_def)

subsection \<open>Scanning\<close>

lemma discover_snoc:
  "discover (xs @ [(address, name)]) =
     (discover xs)(lower address \<mapsto> (case truthy name of None \<Rightarrow> address | Some n \<Rightarrow> n))"
  by (simp add: discover_def)

lemma discover_dom: "discover xs mac \<noteq> None \<longleftrightarrow> mac \<in> (\<lambda>(address, name). lower address) ` set xs"
proof (induction xs rule: rev_induct)
  case (snoc x xs)
  then show ?case by (cases x) (auto simp: discover_snoc)
qed (simp add: discover_def)

text \<open>
  a scan finds a configured device whatever the case in which its address is written, in
  the configuration or by the adapter: the main program registers the device exactly when one
  that was seen has this address and it can be constructed.
\<close>

theorem scan_ignores_case:
  assumes "cfg_get cfg section ''mac'' = Some m" and "map_of (configured_devices cfg) section = Some mac"
  shows "ready w cfg (discover seen) section \<longleftrightarrow>
    (\<exists>address name. (address, name) \<in> set seen \<and> lower address = lower m) \<and> (\<exists>d. make_device w section mac = Inr d)"
proof -
  have "(section, mac) \<in> set (configured_devices cfg)" using assms(2) by (rule map_of_SomeD)
  then have mac: "mac = lower m" using assms(1) by (auto simp: configured_devices_def truthy_def split: option.splits if_splits)
  have "ready w cfg (discover seen) section \<longleftrightarrow> discover seen mac \<noteq> None \<and> (\<exists>d. make_device w section mac = Inr d)"
    using assms(2) by (auto simp: ready_def)
  also have "discover seen mac \<noteq> None \<longleftrightarrow> (\<exists>address name. (address, name) \<in> set seen \<and> lower address = lower m)"
    unfolding discover_dom mac by force
  finally show ?thesis .
qed

theorem scan_ignores_case_witness:
  "ready small_world small_config (discover [(''D8:02'', None)]) ''regulator'' \<and>
   \<not> ready small_world small_config (discover [(''D8:02'', None)]) ''battery_1''"
proof -
  have mac: "cfg_get small_config ''regulator'' ''mac'' = Some ''D8:02''" "cfg_get small_config ''battery_1'' ''mac'' = Some ''7C:01''"
    by (simp_all add: cfg_get_def small_config_def)
  have reg: "map_of (configured_devices small_config) ''regulator'' = Some ''d8:02''"
    "map_of (configured_devices small_config) ''battery_1'' = Some ''7c:01''"
    by (simp_all add: small_devices)
  have make: "\<exists>d. make_device small_world n m = Inr d" for n m by (simp add: small_world_def)
  have "lower ''D8:02'' \<noteq> lower ''7C:01''" by code_simp
  then show ?thesis
    using scan_ignores_case [OF mac(1) reg(1), of small_world "[(''D8:02'', None)]"]
      scan_ignores_case [OF mac(2) reg(2), of small_world "[(''D8:02'', None)]"] make by simp
qed

end
