(* ===== verification/CommandPath.thy ===== *)
theory CommandPath
  imports VEDirect Manager Bridge
begin

section \<open>A switch command on its way from MQTT to the inverter\<close>

text \<open>
  The five parts a command goes through, put together: the lists that \<open>on_message\<close> fills and
  the bridge thread drains (\<open>Bridge\<close>), the event loop that runs what was submitted (\<open>Manager\<close>),
  \<open>run_command\<close> with the VEDirect plugin (\<open>Device\<close>, \<open>VEDirect\<close>), and the writers of the connection
  with their lock (\<open>Writes\<close>).
\<close>

text \<open>What the plugin writes for a command.\<close>

definition inverter_writes :: "uuid \<Rightarrow> string \<times> string \<Rightarrow> (bytes \<times> uuid) list" where
  "inverter_writes c =
     (\<lambda>(var, message).
        if var \<noteq> ''power_switch'' then []
        else case py_int message of
               None \<Rightarrow> []
             | Some n \<Rightarrow>
                 if n = 0 then [([0x06, 0x03, 0x82, 0x19, 0x02, 0x00, 0x41, 0x04], c)]
                 else if n = 1 then [([0x06, 0x03, 0x82, 0x19, 0x02, 0x00, 0x41, 0x02], c)]
                 else if n = 5 then [([0x06, 0x03, 0x82, 0x19, 0x02, 0x00, 0x41, 0x05], c)]
                 else [])"

definition ready_to_write :: "uuid \<Rightarrow> device \<Rightarrow> bool" where
  "ready_to_write c d \<longleftrightarrow> connected d \<and> loop_alive d \<and> write_commands d = Some c"

lemma run_inverter_command:
  assumes "ready_to_write c d"
  shows "snd (run_command vedirect_plugin var message (u, d)) = (u, d\<lparr>writes := writes d @ inverter_writes c (var, message)\<rparr>)"
  using assms
  by (simp add: run_command_def vedirect_plugin_def vedirect_cmd_def inverter_writes_def ve_request_def ready_to_write_def
      pym_simps on_device_def write_to_commands_def characteristic_write_value_def split: option.split)

lemma serve_inverter_commands:
  "ready_to_write c d \<Longrightarrow> serve vedirect_plugin (map (\<lambda>(var, message). Command var message) cs) (u, d) =
     (u, d\<lparr>writes := writes d @ concat (map (inverter_writes c) cs)\<rparr>)"
proof (induction cs arbitrary: d)
  case (Cons k cs)
  obtain var message where k: "k = (var, message)" by (rule prod.exhaust)
  have "ready_to_write c (d\<lparr>writes := ws\<rparr>)" for ws using Cons.prems by (simp add: ready_to_write_def)
  from Cons.IH [OF this] show ?case
    by (simp add: k serve_def run_inverter_command [OF Cons.prems])
qed (simp add: serve_def)



end
