(* ===== verification/Capture.thy ===== *)
theory Capture
  imports Meritsun
begin

section \<open>plugins/Meritsun/dev/frame\_integrity.py: judging a capture\<close>

text \<open>
  The debug hook of the Meritsun plugin writes each notification to a file, and the script
  \<open>frame_integrity.py\<close> reports how many frames in such a capture are whole and pass the
  checksum. It cuts the stream and checks a frame with code of its own. The theorem: on the
  capture of any session in which the parser's buffer did not overflow, the script counts
  exactly the frames the plugin accepted and rejected.
\<close>

subsection \<open>The hook\<close>

text \<open>\<open>bytes.hex()\<close> and \<open>f"{datetime.now()} <- {data.hex()}"\<close>, without the newline.\<close>

definition low_hex_char :: "int \<Rightarrow> char" where
  "low_hex_char n = ''0123456789abcdef'' ! nat n"

definition hex_string :: "bytes \<Rightarrow> string" where
  "hex_string bs = concat (map (\<lambda>b. [low_hex_char (b div 16), low_hex_char (b mod 16)]) bs)"

definition debug_line :: "string \<Rightarrow> bytes \<Rightarrow> string" where
  "debug_line now data = now @ '' <- '' @ hex_string data"

subsection \<open>The script\<close>

definition low_hex :: "char \<Rightarrow> bool" where
  "low_hex c \<longleftrightarrow> c \<in> set ''0123456789abcdef''"

text \<open>\<open>re.search("<- ([0-9a-f]+)$", line.strip())\<close>\<close>

fun search_line :: "string \<Rightarrow> string option" where
  "search_line [] = None"
| "search_line (c # cs) =
     (let rest = drop 3 (c # cs) in
      if is_prefix_of ''<- '' (c # cs) \<and> rest \<noteq> [] \<and> list_all low_hex rest then Some rest else search_line cs)"

definition capture_line :: "string \<Rightarrow> string option" where
  "capture_line line = search_line (strip line)"

text \<open>\<open>bytes.fromhex\<close> of such characters, which raises when their number is odd.\<close>

definition hex_digit_of :: "char \<Rightarrow> int" where
  "hex_digit_of c = (if is_digit c then digit_val c else of_char c - 87)"

fun from_hex :: "string \<Rightarrow> py_error + bytes" where
  "from_hex [] = Inr []"
| "from_hex [c] = Inl ValueError"
| "from_hex (a # b # cs) =
     (case from_hex cs of Inl e \<Rightarrow> Inl e | Inr bs \<Rightarrow> Inr ((16 * hex_digit_of a + hex_digit_of b) # bs))"

fun read_capture :: "string list \<Rightarrow> py_error + bytes list" where
  "read_capture [] = Inr []"
| "read_capture (line # lines) =
     (case capture_line line of
        None \<Rightarrow> read_capture lines
      | Some h \<Rightarrow>
          (case from_hex h of
             Inl e \<Rightarrow> Inl e
           | Inr bs \<Rightarrow> (case read_capture lines of Inl e \<Rightarrow> Inl e | Inr bss \<Rightarrow> Inr (bs # bss))))"

definition FRAME :: nat where
  "FRAME = 121"

definition MARKERS :: "int list" where
  "MARKERS = [0x92, 0xC9]"

definition script_frame_end :: "bytes \<Rightarrow> nat" where
  "script_frame_end packet =
     foldl (\<lambda>e i. if packet ! i = 0x0C \<and> e < 110 then i + 1 else e) 0 [1..<min (length packet) 122]"

definition passes_checksum :: "bytes \<Rightarrow> bool" where
  "passes_checksum packet =
     (let buf = take 122 packet @ replicate (122 - length packet) 0; e = script_frame_end packet
      in 60 \<le> e \<and> checksum_matches buf (int e))"

definition mark_positions :: "bytes \<Rightarrow> nat list" where
  "mark_positions xs = map fst (filter (\<lambda>(i, b). b \<in> set MARKERS) (zip [0..<length xs] xs))"

definition capture_frames :: "bytes \<Rightarrow> bytes list" where
  "capture_frames xs = (let marks = mark_positions xs in map (\<lambda>(a, b). section_of xs a b) (zip marks (tl marks)))"

record frame_report =
  notifications :: nat
  frames :: nat
  intact :: nat
  good :: nat

definition report_of :: "bytes list \<Rightarrow> frame_report" where
  "report_of ns =
     (let fs = capture_frames (concat ns) in
      \<lparr>notifications = length ns, frames = length fs, intact = length (filter (\<lambda>f. length f = FRAME) fs),
       good = length (filter passes_checksum fs)\<rparr>)"

definition frame_integrity :: "string list \<Rightarrow> py_error + frame_report" where
  "frame_integrity lines = (case read_capture lines of Inl e \<Rightarrow> Inl e | Inr ns \<Rightarrow> Inr (report_of ns))"

text \<open>The percentages of the two lines printed, \<open>{100 * n / max(len(frames), 1):.0f}\<close>.\<close>

definition percentage :: "nat \<Rightarrow> nat \<Rightarrow> int" where
  "percentage n of_all = round_even (fl (of_nat (100 * n) / of_nat (max of_all 1)))"

subsection \<open>What the hook writes, the script reads\<close>

lemma hex_digits:
  assumes "0 \<le> n" and "n < 16"
  shows "low_hex (low_hex_char n) \<and> hex_digit_of (low_hex_char n) = n \<and> \<not> is_space (low_hex_char n)"
  by (rule nibble_rule [OF assms]) code_simp

lemma hex_string_simps [simp]:
  "hex_string [] = []"
  "hex_string (b # bs) = low_hex_char (b div 16) # low_hex_char (b mod 16) # hex_string bs"
  by (simp_all add: hex_string_def)

lemma hex_string_chars: "is_bytes bs \<Longrightarrow> list_all (\<lambda>c. low_hex c \<and> \<not> is_space c) (hex_string bs)"
  by (induction bs) (auto simp: hex_digits dest!: nibbles)

lemma from_hex_string: "is_bytes bs \<Longrightarrow> from_hex (hex_string bs) = Inr bs"
  by (induction bs) (auto simp: hex_digits dest!: nibbles)


lemma search_skip:
  "\<not> (is_prefix_of ''<- '' (c # cs) \<and> drop 3 (c # cs) \<noteq> [] \<and> list_all low_hex (drop 3 (c # cs))) \<Longrightarrow>
     search_line (c # cs) = search_line cs"
  by (simp only: search_line.simps Let_def if_False)

lemma search_line_at:
  assumes "list_all low_hex h" and "h \<noteq> []"
  shows "search_line (pre @ ''<- '' @ h) = Some h"
proof (induction pre)
  case Nil
  show ?case using assms by (simp add: Let_def)
next
  case (Cons c pre)
  have "\<not> (is_prefix_of ''<- '' (c # pre @ ''<- '' @ h) \<and> drop 3 (c # pre @ ''<- '' @ h) \<noteq> [] \<and>
      list_all low_hex (drop 3 (c # pre @ ''<- '' @ h)))"
  proof
    assume a: "is_prefix_of ''<- '' (c # pre @ ''<- '' @ h) \<and> drop 3 (c # pre @ ''<- '' @ h) \<noteq> [] \<and>
      list_all low_hex (drop 3 (c # pre @ ''<- '' @ h))"
    have no: "\<not> low_hex CHR ''-''" "\<not> low_hex CHR '' ''" "\<not> low_hex CHR ''<''" by (simp_all add: low_hex_def)
    obtain a1 p1 where "pre = [] \<or> pre = [a1] \<or> (\<exists>a2. pre = a1 # a2 # p1)" by (metis neq_Nil_conv)
    with a no show False by (auto simp: drop_Cons' split: if_splits)
  qed
  from search_skip [OF this] Cons.IH show ?case by (simp only: append_Cons)
qed

lemma search_line_none: "search_line (pre @ ''<-'') = None"
proof (induction pre)
  case Nil
  show ?case by (simp add: Let_def)
next
  case (Cons c pre)
  have no: "\<not> low_hex CHR ''-''" "\<not> low_hex CHR ''<''" by (simp_all add: low_hex_def)
  have "\<not> (is_prefix_of ''<- '' (c # pre @ ''<-'') \<and> drop 3 (c # pre @ ''<-'') \<noteq> [] \<and> list_all low_hex (drop 3 (c # pre @ ''<-'')))"
  proof
    assume a: "is_prefix_of ''<- '' (c # pre @ ''<-'') \<and> drop 3 (c # pre @ ''<-'') \<noteq> [] \<and> list_all low_hex (drop 3 (c # pre @ ''<-''))"
    obtain a1 p1 where "pre = [] \<or> pre = [a1] \<or> (\<exists>a2. pre = a1 # a2 # p1)" by (metis neq_Nil_conv)
    with a no show False by (auto simp: drop_Cons' split: if_splits)
  qed
  from search_skip [OF this] Cons.IH show ?case by (simp only: append_Cons)
qed

lemma strip_ends:
  assumes "ys \<noteq> []" and "\<not> is_space (last ys)" and "\<not> is_space (hd ys)"
  shows "\<exists>pre. strip (xs @ ys) = pre @ ys"
proof -
  have rev: "dropWhile is_space (rev zs) = rev zs" if "zs \<noteq> []" "\<not> is_space (last zs)" for zs
    using that by (cases zs rule: rev_cases) simp_all
  show ?thesis
  proof (cases "\<forall>c \<in> set xs. is_space c")
    case True
    then have "dropWhile is_space (xs @ ys) = ys" using assms(1,3) by (cases ys) (auto simp: dropWhile_append2)
    then show ?thesis using rev [OF assms(1,2)] by (simp add: strip_def)
  next
    case False
    then have "dropWhile is_space (xs @ ys) = dropWhile is_space xs @ ys" by (auto simp: dropWhile_append1)
    moreover have "dropWhile is_space (rev (dropWhile is_space xs @ ys)) = rev (dropWhile is_space xs @ ys)"
      using assms(1,2) by (intro rev) auto
    ultimately show ?thesis by (simp add: strip_def)
  qed
qed

lemma capture_debug_line:
  assumes "is_bytes data"
  shows "capture_line (debug_line now data) = (if data = [] then None else Some (hex_string data))"
proof (cases "data = []")
  case True
  have "\<exists>pre. strip (now @ '' <- '') = pre @ ''<-''"
  proof -
    have "strip (now @ '' <- '') = rev (dropWhile is_space (rev (dropWhile is_space (now @ '' <- ''))))" by (simp add: strip_def)
    have sp: "is_space CHR '' ''" "\<not> is_space CHR ''-''" "\<not> is_space CHR ''<''" by (simp_all add: is_space_def)
    show ?thesis
    proof (cases "\<forall>c \<in> set now. is_space c")
      case True
      then have "dropWhile is_space (now @ '' <- '') = ''<- ''" using sp by (simp add: dropWhile_append2)
      then show ?thesis using sp by (simp add: strip_def)
    next
      case False
      then have "dropWhile is_space (now @ '' <- '') = dropWhile is_space now @ '' <- ''" by (auto simp: dropWhile_append1)
      then show ?thesis using sp by (simp add: strip_def)
    qed
  qed
  then show ?thesis using True search_line_none by (auto simp: capture_line_def debug_line_def)
next
  case False
  have h: "hex_string data \<noteq> []" "list_all low_hex (hex_string data)"
    using False hex_string_chars [OF assms] by (cases data, simp_all add: list_all_iff)
  have "\<not> is_space (last (hex_string data))" using h(1) hex_string_chars [OF assms] by (simp add: list_all_iff)
  then obtain pre where "strip ((now @ '' '') @ ''<- '' @ hex_string data) = pre @ ''<- '' @ hex_string data"
    using strip_ends [of "''<- '' @ hex_string data" "now @ '' ''"] h(1) by (auto simp: is_space_def)
  then show ?thesis using False search_line_at [OF h(2,1), of pre] by (simp add: capture_line_def debug_line_def)
qed

lemma read_debug_lines:
  assumes "list_all is_bytes ns" and "length nows = length ns"
  shows "read_capture (map2 debug_line nows ns) = Inr (filter (\<lambda>n. n \<noteq> []) ns)"
  using assms
proof (induction nows ns rule: list_induct2')
  case (4 now nows n ns)
  then show ?case by (simp add: capture_debug_line from_hex_string)
qed simp_all


subsection \<open>Both cut the stream at the same places\<close>

lemma marker_is_mark: "b \<in> set MARKERS \<longleftrightarrow> is_mark b"
  by (auto simp: MARKERS_def is_mark_def START_VAL_def START_VAL2_def)

lemma zip_from: "zip [k..<k + length xs] xs = map (\<lambda>(i, b). (k + i, b)) (zip [0..<length xs] xs)"
proof (induction xs arbitrary: k rule: rev_induct)
  case (snoc x xs)
  then show ?case using snoc.IH [of k] by (simp add: zip_append1 zip_append2)
qed simp

lemma mark_positions_Cons:
  "mark_positions (b # xs) = (if is_mark b then [0] else []) @ map Suc (mark_positions xs)"
proof -
  have "[0..<length (b # xs)] = 0 # [Suc 0..<Suc 0 + length xs]" by (simp add: upt_rec)
  then have "zip [0..<length (b # xs)] (b # xs) = (0, b) # map (\<lambda>(i, b). (Suc i, b)) (zip [0..<length xs] xs)"
    using zip_from [of "Suc 0" xs] by simp
  then show ?thesis
    unfolding mark_positions_def by (simp add: marker_is_mark filter_map comp_def case_prod_beta')
qed

lemma mark_positions_Nil [simp]: "mark_positions [] = []"
  by (simp add: mark_positions_def)

lemma mark_positions_pre: "unmarked pre \<Longrightarrow> mark_positions (pre @ xs) = map (\<lambda>i. length pre + i) (mark_positions xs)"
  by (induction pre) (simp_all add: mark_positions_Cons comp_def map_idI)

lemma no_marks: "unmarked xs \<Longrightarrow> mark_positions xs = []"
  using mark_positions_pre [of xs "[]"] by simp

text \<open>The unfinished packet at the end of a stream, from its last mark on.\<close>

definition tail_of :: "bytes \<Rightarrow> bytes" where
  "tail_of xs = (case mark_positions xs of [] \<Rightarrow> [] | m # ms \<Rightarrow> drop (last (m # ms)) xs)"

lemma section_shift: "section_of (pre @ xs) (length pre + a) (length pre + b) = section_of xs a b"
  by (simp add: section_of_def)

lemma frames_shift:
  "map (\<lambda>(a, b). section_of (pre @ xs) a b) (zip (map (\<lambda>i. length pre + i) ms) (map (\<lambda>i. length pre + i) ns)) =
   map (\<lambda>(a, b). section_of xs a b) (zip ms ns)"
  by (auto simp: zip_map_map section_shift)

lemma capture_frames_pre: "unmarked pre \<Longrightarrow> capture_frames (pre @ xs) = capture_frames xs"
  by (simp only: capture_frames_def Let_def mark_positions_pre map_tl [symmetric] frames_shift)

lemma tail_of_pre: "unmarked pre \<Longrightarrow> tail_of (pre @ xs) = tail_of xs"
  by (auto simp: tail_of_def mark_positions_pre last_map split: list.split)

lemma capture_frames_eqs:
  "unmarked xs \<Longrightarrow> capture_frames xs = []" "is_mark m \<Longrightarrow> unmarked xs \<Longrightarrow> capture_frames (m # xs) = []"
  "is_mark m \<Longrightarrow> unmarked body \<Longrightarrow> is_mark m' \<Longrightarrow>
     capture_frames (m # body @ m' # rest) = (m # body) # capture_frames (m' # rest)"
proof -
  show "unmarked xs \<Longrightarrow> capture_frames xs = []" by (simp add: capture_frames_def no_marks)
  show "is_mark m \<Longrightarrow> unmarked xs \<Longrightarrow> capture_frames (m # xs) = []"
    by (simp add: capture_frames_def mark_positions_Cons no_marks)
  assume m: "is_mark m" "unmarked body" "is_mark m'"
  let ?b = "m # body" and ?r = "m' # rest" and ?k = "map (\<lambda>i. length (m # body) + i)"
  have marks: "mark_positions (?b @ ?r) = 0 # ?k (mark_positions ?r)"
    using m by (simp add: mark_positions_Cons mark_positions_pre comp_def)
  have "mark_positions ?r = 0 # tl (mark_positions ?r)" using m(3) by (simp add: mark_positions_Cons)
  then have "zip (0 # ?k (mark_positions ?r)) (?k (mark_positions ?r)) =
      (0, length ?b) # zip (?k (mark_positions ?r)) (?k (tl (mark_positions ?r)))"
    by (metis (no_types, lifting) add.right_neutral list.simps(9) zip_Cons_Cons)
  then have "capture_frames (?b @ ?r) = section_of (?b @ ?r) 0 (length ?b) # capture_frames ?r"
    by (simp only: capture_frames_def Let_def marks list.sel list.map prod.case frames_shift)
  then show "capture_frames (m # body @ m' # rest) = (m # body) # capture_frames (m' # rest)"
    by (simp add: section_of_def)
qed

lemma tail_of_eqs:
  "unmarked xs \<Longrightarrow> tail_of xs = []" "is_mark m \<Longrightarrow> unmarked xs \<Longrightarrow> tail_of (m # xs) = m # xs"
  "is_mark m \<Longrightarrow> unmarked body \<Longrightarrow> is_mark m' \<Longrightarrow> tail_of (m # body @ m' # rest) = tail_of (m' # rest)"
  by (simp_all add: tail_of_def mark_positions_Cons mark_positions_pre no_marks last_map comp_def split: list.split)


subsection \<open>Both judge a frame alike\<close>

definition counts :: "meritsun \<times> device \<Rightarrow> nat \<times> nat" where
  "counts s = (frames_ok (fst s), frames_bad (fst s))"

definition judged :: "bytes list \<Rightarrow> nat \<times> nat \<Rightarrow> nat \<times> nat" where
  "judged fs c = (fst c + length (filter passes_checksum fs), snd c + length (filter (\<lambda>f. \<not> passes_checksum f) fs))"

lemma judged_simps:
  "judged [] c = c" "judged (f # fs) c = judged fs (judged [f] c)" "judged (fs @ gs) c = judged gs (judged fs c)"
  by (simp_all add: judged_def)

lemma passes_iff:
  "passes_checksum packet \<longleftrightarrow> \<not> (frame_end packet < 60 \<or> \<not> checksum_matches (packet_buf packet) (int (frame_end packet)))"
proof -
  have "script_frame_end packet = frame_end packet" by (simp add: script_frame_end_def frame_end_def END_VAL_def)
  then show ?thesis by (simp add: passes_checksum_def Let_def packet_buf_def not_less)
qed

lemma counts_message: "counts (snd (handle_message m full s)) = counts s"
proof -
  obtain u d where "s = (u, d)" by (rule prod.exhaust)
  then show ?thesis
    by (auto simp: counts_def handle_message_def Let_def pym_simps on_util_def on_device_def
        split: option.split prod.splits sum.splits)
qed

lemma counts_packet: "counts (snd (handle_data_packet packet s)) = judged [packet] (counts s)"
proof (cases "passes_checksum packet")
  case True
  obtain u d where s: "s = (u, d)" by (rule prod.exhaust)
  have "handle_data_packet packet s = handle_message (section_of (packet_buf packet) 1 (min (length packet) 121)) (length packet \<le> 130)
      (u\<lparr>rev_buf := packet_buf packet, rev_index := min (length packet) 121, end_pos := frame_end packet, frames_ok := frames_ok u + 1\<rparr>, d)"
    using True s by (simp add: handle_data_packet_def Let_def passes_iff pym_simps on_util_def)
  then show ?thesis using True s by (simp add: counts_message) (simp add: counts_def judged_def)
next
  case False
  obtain u d where s: "s = (u, d)" by (rule prod.exhaust)
  have "frame_end packet < 60 \<or> \<not> checksum_matches (packet_buf packet) (int (frame_end packet))"
    using False passes_iff by blast
  then have bad: "(frame_end packet < 60 \<or> \<not> checksum_matches (packet_buf packet) (int (frame_end packet))) = True" by (rule eqTrueI)
  have "snd (handle_data_packet packet s) =
      (u\<lparr>rev_buf := packet_buf packet, rev_index := min (length packet) 121, end_pos := frame_end packet, frames_bad := frames_bad u + 1\<rparr>, d)"
    unfolding handle_data_packet_def Let_def bad s if_True by (simp add: pym_simps on_util_def)
  then show ?thesis using False s by (simp add: counts_def judged_def)
qed

lemma counts_with_stream [simp]: "counts (with_stream xs s) = counts s"
  by (simp add: counts_def with_stream_def split: prod.split)

lemma drain_counts:
  assumes "drain xs upd s = (Inr b, s')"
  shows "counts s' = judged (capture_frames xs) (counts s) \<and> stream (fst s') = tail_of xs"
  using assms
proof (induction "length xs" arbitrary: xs upd s rule: less_induct)
  case less
  show ?case
  proof (cases xs rule: mark_cases)
    case none
    then show ?thesis using less.prems by (auto simp: drain_eqs pym_simps run_set_stream' capture_frames_eqs tail_of_eqs judged_simps(1))
  next
    case (one pre m rest)
    then show ?thesis using less.prems
      by (auto simp: drain_eqs pym_simps run_set_stream' capture_frames_pre tail_of_pre capture_frames_eqs tail_of_eqs judged_simps(1))
  next
    case (two pre m body m' rest)
    obtain r s1 where one: "handle_data_packet (m # body) (with_stream (m' # rest) s) = (r, s1)" by (rule prod.exhaust)
    then obtain c where r: "r = Inr c" "drain (m' # rest) (c \<or> upd) s1 = (Inr b, s')"
      using less.prems two by (cases r) (auto simp: drain_eqs pym_simps run_set_stream')
    have "counts s1 = judged [m # body] (counts s)" using counts_packet [of "m # body" "with_stream (m' # rest) s"] one by simp
    moreover have "counts s' = judged (capture_frames (m' # rest)) (counts s1) \<and> stream (fst s') = tail_of (m' # rest)"
      using two r(2) by (intro less.hyps) simp_all
    moreover have "capture_frames xs = (m # body) # capture_frames (m' # rest)" "tail_of xs = tail_of (m' # rest)"
      using two by (simp_all add: capture_frames_pre tail_of_pre capture_frames_eqs tail_of_eqs)
    ultimately show ?thesis using judged_simps(2) [of "m # body" "capture_frames (m' # rest)"] by (simp del: drain.simps)
  qed
qed

text \<open>A longer stream: the frames of a part, and those of the rest behind its unfinished packet.\<close>

lemma capture_frames_append:
  "capture_frames (xs @ ys) = capture_frames xs @ capture_frames (tail_of xs @ ys) \<and> tail_of (xs @ ys) = tail_of (tail_of xs @ ys)"
proof (induction "length xs" arbitrary: xs rule: less_induct)
  case less
  show ?case
  proof (cases xs rule: mark_cases)
    case none
    then show ?thesis by (simp add: capture_frames_pre tail_of_pre capture_frames_eqs tail_of_eqs)
  next
    case (one pre m rest)
    then show ?thesis by (simp add: capture_frames_pre tail_of_pre capture_frames_eqs tail_of_eqs)
  next
    case (two pre m body m' rest)
    then have "capture_frames ((m' # rest) @ ys) = capture_frames (m' # rest) @ capture_frames (tail_of (m' # rest) @ ys) \<and>
        tail_of ((m' # rest) @ ys) = tail_of (tail_of (m' # rest) @ ys)"
      by (intro less) simp
    then show ?thesis
      using two by (simp add: capture_frames_pre tail_of_pre capture_frames_eqs tail_of_eqs)
  qed
qed

subsection \<open>A session and its capture\<close>

definition serve_notifications :: "uuid \<Rightarrow> bytes list \<Rightarrow> meritsun \<times> device \<Rightarrow> meritsun \<times> device" where
  "serve_notifications char ns s = foldl (\<lambda>s data. snd (meritsun_notification data char s)) s ns"

text \<open>The parser's buffer stays within its 512 bytes; \<open>rest\<close> is what it holds.\<close>

fun no_overflow :: "bytes \<Rightarrow> bytes list \<Rightarrow> bool" where
  "no_overflow rest [] = True"
| "no_overflow rest (n # ns) = (length (rest @ n) \<le> 512 \<and> no_overflow (if n = [] then rest else tail_of (rest @ n)) ns)"

lemma serve_counts:
  assumes "wf_device (snd s)" and "no_overflow (stream (fst s)) ns" and "tail_of (stream (fst s)) = stream (fst s)"
    and "capture_frames (stream (fst s)) = []"
  shows "counts (serve_notifications c ns s) = judged (capture_frames (stream (fst s) @ concat ns)) (counts s)"
  using assms
proof (induction ns arbitrary: s)
  case Nil
  then show ?case by (simp add: serve_notifications_def judged_simps(1))
next
  case (Cons n ns)
  obtain u d where s: "s = (u, d)" by (rule prod.exhaust)
  show ?case
  proof (cases "n = []")
    case True
    then have "snd (meritsun_notification n c s) = s" by (simp add: meritsun_notification_def pym_simps)
    then show ?thesis using Cons.IH [OF Cons.prems(1) _ Cons.prems(3,4)] Cons.prems(2) True
      by (simp add: serve_notifications_def)
  next
    case False
    obtain b u' d' where run: "meritsun_notification n c (u, d) = (Inr b, (u', d'))" "wf_device d'"
      using meritsun_returns [of d n c u] Cons.prems(1) s False by auto
    have short: "length (stream u @ n) \<le> 512" using Cons.prems(2) s by simp
    then have "drain (stream u @ n) False (u, d) = (Inr b, (u', d'))"
      using run(1) False by (simp add: meritsun_notification_def util_state_def pym_simps trim_def)
    from drain_counts [OF this]
    have one: "counts (u', d') = judged (capture_frames (stream u @ n)) (counts s)" "stream u' = tail_of (stream u @ n)"
      using s by simp_all
    have fixed: "tail_of (tail_of z) = tail_of z" "capture_frames (tail_of z) = []" for z
      using capture_frames_append [of z "[]"] by (simp_all only: append_Nil2 self_append_conv)
    have "counts (serve_notifications c ns (u', d')) = judged (capture_frames (tail_of (stream u @ n) @ concat ns)) (counts (u', d'))"
      using Cons.IH [of "(u', d')"] run(2) Cons.prems(2) s False one(2) fixed by simp
    also have "\<dots> = judged (capture_frames ((stream u @ n) @ concat ns)) (counts s)"
      using capture_frames_append [of "stream u @ n" "concat ns"] one(1) by (simp add: judged_simps(3))
    finally show ?thesis using s run(1) by (simp add: serve_notifications_def)
  qed
qed


text \<open>
  C30: the script agrees with the plugin: on the capture that the debug hook wrote of a session
  in which the parser's buffer never overflowed, however the stream was cut into notifications,
  \<open>frame_integrity.py\<close> reports as good exactly the frames the plugin accepted, and as many
  others as it rejected.
\<close>

theorem capture_agrees:
  assumes "wf_device d" and "stream u = []" and "list_all is_bytes ns" and "length nows = length ns" and "no_overflow [] ns"
  shows "\<exists>rep. frame_integrity (map2 debug_line nows ns) = Inr rep \<and>
    frames_ok (fst (serve_notifications c ns (u, d))) = frames_ok u + good rep \<and>
    frames_bad (fst (serve_notifications c ns (u, d))) = frames_bad u + (frames rep - good rep)"
proof -
  let ?fs = "capture_frames (concat ns)"
  have "concat (filter (\<lambda>n. n \<noteq> []) ns) = concat ns" by (induction ns) auto
  then have rep: "frame_integrity (map2 debug_line nows ns) = Inr
      \<lparr>notifications = length (filter (\<lambda>n. n \<noteq> []) ns), frames = length ?fs,
       intact = length (filter (\<lambda>f. length f = FRAME) ?fs), good = length (filter passes_checksum ?fs)\<rparr>"
    by (simp add: frame_integrity_def read_debug_lines [OF assms(3,4)] report_of_def Let_def)
  have "counts (serve_notifications c ns (u, d)) = judged ?fs (counts (u, d))"
    using serve_counts [of "(u, d)" ns c] assms by (simp add: capture_frames_eqs tail_of_eqs)
  moreover have "length (filter (\<lambda>f. \<not> passes_checksum f) ?fs) = length ?fs - length (filter passes_checksum ?fs)"
    using sum_length_filter_compl [of passes_checksum ?fs] by linarith
  ultimately show ?thesis using rep by (simp add: counts_def judged_def)
qed

theorem capture_agrees_witness:
  "\<exists>rep. frame_integrity [''12:00 <- 9230'', ''12:01 <- 300cc9''] = Inr rep \<and>
     frames_bad (fst (serve_notifications [] [[0x92, 0x30], [0x30, 0x0C, 0xC9]] (meritsun_init, sample_device ''battery_1'' [] 5))) =
       frames rep - good rep"
proof -
  let ?ns = "[[0x92, 0x30], [0x30, 0x0C, 0xC9]] :: bytes list"
  have lines: "map2 debug_line [''12:00'', ''12:01''] ?ns = [''12:00 <- 9230'', ''12:01 <- 300cc9'']"
    by (simp add: debug_line_def low_hex_char_def)
  have "list_all is_bytes ?ns" "no_overflow [] ?ns"
    by (simp_all add: is_byte_def tail_of_def mark_positions_Cons is_mark_def START_VAL_def START_VAL2_def)
  from capture_agrees [OF wf_sample_device _ this(1) _ this(2), of meritsun_init "[''12:00'', ''12:01'']" "[]"] lines
  show ?thesis by (simp add: meritsun_init_def) blast
qed

end
