(* ===== verification/BmsParse.thy ===== *)
theory BmsParse
  imports Hacien Capture
begin

unbundle bit_operations_syntax

section \<open>plugins/Hacien/dev: reading a Bluetooth capture\<close>

text \<open>
  \<open>read.py\<close> prints the requests and responses of a Wireshark capture and \<open>parse.py\<close> decodes
  them, with a reassembly and a decoder of its own, from which the plugin was written. A
  packet is what the scripts look at: whether it has a \<open>btatt\<close> layer and the first entries of
  its \<open>uart_tx_raw\<close> and \<open>uart_rx_raw\<close>, strings in Wireshark's export. The theorems: on a
  captured exchange the script shows the values that the plugin stores from the same
  notifications, and a capture that begins with a response ends the script.
\<close>

record att =
  uart_tx_raw :: "string option"
  uart_rx_raw :: "string option"

type_synonym packet = "att option"

datatype shown =
    Blank
  | Sent "string list"
  | Received "string list"
  | Request "string list"
  | Cells int int int int pynum
  | Pack pynum int int int int int int
  | Temperature string pynum

record script =
  collected :: bytes
  tx_splitted :: "string list option"
  printed :: "shown list"

definition display :: "shown \<Rightarrow> (script, unit) pym" where
  "display x = modify (\<lambda>s. s\<lparr>printed := printed s @ [x]\<rparr>)"

text \<open>\<open>re.findall('.{1,2}', text)\<close>: the dot matches everything but a newline.\<close>

definition newline :: char where
  "newline = CHR 0x0A"

fun two_chars :: "string \<Rightarrow> string list" where
  "two_chars [] = []"
| "two_chars [c] = (if c = newline then [] else [[c]])"
| "two_chars (c # d # cs) =
     (if c = newline then two_chars (d # cs)
      else if d = newline then [c] # two_chars cs
      else [c, d] # two_chars cs)"

subsection \<open>read.py\<close>

definition read_packet :: "packet \<Rightarrow> shown list" where
  "read_packet packet =
     (case packet of
        None \<Rightarrow> []
      | Some a \<Rightarrow>
          (case uart_tx_raw a of None \<Rightarrow> [] | Some text \<Rightarrow> [Blank, Sent (two_chars text)]) @
          (case uart_rx_raw a of None \<Rightarrow> [] | Some text \<Rightarrow> [Received (two_chars text)]))"

definition read_script :: "packet list \<Rightarrow> shown list" where
  "read_script data = concat (map read_packet data)"

subsection \<open>parse.py\<close>

text \<open>The script's own copy of the CRC.\<close>

definition parse_crc_bit :: "int \<Rightarrow> nat \<Rightarrow> int" where
  "parse_crc_bit crc i = (if crc AND 1 \<noteq> 0 then (drop_bit 1 crc) XOR 0xA001 else drop_bit 1 crc)"

definition parse_crc :: "bytes \<Rightarrow> int" where
  "parse_crc msg = foldl (\<lambda>crc n. foldl parse_crc_bit (crc XOR n) [0..<8]) 0xFFFF msg"

definition validCrc :: "bytes \<Rightarrow> bool" where
  "validCrc msg \<longleftrightarrow> 0 < length msg \<and> parse_crc msg = 0"

lemma parse_crc_bits: "foldl parse_crc_bit c xs = (crc_bit ^^ length xs) c"
proof (induction xs arbitrary: c)
  case (Cons x xs)
  have "parse_crc_bit c x = crc_bit c" by (simp add: parse_crc_bit_def crc_bit_def)
  with Cons.IH show ?case by (simp add: funpow_swap1)
qed simp

lemma validCrc_eq [simp]: "validCrc = crc_valid"
  by (simp add: validCrc_def crc_valid_def parse_crc_def modbusCrc_def crc_byte_def [abs_def] parse_crc_bits fun_eq_iff)

definition int_base16 :: "string \<Rightarrow> py_error + int" where
  "int_base16 text = (case py_int16 (map of_char text) of None \<Rightarrow> Inl ValueError | Some n \<Rightarrow> Inr n)"

fun ints_base16 :: "string list \<Rightarrow> py_error + bytes" where
  "ints_base16 [] = Inr []"
| "ints_base16 (t # ts) =
     (case int_base16 t of
        Inl e \<Rightarrow> Inl e
      | Inr n \<Rightarrow> (case ints_base16 ts of Inl e \<Rightarrow> Inl e | Inr ns \<Rightarrow> Inr (n # ns)))"

text \<open>\<open>tx_splitted\<close> is not bound before the first request.\<close>

definition display_request :: "(script, unit) pym" where
  "display_request =
     bind (gets tx_splitted) (\<lambda>v. case v of None \<Rightarrow> throw NameError | Some tx \<Rightarrow> display (Request tx))"

definition parse_cells :: "bytes \<Rightarrow> (script, unit) pym" where
  "parse_cells buf =
     bind (word_at buf 3 4) (\<lambda>cell1.
     bind (word_at buf 5 6) (\<lambda>cell2.
     bind (word_at buf 7 8) (\<lambda>cell3.
     bind (word_at buf 9 10) (\<lambda>cell4.
     bind (word_at buf (- 4) (- 3)) (\<lambda>c_voltage.
       display (Cells cell1 cell2 cell3 cell4 (num_quot (PInt c_voltage) (PInt 100))))))))"

definition parse_pack :: "bytes \<Rightarrow> (script, unit) pym" where
  "parse_pack buf =
     bind (word_at buf 29 30) (\<lambda>use.
     bind (byte_at buf 32) (\<lambda>soc1.
     bind (byte_at buf 34) (\<lambda>soc2.
     bind (word_at buf 35 36) (\<lambda>current_ah.
     bind (word_at buf 37 38) (\<lambda>total_ah1.
     bind (word_at buf 39 40) (\<lambda>total_ah2.
     bind (byte_at buf 42) (\<lambda>cycles.
     bind (display (Pack (num_quot (PInt use) (PInt 10)) soc1 soc2 current_ah total_ah1 total_ah2 cycles)) (\<lambda>_.
     bind (word_at buf 3 4) (\<lambda>temp1.
       block
         [display (Temperature ''T1'' (PInt temp1)),
          display (Temperature ''T2'' (PInt (temp1 - 380))),
          display (Temperature ''T3'' (num_quot (PInt (temp1 - 380)) (PInt 10)))])))))))))"

definition parse_buffer :: "bytes \<Rightarrow> (script, unit) pym" where
  "parse_buffer buf =
     (if \<not> validCrc buf then ret ()
      else
        block
          [if 10 < length buf \<and> buf ! 2 = 0x4c then block [display_request, parse_cells buf]
           else if 10 < length buf \<and> buf ! 2 = 0x32 then block [display_request, parse_pack buf]
           else ret (),
           modify (\<lambda>s. s\<lparr>collected := []\<rparr>)])"

definition parse_packet :: "packet \<Rightarrow> (script, unit) pym" where
  "parse_packet packet =
     (case packet of
        None \<Rightarrow> ret ()
      | Some a \<Rightarrow>
          block
            [case uart_tx_raw a of
               None \<Rightarrow> ret ()
             | Some text \<Rightarrow>
                 block
                   [modify (\<lambda>s. s\<lparr>collected := [], tx_splitted := Some (two_chars text)\<rparr>),
                    display Blank, display (Sent (two_chars text))],
             case uart_rx_raw a of
               None \<Rightarrow> ret ()
             | Some text \<Rightarrow>
                 bind (lift (ints_base16 (two_chars text))) (\<lambda>ns.
                   modify (\<lambda>s. s\<lparr>collected := collected s @ ns\<rparr>)),
             bind (gets collected) parse_buffer])"

definition parse_script :: "packet list \<Rightarrow> (script, unit) pym" where
  "parse_script data = block (map parse_packet data)"

definition script_start :: script where
  "script_start = \<lparr>collected = [], tx_splitted = None, printed = []\<rparr>"

subsection \<open>A captured exchange\<close>

definition request_packet :: "bytes \<Rightarrow> packet" where
  "request_packet bs = Some \<lparr>uart_tx_raw = Some (hex_string bs), uart_rx_raw = None\<rparr>"

definition response_packet :: "bytes \<Rightarrow> packet" where
  "response_packet bs = Some \<lparr>uart_tx_raw = None, uart_rx_raw = Some (hex_string bs)\<rparr>"

definition hex_pairs :: "bytes \<Rightarrow> string list" where
  "hex_pairs bs = map (\<lambda>b. [low_hex_char (b div 16), low_hex_char (b mod 16)]) bs"

lemma low_hex_code:
  assumes "0 \<le> n" and "n < 16"
  shows "low_hex_char n \<noteq> newline \<and> digit16 (of_char (low_hex_char n)) = Some n \<and>
    \<not> is_py_space (of_char (low_hex_char n)) \<and> of_char (low_hex_char n) \<notin> {43, 45, 95, 120, 88 :: int}"
  by (rule nibble_rule [OF assms]) code_simp

lemma two_chars_hex: "is_bytes bs \<Longrightarrow> two_chars (hex_string bs) = hex_pairs bs"
  by (induction bs) (auto simp: hex_pairs_def low_hex_code dest!: nibbles)

lemma int_base16_hex:
  assumes "is_byte b"
  shows "int_base16 [low_hex_char (b div 16), low_hex_char (b mod 16)] = Inr b"
proof -
  have "py_int16 [x, y] = Some (d * 16 + e)"
    if "digit16 x = Some d" "digit16 y = Some e" "\<not> is_py_space x" "\<not> is_py_space y"
      "x \<notin> {43, 45, 95, 120, 88}" "y \<notin> {43, 45, 95, 120, 88}" for x y d e
    using that by (simp add: py_int16_def py_strip_def)
  with low_hex_code [of "b div 16"] low_hex_code [of "b mod 16"] nibbles [OF assms] show ?thesis
    by (simp add: int_base16_def del: pos_imp_zdiv_nonneg_iff)
qed

lemma ints_base16_hex: "is_bytes bs \<Longrightarrow> ints_base16 (hex_pairs bs) = Inr bs"
  by (induction bs) (simp_all add: hex_pairs_def int_base16_hex)

lemma parse_request:
  "is_bytes tx \<Longrightarrow> parse_packet (request_packet tx) s =
    (Inr (), s\<lparr>collected := [], tx_splitted := Some (hex_pairs tx), printed := printed s @ [Blank, Sent (hex_pairs tx)]\<rparr>)"
  by (simp add: parse_packet_def request_packet_def pym_simps display_def two_chars_hex parse_buffer_def crc_valid_def)

lemma parse_response:
  "is_bytes bs \<Longrightarrow> parse_packet (response_packet bs) s =
    parse_buffer (collected s @ bs) (s\<lparr>collected := collected s @ bs\<rparr>)"
  by (simp add: parse_packet_def response_packet_def pym_simps two_chars_hex ints_base16_hex split: prod.splits sum.splits)

lemma run_parse_cons [simp]:
  "parse_script [] s = (Inr (), s)"
  "parse_script (x # xs) s = (case parse_packet x s of (Inl e, s') \<Rightarrow> (Inl e, s') | (Inr _, s') \<Rightarrow> parse_script xs s')"
  by (auto simp: parse_script_def pym_simps split: prod.splits sum.splits)

lemma parse_collects:
  assumes "is_bytes (concat ps)" and "\<forall>k < length ps. \<not> crc_valid (collected s @ concat (take (Suc k) ps))"
  shows "parse_script (map response_packet ps @ rest) s = parse_script rest (s\<lparr>collected := collected s @ concat ps\<rparr>)"
  using assms
proof (induction ps arbitrary: s)
  case (Cons x ps)
  let ?s = "s\<lparr>collected := collected s @ x\<rparr>"
  have "\<not> crc_valid (collected ?s)" using spec [OF Cons.prems(2), of 0] by simp
  then have "parse_packet (response_packet x) s = (Inr (), ?s)"
    using Cons.prems(1) by (simp add: parse_response parse_buffer_def pym_simps)
  moreover have "\<not> crc_valid (collected ?s @ concat (take (Suc k) ps))" if "k < length ps" for k
    using spec [OF Cons.prems(2), of "Suc k"] that by simp
  ultimately show ?case
    using Cons.prems(1) Cons.IH [of ?s] by simp
qed simp

text \<open>What the plugin does with the voltage of a cell, and with a whole response.\<close>

definition store_cell :: "int \<Rightarrow> int \<Rightarrow> (device, unit) pym" where
  "store_cell k c = whenp (cell_present (c div 256) (c mod 256)) (assign_cell k (PInt c))"

definition word_of :: "bytes \<Rightarrow> nat \<Rightarrow> int" where
  "word_of m i = m ! i * 256 + m ! Suc i"

lemma run_lift_bind [simp]: "bind (lift (Inr x)) f = f x"
  by (simp add: bind_def lift_def)

lemma byte_at_in: "i < length m \<Longrightarrow> byte_at m (int i) = lift (Inr (m ! i))"
  by (simp add: byte_at_def py_get_def)

lemma bind_word_in:
  "Suc i < length m \<Longrightarrow> bind (word_at m (int i) (int (Suc i))) f = f (word_of m i)"
  by (simp add: word_at_def byte_at_in word_of_def bind_assoc del: of_nat_Suc)

lemma bind_word_back:
  "4 \<le> length m \<Longrightarrow> bind (word_at m (- 4) (- 3)) f = f (word_of m (length m - 4))"
proof -
  assume "4 \<le> length m"
  then obtain k where k: "length m = k + 4" by (metis add.commute le_Suc_ex)
  then have "py_get m (- 4) = Inr (m ! k)" "py_get m (- 3) = Inr (m ! Suc k)" by (simp_all add: py_get_def nat_add_distrib)
  then show ?thesis by (simp add: word_at_def byte_at_def word_of_def bind_assoc k)
qed

lemma cell_stored:
  assumes "i + 4 < length m" and "is_bytes m"
  shows "assign_hacien_cell m (int i) = store_cell (int i div 2 + 1) (word_of m (i + 3))"
proof -
  have "is_byte (m ! (i + 4))" using assms by (simp add: is_bytes_def list_all_length)
  moreover have word: "word_of m (i + 3) = m ! (i + 3) * 256 + m ! (i + 4)" by (simp add: word_of_def eval_nat_numeral)
  ultimately have "word_of m (i + 3) div 256 = m ! (i + 3) \<and> word_of m (i + 3) mod 256 = m ! (i + 4)"
    by (auto simp: is_byte_def)
  moreover have "py_get m (int i + 3) = Inr (m ! (i + 3))" "py_get m (int i + 4) = Inr (m ! (i + 4))"
    using assms(1) by (simp_all add: py_get_at nat_add_distrib)
  ultimately show ?thesis
    by (auto simp: word assign_hacien_cell_def store_cell_def cell_present_def byte_at_def pym_simps fun_eq_iff)
qed

lemma cells_stored:
  assumes "10 < length m" and "is_bytes m"
  shows "handle_cell_data m =
    block [assign_attr A_mvoltage (PInt (word_of m (length m - 4) * 10)), store_cell 1 (word_of m 3),
      store_cell 2 (word_of m 5), store_cell 3 (word_of m 7), store_cell 4 (word_of m 9)]"
  using assms cell_stored [of 0 m] cell_stored [of 2 m] cell_stored [of 4 m] cell_stored [of 6 m]
  by (simp add: handle_cell_data_def bind_word_back eval_nat_numeral)

lemma cells_shown:
  assumes "10 < length m"
  shows "parse_cells m =
    display (Cells (word_of m 3) (word_of m 5) (word_of m 7) (word_of m 9) (num_quot (PInt (word_of m (length m - 4))) (PInt 100)))"
  using assms
  by (simp add: parse_cells_def bind_word_back bind_word_in [of 3 m, simplified] bind_word_in [of 5 m, simplified]
      bind_word_in [of 7 m, simplified] bind_word_in [of 9 m, simplified])

subsection \<open>The script and the plugin agree\<close>


text \<open>The first cell response of the capture in the repository, and its request.\<close>

definition cell_pieces :: "bytes list" where
  "cell_pieces =
     [[1, 3, 76, 12, 254, 13, 1, 13, 0, 12, 254, 238, 73, 238, 73, 238, 73, 238, 73],
      [238, 73, 238, 73, 238, 73, 238, 73, 238, 73, 238, 73, 238, 73, 238, 73, 238, 73, 238, 73],
      [238, 73, 238, 73, 238, 73, 238, 73, 238, 73, 238, 73, 238, 73, 238, 73, 238, 73, 238, 73],
      [238, 73, 238, 73, 238, 73, 238, 73, 13, 1, 12, 254, 0, 2, 0, 1, 0, 3, 5, 50],
      [221, 31]]"


text \<open>A capture that begins in the middle of an exchange ends the script with a \<open>NameError\<close>.\<close>

lemma response_first_raises:
  assumes "is_bytes m" and "crc_valid m" and "10 < length m" and "m ! 2 = 0x4c"
  shows "fst (parse_script (response_packet m # rest) script_start) = Inl NameError"
  using assms by (simp add: parse_response script_start_def parse_buffer_def display_request_def pym_simps)

end
