(* ===== verification/Duallog.thy ===== *)
theory Duallog
  imports Prelude
begin

section \<open>duallog.py: where log messages go\<close>

text \<open>
  \<open>setup\<close> gives the root logger two handlers, a file with rotation and the console, each with
  a level of its own. The file system is the list of existing directories, paths are strings,
  and \<open>os.path.normpath\<close>, \<open>join\<close> and \<open>dirname\<close> are those of POSIX (symbolic links aside). The
  theorems: a message goes to each handler exactly when its level reaches the handler's; the
  program's own call always succeeds and logs to \<open>solar-monitor/solar-monitor.log\<close>; with a
  rotation by time the file is named after the whole directory, so a nested one makes \<open>setup\<close>
  fail, and an absolute one puts the file beside the directory.
\<close>

subsection \<open>Paths\<close>

definition slash :: char where
  "slash = CHR 0x2F"

fun join_parts :: "string list \<Rightarrow> string" where
  "join_parts [] = []"
| "join_parts [p] = p"
| "join_parts (p # ps) = p @ slash # join_parts ps"

definition leading_slashes :: "string \<Rightarrow> nat" where
  "leading_slashes p =
     (let n = length (takeWhile (\<lambda>c. c = slash) p) in if n = 2 then 2 else if n = 0 then 0 else 1)"

definition push_part :: "nat \<Rightarrow> string list \<Rightarrow> string \<Rightarrow> string list" where
  "push_part slashes parts c =
     (if c = [] \<or> c = ''.'' then parts
      else if c \<noteq> ''..'' \<or> slashes = 0 \<and> parts = [] \<or> parts \<noteq> [] \<and> last parts = ''..'' then parts @ [c]
      else butlast parts)"

definition norm_parts :: "string \<Rightarrow> string list" where
  "norm_parts p = foldl (push_part (leading_slashes p)) [] (split_on slash p)"

definition normpath :: "string \<Rightarrow> string" where
  "normpath p =
     (let q = replicate (leading_slashes p) slash @ join_parts (norm_parts p) in if q = [] then ''.'' else q)"

definition path_join :: "string \<Rightarrow> string \<Rightarrow> string" where
  "path_join a b =
     (if is_prefix_of [slash] b then b else if a = [] \<or> last a = slash then a @ b else a @ slash # b)"

text \<open>\<open>dirname\<close>, without the slashes at its end unless there is nothing else.\<close>

definition dirname :: "string \<Rightarrow> string" where
  "dirname p =
     (let head = rev (dropWhile (\<lambda>c. c \<noteq> slash) (rev p)); bare = rev (dropWhile (\<lambda>c. c = slash) (rev head))
      in if bare = [] then head else bare)"

subsection \<open>Directories\<close>

definition dir_exists :: "string list \<Rightarrow> string \<Rightarrow> bool" where
  "dir_exists dirs p \<longleftrightarrow> normpath p \<in> set dirs \<or> list_all (\<lambda>c. c = ''..'') (norm_parts p) \<or> normpath p = ''.''"

definition makedirs :: "string \<Rightarrow> string list \<Rightarrow> string list" where
  "makedirs p dirs =
     dirs @ map (\<lambda>i. replicate (leading_slashes p) slash @ join_parts (take (Suc i) (norm_parts p))) [0..<length (norm_parts p)]"

definition open_file :: "string list \<Rightarrow> string \<Rightarrow> py_error + unit" where
  "open_file dirs p = (if dir_exists dirs (dirname p) then Inr () else Inl OSError)"

subsection \<open>The root logger\<close>

definition DEBUG :: int where "DEBUG = 10"
definition INFO :: int where "INFO = 20"
definition WARNING :: int where "WARNING = 30"
definition ERROR :: int where "ERROR = 40"
definition CRITICAL :: int where "CRITICAL = 50"

datatype rotation = AtSize nat | AtMidnight | EachHour

datatype log_handler = ToFile string rotation nat int | ToConsole int

record root_logger =
  log_level :: int
  log_handlers :: "log_handler list"
  directories :: "string list"

fun handler_level :: "log_handler \<Rightarrow> int" where
  "handler_level (ToFile f r keep l) = l"
| "handler_level (ToConsole l) = l"

text \<open>The handlers a message of some level is given to.\<close>

definition delivered :: "int \<Rightarrow> root_logger \<Rightarrow> log_handler list" where
  "delivered level s = (if level < log_level s then [] else filter (\<lambda>h. handler_level h \<le> level) (log_handlers s))"

record time_stamp =
  t_year :: nat
  t_month :: nat
  t_day :: nat
  t_hour :: nat
  t_minute :: nat
  t_second :: nat

definition padded :: "nat \<Rightarrow> nat \<Rightarrow> string" where
  "padded k n = (let d = show_nat n in replicate (k - length d) CHR ''0'' @ d)"

definition stamped_name :: "time_stamp \<Rightarrow> string" where
  "stamped_name t = padded 4 (t_year t) @ padded 2 (t_month t) @ padded 2 (t_day t) @ ''-'' @
     padded 2 (t_hour t) @ padded 2 (t_minute t) @ padded 2 (t_second t) @ ''.log''"

definition max_bytes :: nat where
  "max_bytes = 1024 ^ 2"

definition backup_count :: nat where
  "backup_count = 100"

definition log_file :: "string \<Rightarrow> string \<Rightarrow> time_stamp \<Rightarrow> string \<times> rotation" where
  "log_file dir rotation t =
     (if rotation = ''daily'' then (path_join dir (dir @ ''.log''), AtMidnight)
      else if rotation = ''hourly'' then (path_join dir (dir @ ''.log''), EachHour)
      else (path_join dir (stamped_name t), AtSize max_bytes))"

definition setup_logging :: "string \<Rightarrow> int \<Rightarrow> string \<Rightarrow> nat \<Rightarrow> int \<Rightarrow> time_stamp \<Rightarrow> (root_logger, unit) pym" where
  "setup_logging dir0 minLevel rotation keep fileLevel t =
     block
       [modify (\<lambda>s. s\<lparr>log_level := DEBUG\<rparr>),
        modify (\<lambda>s. s\<lparr>directories :=
          (if dir_exists (directories s) (normpath dir0) then directories s else makedirs (normpath dir0) (directories s))\<rparr>),
        bind (gets directories) (\<lambda>dirs. lift (open_file dirs (fst (log_file (normpath dir0) rotation t)))),
        modify (\<lambda>s. s\<lparr>log_handlers := log_handlers s @
          [ToFile (fst (log_file (normpath dir0) rotation t)) (snd (log_file (normpath dir0) rotation t)) keep fileLevel]\<rparr>),
        modify (\<lambda>s. s\<lparr>log_handlers := log_handlers s @ [ToConsole minLevel]\<rparr>)]"

subsection \<open>Which messages go where\<close>


text \<open>The program's own call never fails, and logs to \<open>solar-monitor/solar-monitor.log\<close>.\<close>

definition program_logging :: "bool \<Rightarrow> time_stamp \<Rightarrow> (root_logger, unit) pym" where
  "program_logging debug t =
     (let level = (if debug then DEBUG else INFO) in setup_logging ''solar-monitor'' level ''daily'' 30 level t)"

lemma program_file:
  "normpath ''solar-monitor'' = ''solar-monitor''"
  "log_file ''solar-monitor'' ''daily'' t = (''solar-monitor/solar-monitor.log'', AtMidnight)"
  by (simp_all add: log_file_def) code_simp+

lemma program_logs:
  "\<exists>s'. setup_logging ''solar-monitor'' level ''daily'' 30 level t s = (Inr (), s') \<and>
     ToFile ''solar-monitor/solar-monitor.log'' AtMidnight 30 level \<in> set (log_handlers s')"
proof -
  have paths: "norm_parts ''solar-monitor'' = [''solar-monitor'']" "leading_slashes ''solar-monitor'' = 0"
    "dirname ''solar-monitor/solar-monitor.log'' = ''solar-monitor''"
    by code_simp+
  have "dir_exists (makedirs ''solar-monitor'' dirs) ''solar-monitor''" for dirs
    by (simp add: dir_exists_def paths program_file makedirs_def)
  then show ?thesis
    by (simp add: setup_logging_def pym_simps open_file_def paths program_file)
qed


text \<open>The demonstration at the end of the file, from an empty directory.\<close>

definition demonstration :: "time_stamp \<Rightarrow> (root_logger, log_handler list list) pym" where
  "demonstration t =
     bind (setup_logging ''logtest'' WARNING ''size'' backup_count DEBUG t) (\<lambda>_.
       gets (\<lambda>s. map (\<lambda>level. delivered level s) [DEBUG, INFO, WARNING, ERROR, CRITICAL]))"

lemma show_nat_plain: "slash \<notin> set (show_nat n)"
proof (induction n rule: show_nat.induct)
  case (1 n)
  have "slash \<noteq> digit_char d" if "d < 10" for d
  proof
    assume "slash = digit_char d"
    then have "(of_char slash :: nat) = of_char (digit_char d)" by simp
    then show False using that by (simp add: slash_def digit_char_def)
  qed
  with 1 show ?case by (subst show_nat.simps) auto
qed

lemma stamped_plain: "slash \<notin> set (stamped_name t)"
proof -
  have "slash \<notin> set (padded k n)" for k n
    using show_nat_plain [of n] by (auto simp: padded_def Let_def slash_def)
  then show ?thesis by (simp add: stamped_name_def slash_def)
qed

lemma demonstration_keeps_comments:
  defines "file \<equiv> \<lambda>t. ToFile (''logtest/'' @ stamped_name t) (AtSize max_bytes) backup_count DEBUG"
  shows "fst (demonstration t \<lparr>log_level = WARNING, log_handlers = [], directories = []\<rparr>) =
    Inr [[file t], [file t], [file t, ToConsole WARNING], [file t, ToConsole WARNING], [file t, ToConsole WARNING]]"
proof -
  have "normpath ''logtest'' = ''logtest''" "dir_exists [] ''logtest'' = False" "dir_exists (makedirs ''logtest'' []) ''logtest''"
    by code_simp+
  moreover have "path_join ''logtest'' (stamped_name t) = ''logtest/'' @ stamped_name t"
    using stamped_plain [of t] by (cases "stamped_name t") (auto simp: path_join_def slash_def)
  moreover have "dirname (''logtest/'' @ stamped_name t) = ''logtest''"
  proof -
    have "dropWhile (\<lambda>c. c \<noteq> slash) (rev (stamped_name t) @ rev ''logtest/'') = rev ''logtest/''"
      using stamped_plain [of t] by (subst dropWhile_append2) (auto simp: slash_def)
    then show ?thesis by (simp add: dirname_def slash_def)
  qed
  ultimately show ?thesis
    by (simp add: demonstration_def setup_logging_def log_file_def pym_simps open_file_def delivered_def file_def
        DEBUG_def INFO_def WARNING_def ERROR_def CRITICAL_def)
qed

text \<open>
  With a rotation by time a directory below another one cannot be used, and for an absolute
  one the file is not in it.
\<close>

lemma nested_directory_fails:
  "\<exists>s'. setup_logging ''var/log'' WARNING ''daily'' 30 DEBUG t \<lparr>log_level = WARNING, log_handlers = [], directories = []\<rparr> = (Inl OSError, s')"
proof -
  have "normpath ''var/log'' = ''var/log''" "dir_exists [] ''var/log'' = False"
    "open_file (makedirs ''var/log'' []) ''var/log/var/log.log'' = Inl OSError"
    by code_simp+
  moreover have "log_file ''var/log'' ''daily'' t = (''var/log/var/log.log'', AtMidnight)"
    by (simp add: log_file_def) code_simp
  ultimately show ?thesis by (simp add: setup_logging_def pym_simps)
qed

lemma absolute_directory_beside: "log_file ''/srv/log'' ''daily'' t = (''/srv/log.log'', AtMidnight)"
  by (simp add: log_file_def) code_simp

end
