(* ===== verification/Spec2Isabelle.thy ===== *)
theory Spec2Isabelle
  imports Meritsun Hacien Topband SolarLink Renogy VEDirect ModbusCrc ValueLimits Monitor Bridge
    CommandPath Capture BmsParse Duallog
begin

text \<open>
  Verification library of solar-monitor, a daemon that reads batteries, solar regulators,
  inverters and rectifiers over Bluetooth LE and reports to Home Assistant over MQTT and to
  an HTTP endpoint (Python 3, under \<open>src/\<close>).

  \<^bold>\<open>The program and its theories.\<close> \<open>monitor_app.main\<close> reads the ini file, starts the datalogger and
  the consumer loop, scans, and registers a \<open>SolarDevice\<close> for each configured device it finds
  (\<open>Monitor\<close>). The manager runs one connection task for each device (\<open>Ble\<close>). A notification
  goes through \<open>SolarDevice.notify_callback\<close> (\<open>Device\<close>) to the device's plugin, which decodes it and
  assigns the attributes of the entity object (\<open>EntityProps\<close>, \<open>Entities\<close>); each assignment is
  validated (\<open>ValueLimits\<close>). What is new is put into a bounded queue; the consumer loop
  (\<open>Supervisor\<close>) hands it to the datalogger (\<open>Datalogger\<close>), which sends what has changed through
  MQTT (\<open>Mqtt\<close>). Commands come back over MQTT, through the bridge thread (\<open>Bridge\<close>), to
  \<open>run_command\<close>. The watchdog (\<open>Supervisor\<close>) ends the program when the consumer died or nobody reports.

  \<^item> \<open>Prelude\<close>, \<open>PyNumbers\<close>: exceptions and state (a method is a function from a state to a result
    or error and the state it leaves), Python's sequences and strings; integers and binary64
    floats (\<open>fl\<close> rounds a rational to the nearest float, ties to even), \<open>round\<close>, comparison.
  \<^item> \<open>Codec\<close>, \<open>Asciihex\<close>, \<open>Modbus\<close>, \<open>ModbusCrc\<close>: codec.py, asciihex.py, modbus.py, and the CRC of the
    Hacien plugin, which discharges the interface \<open>crc16\<close>. Round trips of fields, error detection.
  \<^item> \<open>ValueLimits\<close>, \<open>Entities\<close>, \<open>EntityProps\<close>: \<open>PowerDevice\<close> and its subclasses in solardevice.py: the
    validation state machine of one value, the definitions and overrides, all properties.
  \<^item> \<open>Device\<close>: \<open>SolarDevice\<close> in solardevice.py: queueing, publishing, writes, the callbacks; the interface
    \<open>plugin_contract\<close> every plugin discharges.
  \<^item> \<open>Meritsun\<close>, \<open>Hacien\<close>, \<open>Topband\<close>, \<open>Registers\<close>, \<open>SolarLink\<close>, \<open>Renogy\<close>, \<open>VEDirect\<close>: the six plugins under
    plugins/: framing, reassembly, decoding, poll schedules, commands.
  \<^item> \<open>Supervisor\<close>, \<open>Connection\<close>, \<open>Hci\<close>: supervisor.py, connection.py, hci.py. \<open>log_sink\<close> is what the
    consumer asks of its sink; the datalogger discharges it.
  \<^item> \<open>Mqtt\<close>, \<open>Datalogger\<close>: datalogger.py, the two classes.
  \<^item> \<open>Ble\<close>, \<open>Bridge\<close>: ble.py. \<open>transport_contract\<close> is what the connection loop asks of a device; a
    \<open>SolarDevice\<close> that reports to the datalogger discharges it, with any plugin.
  \<^item> \<open>Writes\<close>: the lock that \<open>BleManager._client_factory\<close> gives each client, with the poll writes of
    \<open>ble._hold\<close> and the \<open>write_with_retry\<close> of each command as interleaving writers.
  \<^item> \<open>Monitor\<close>: monitor_app.py. \<open>Manager\<close>: \<open>BleManager\<close> in ble.py, the event loop in its thread as
    rounds over a queue of callbacks, and what the other threads ask of it.
  \<^item> \<open>CommandPath\<close>: the way of a switch command through \<open>Bridge\<close>, \<open>Manager\<close>, \<open>VEDirect\<close> and \<open>Writes\<close>.
  \<^item> \<open>Duallog\<close>: duallog.py, paths and log handlers, and the call in monitor_app.py.
  \<^item> \<open>Capture\<close>, \<open>BmsParse\<close>: the scripts under plugins/Meritsun/dev and plugins/Hacien/dev that judge and
    decode a capture with code of their own, compared with the plugins.

  \<^bold>\<open>How state and effects appear.\<close> An object is a record of the fields its methods use, a class
  with a variable set of attributes a map, an exception a value of \<open>py_error\<close>. Code outside
  the repository is an argument: paho's client (\<open>broker\<close>), \<open>requests.post\<close> (\<open>post_reply\<close>), the bleak
  client (the answers in a \<open>round\<close>), \<open>libscrc.modbus\<close> (\<open>crc\<close>, instantiated by the CRC of the Hacien
  plugin), \<open>subprocess.run\<close> (\<open>run\<close>), the clock and the random source. A loop that runs until an
  event is set is a function of a list with one entry for each pass; when the list is used
  up, the loop is still running, so a statement about longer lists is one about longer runs,
  and no fuel can run out. Threads and tasks that interleave are step relations (\<open>loop_step\<close>,
  \<open>bridge_step\<close>, \<open>wire_step\<close>) with the states reachable in them; asyncio's loop, its locks and
  its cancellation behave as the standard library of Python 3.11 documents and has them.

  \<^bold>\<open>What the theorems show.\<close>
  \<^item> Values: a device never holds a value outside its bounds, an outlier never gets through
    unless it is repeated, and a steady value is believed after three readings.
  \<^item> Wire formats: framing does not depend on how the stream is cut, buffers stay bounded,
    checksums detect single errors, responses decode to the values they were built from.
  \<^item> Pipeline: no exception escapes a notification, the queue loses only what it counts, the
    consumer is in order and drains, the cache refines the history of deliveries, and the
    broker ends up with the newest value of every variable, which joins the queue, the loop,
    the cache and the publisher.
  \<^item> Home Assistant: a value never precedes its discovery config, a device is offline from the
    start and after every loss of its link, commands arrive and survive a reconnect.
  \<^item> Connections: one at a time, without a deadlock, retried for ever with the backoff of the
    policy, the interval asserted again on a slow link; writes on one connection never overlap,
    none is stuck, and each command ends as \<open>write_with_retry\<close> says, whatever interleaves with
    it; \<open>stop\<close> leaves no connection task in the middle of its work; a switch command that
    arrived over MQTT is accepted by the inverter, once and in order.
  \<^item> Tools: on the same notifications the capture scripts and the plugins come to the same
    frames and values; each log handler gets the messages whose level it asks for.
  \<^item> Where the code does something else than it means to, a theorem says what it does: see the
    ones whose text begins with what is lost, dropped or rejected.

  \<^bold>\<open>Bounds.\<close> The link test is exact below \<open>2 ^ 40\<close> frames (a link carries some dozens a minute).
  The bridge needs at most \<open>bridge_work\<close> steps: four for each list and one for each command.
  A connection makes at most five steps for each write it was asked for.

  \<^bold>\<open>Not modelled.\<close> The text of log lines; argparse and the registration of signal handlers (the stop
  event they set is an input); the plugin import; the accessors of \<open>PowerDevice\<close> that only name
  its parent's fields, and \<open>dumpAll\<close>; \<open>RegulatorDevice.parse_notification\<close>, which nothing calls and
  which uses an attribute no class has; JSON decoding of a capture. The reactions of bleak,
  bluetoothctl and the broker are inputs. Strings are 8-bit; what \<open>float\<close>, \<open>int\<close> and the patterns
  accept is modelled for such strings. Defaults and interpolation of configparser are left out.
  Interrupts and memory errors are not considered.
\<close>

section \<open>Properties that span the components\<close>

subsection \<open>Every plugin keeps the device it drives well-formed\<close>

lemma plugin_inits:
  "framed (stream meritsun_init)" "hacien_inv hacien_init" "topband_inv topband_init"
  "solarlink_inv solarlink_init" "renogy_inv (renogy_init t)" "vedirect_inv vedirect_init"
  by (simp_all add: meritsun_init_def framed_def hacien_inv_def hacien_init_def topband_inv_init solarlink_inv_def
      solarlink_init_def renogy_inv_def renogy_init_def vedirect_inv_def vedirect_init_def)

text \<open>The clock goes on between two events: the plugin reads it in each.\<close>

definition serve_renogy :: "(bytes \<Rightarrow> int) \<Rightarrow> (rat \<times> link_event) list \<Rightarrow> renogy \<times> device \<Rightarrow> renogy \<times> device" where
  "serve_renogy crc tes s = foldl (\<lambda>s (t, e). serve_event (renogy_plugin crc t) e s) s tes"

lemma serve_renogy_keeps:
  "list_all (\<lambda>(t, e). event_ok e) tes \<Longrightarrow> keeps renogy_inv s \<Longrightarrow> keeps renogy_inv (serve_renogy crc tes s)"
proof (induction tes arbitrary: s)
  case (Cons te tes)
  obtain t e where te: "te = (t, e)" by (rule prod.exhaust)
  have "keeps renogy_inv (serve_event (renogy_plugin crc t) e s)"
    using Cons.prems te by (intro renogy.serve_event_keeps) simp_all
  with Cons te show ?case by (simp add: serve_renogy_def)
qed (simp add: serve_renogy_def)

lemma new_device_offline: "new_device cfg name section interval q = Inr d \<Longrightarrow> \<not> connected d"
  by (auto simp: new_device_def split: sum.splits)



end
